(* ===== verification/FTL_Prelude.thy ===== *)
theory FTL_Prelude
  imports Main "HOL-Library.Word" "HOL-Library.Monad_Syntax"
begin

unbundle bit_operations_syntax

text \<open>
  Shared ground of the development: the C integer types as machine words, checked array access
  in the option monad (\<^term>\<open>None\<close> is a stop of the machine: a failed \<open>BUG_ON\<close>, a null
  dereference or an access outside an array), C bit fields over a word, and the generic lemmas on
  lists, options and words that the component theories use.
\<close>

section \<open>C integer types\<close>

type_synonym u8 = "8 word"
type_synonym u16 = "16 word"
type_synonym u32 = "32 word"
type_synonym u64 = "64 word"

text \<open>One 4 KB unit of payload, the granularity of every copy in the data path.\<close>

type_synonym page = "u8 list"

named_theorems res_simps \<open>unfolding rules of the checked array accesses\<close>
named_theorems bf_simps \<open>reading a bit field after writing one\<close>

section \<open>Checked array access\<close>

definition aget :: "'a list \<Rightarrow> nat \<Rightarrow> 'a option" where
  "aget xs i = (if i < length xs then Some (xs ! i) else None)"

definition aset :: "'a list \<Rightarrow> nat \<Rightarrow> 'a \<Rightarrow> 'a list option" where
  "aset xs i v = (if i < length xs then Some (xs[i := v]) else None)"

definition amod :: "'a list \<Rightarrow> nat \<Rightarrow> ('a \<Rightarrow> 'a) \<Rightarrow> 'a list option" where
  "amod xs i f = (if i < length xs then Some (xs[i := f (xs ! i)]) else None)"

definition guard :: "bool \<Rightarrow> unit option" where
  "guard b = (if b then Some () else None)"

lemma aget_Some [res_simps]: "aget xs i = Some v \<longleftrightarrow> i < length xs \<and> v = xs ! i"
  by (auto simp: aget_def)

lemma aset_Some [res_simps]: "aset xs i v = Some ys \<longleftrightarrow> i < length xs \<and> ys = xs[i := v]"
  by (auto simp: aset_def)

lemma amod_Some [res_simps]: "amod xs i f = Some ys \<longleftrightarrow> i < length xs \<and> ys = xs[i := f (xs ! i)]"
  by (auto simp: amod_def)

lemma guard_Some [res_simps]: "guard b = Some u \<longleftrightarrow> b"
  by (simp add: guard_def)

lemma aget_in [simp]: "i < length xs \<Longrightarrow> aget xs i = Some (xs ! i)"
  by (simp add: aget_def)

lemma aset_in [simp]: "i < length xs \<Longrightarrow> aset xs i v = Some (xs[i := v])"
  by (simp add: aset_def)

lemma amod_in [simp]: "i < length xs \<Longrightarrow> amod xs i f = Some (xs[i := f (xs ! i)])"
  by (simp add: amod_def)

lemma guard_True [simp]: "guard True = Some ()"
  by (simp add: guard_def)

lemma guard_False [simp]: "guard False = None"
  by (simp add: guard_def)

lemma aget_out [simp]: "length xs \<le> i \<Longrightarrow> aget xs i = None"
  by (simp add: aget_def)

lemma aset_out [simp]: "length xs \<le> i \<Longrightarrow> aset xs i v = None"
  by (simp add: aset_def)

lemma amod_out [simp]: "length xs \<le> i \<Longrightarrow> amod xs i f = None"
  by (simp add: amod_def)

section \<open>Words\<close>

lemma unat_of_nat_small: "n < 2 ^ LENGTH('w::len) \<Longrightarrow> unat (of_nat n :: 'w word) = n"
  by (simp add: unat_of_nat take_bit_nat_eq_self)

lemma of_nat_word_inj:
  "m < 2 ^ LENGTH('w::len) \<Longrightarrow> n < 2 ^ LENGTH('w) \<Longrightarrow>
   (of_nat m :: 'w word) = of_nat n \<longleftrightarrow> m = n"
  by (metis unat_of_nat_small)

lemma word_Suc_unat: "w \<noteq> - 1 \<Longrightarrow> unat (w + 1) = Suc (unat (w :: 'w::len word))"
  using unatSuc [of w] by (metis add.commute add_eq_0_iff2 minus_minus)

lemma unat_pred: "w \<noteq> 0 \<Longrightarrow> unat (w - 1) = unat (w :: 'w::len word) - 1"
  by (metis unat_minus_one)

section \<open>Bit fields\<close>

text \<open>
  A C bit field of \<open>n\<close> bits at offset \<open>k\<close> of a little-endian word. Writing keeps the low
  \<open>n\<close> bits of the value, as the compiler does.
\<close>

definition bf_get :: "nat \<Rightarrow> nat \<Rightarrow> 'w::len word \<Rightarrow> 'w word" where
  "bf_get k n w = take_bit n (drop_bit k w)"

definition bf_set :: "nat \<Rightarrow> nat \<Rightarrow> 'w::len word \<Rightarrow> 'w word \<Rightarrow> 'w word" where
  "bf_set k n v w = (w AND NOT (push_bit k (mask n))) OR push_bit k (take_bit n v)"

lemma bit_bf_get: "bit (bf_get k n w) i \<longleftrightarrow> i < n \<and> bit w (k + i)"
  by (auto simp: bf_get_def bit_simps)

lemma bit_bf_set:
  "bit (bf_set k n v w) i \<longleftrightarrow>
     (i < LENGTH('w::len) \<and> (if k \<le> i \<and> i < k + n then bit v (i - k) else bit (w :: 'w word) i))"
  by (auto simp: bf_set_def bit_simps dest: bit_imp_le_length)

lemma bf_get_set_same [bf_simps]:
  "k + n \<le> LENGTH('w::len) \<Longrightarrow> bf_get k n (bf_set k n v (w :: 'w word)) = take_bit n v"
  by (rule bit_word_eqI) (auto simp: bit_bf_get bit_bf_set bit_simps)

lemma bf_get_set_other [bf_simps]:
  "k' + n' \<le> k \<or> k + n \<le> k' \<Longrightarrow> bf_get k' n' (bf_set k n v w) = bf_get k' n' w"
  by (rule bit_word_eqI) (auto simp: bit_bf_get bit_bf_set dest: bit_imp_le_length)

lemma bf_get_less: "n < LENGTH('w::len) \<Longrightarrow> unat (bf_get k n (w :: 'w word)) < 2 ^ n"
  by (simp add: bf_get_def unsigned_take_bit_eq)

lemma bf_get_0 [simp]: "bf_get k n 0 = 0"
  by (simp add: bf_get_def)

lemma bf_get_or: "bf_get k n (a OR b) = bf_get k n a OR bf_get k n b"
  by (rule bit_word_eqI) (auto simp: bit_bf_get bit_simps)

section \<open>Lists\<close>

lemma nth_list_update_same_or: "i < length xs \<Longrightarrow> xs[i := v] ! j = (if i = j then v else xs ! j)"
  by simp

lemma distinct_nth_neq: "distinct xs \<Longrightarrow> i < length xs \<Longrightarrow> j < length xs \<Longrightarrow>
   i \<noteq> j \<Longrightarrow> xs ! i \<noteq> xs ! j"
  by (simp add: nth_eq_iff_index_eq)

end
