(* ===== verification/Flash_Cfg.thy ===== *)
theory Flash_Cfg
  imports FTL_Prelude
begin

text \<open>
  Flash geometry and physical addresses of the host FTL: \<open>hwcfg/cfg/cfg_2TB_MCL95B.h\<close> (the
  configuration \<open>flash_cfg.h\<close> selects), \<open>hwcfg/cfg/flash_cfg.h\<close>, the bit macros of
  \<open>utils/utils.h\<close> and the table and LBA-zone sizes of \<open>systbl/sys-meta.h\<close>,
  \<open>writecache/wcb-mngr.h\<close> and \<open>fscftl.h\<close>. A \<open>geo_ppa\<close> is the 32-bit union of the
  source: its \<open>nand\<close> and \<open>cache\<close> views are bit fields of one word.
\<close>

section \<open>Geometry\<close>

definition CH_BITS :: nat where [simp]: "CH_BITS = 4"
definition EP_BITS :: nat where [simp]: "EP_BITS = 2"
definition PL_BITS :: nat where [simp]: "PL_BITS = 1"
definition LN_BITS :: nat where [simp]: "LN_BITS = 3"
definition PG_BITS :: nat where [simp]: "PG_BITS = 9"
definition BL_BITS :: nat where [simp]: "BL_BITS = 10"

definition CAPACITY :: nat where "CAPACITY = 2 ^ 41"
definition CFG_NAND_EP_NUM :: nat where [simp]: "CFG_NAND_EP_NUM = 2 ^ EP_BITS"
definition CFG_NAND_CHANNEL_NUM :: nat where [simp]: "CFG_NAND_CHANNEL_NUM = 16"
definition CFG_NAND_LUN_NUM :: nat where [simp]: "CFG_NAND_LUN_NUM = 8"
definition CFG_NAND_BLOCK_NUM :: nat where [simp]: "CFG_NAND_BLOCK_NUM = 128"
definition CFG_NAND_PAGE_NUM :: nat where [simp]: "CFG_NAND_PAGE_NUM = 512"
definition CFG_NAND_PLANE_NUM :: nat where [simp]: "CFG_NAND_PLANE_NUM = 2"
definition CFG_NAND_PAGE_SIZE :: nat where [simp]: "CFG_NAND_PAGE_SIZE = 16384"
definition CFG_NAND_EP_SIZE :: nat where [simp]: "CFG_NAND_EP_SIZE = 4096"
definition CFG_DRIVE_EP_NUM :: nat where [simp]: "CFG_DRIVE_EP_NUM = CFG_NAND_PAGE_SIZE div CFG_NAND_EP_SIZE"
definition CFG_DRIVE_LINE_NUM :: nat where [simp]: "CFG_DRIVE_LINE_NUM = CFG_NAND_PLANE_NUM * CFG_DRIVE_EP_NUM"

text \<open>Write cache geometry (\<open>wcb-mngr.h\<close>) and command limits (\<open>fscftl.h\<close>).\<close>

definition CB_ENTITYS_CNT :: nat where [simp]: "CB_ENTITYS_CNT = (2 + 0) * CFG_NAND_LUN_NUM"
definition RAID_LUN_SEC_NUM :: nat where
  [simp]: "RAID_LUN_SEC_NUM = CFG_NAND_CHANNEL_NUM * CFG_NAND_EP_NUM * CFG_NAND_PLANE_NUM"
definition MAX_USED_WCB_ENTITYS :: nat where [simp]: "MAX_USED_WCB_ENTITYS = 3"

definition SEC_PER_PPA :: nat where [simp]: "SEC_PER_PPA = 8"
definition EXP_PPA_SIZE :: nat where [simp]: "EXP_PPA_SIZE = 4096"
definition MAX_PPA_PER_CMD :: nat where [simp]: "MAX_PPA_PER_CMD = 64"
definition NAND_RAW_SIZE :: nat where [simp]: "NAND_RAW_SIZE = 304"
definition NAND_META_SIZE :: nat where [simp]: "NAND_META_SIZE = 16"

section \<open>Table sizes and LBA zones\<close>

definition div_round_up :: "nat \<Rightarrow> nat \<Rightarrow> nat" where
  "div_round_up n d = (n + d - 1) div d"

definition USER_CAPACITY :: nat where "USER_CAPACITY = CAPACITY * 8 div 11"
definition MAX_USER_LBA :: nat where "MAX_USER_LBA = USER_CAPACITY div CFG_NAND_EP_SIZE - 1"

text \<open>
  \<open>sizeof(struct bmi_item)\<close>: two 32-bit words, two 16-bit words, three arrays of
  \<open>CFG_NAND_LUN_NUM\<close> 16-bit words, two 16-bit words, an \<open>atomic_t\<close> and two 32-bit links.
\<close>

definition sizeof_bmi_item :: nat where
  "sizeof_bmi_item = 4 + 4 + 2 + 2 + 3 * (2 * CFG_NAND_LUN_NUM) + 2 + 2 + 4 + 4 + 4"

definition BMITBL_SEC_NUM :: nat where
  "BMITBL_SEC_NUM = div_round_up (CFG_NAND_BLOCK_NUM * sizeof_bmi_item) EXP_PPA_SIZE"
definition VPCTBL_SEC_NUM :: nat where
  "VPCTBL_SEC_NUM = div_round_up (CFG_NAND_BLOCK_NUM * 4) EXP_PPA_SIZE"
definition USR_FTLTBL_SEC_NUM :: nat where
  "USR_FTLTBL_SEC_NUM = div_round_up (MAX_USER_LBA * 4) EXP_PPA_SIZE"
definition USR_FTLTBL_SIZE :: nat where
  "USR_FTLTBL_SIZE = USR_FTLTBL_SEC_NUM * EXP_PPA_SIZE"
definition L1TBL_SEC_NUM :: nat where
  "L1TBL_SEC_NUM = div_round_up ((USR_FTLTBL_SEC_NUM + VPCTBL_SEC_NUM + BMITBL_SEC_NUM) * 4) EXP_PPA_SIZE"

definition EXTEND_LBA_BASE :: nat where "EXTEND_LBA_BASE = MAX_USER_LBA + 1"
definition EXTEND_LBA_UFTL :: nat where "EXTEND_LBA_UFTL = EXTEND_LBA_BASE"
definition EXTEND_LBA_BMITBL :: nat where "EXTEND_LBA_BMITBL = EXTEND_LBA_UFTL + USR_FTLTBL_SEC_NUM"
definition EXTEND_LBA_VPCTBL :: nat where "EXTEND_LBA_VPCTBL = EXTEND_LBA_BMITBL + BMITBL_SEC_NUM"
definition EXTEND_LBA_L1TBL :: nat where "EXTEND_LBA_L1TBL = EXTEND_LBA_VPCTBL + VPCTBL_SEC_NUM"
definition EXTEND_LBA_RSVD0 :: nat where "EXTEND_LBA_RSVD0 = EXTEND_LBA_L1TBL + L1TBL_SEC_NUM"

definition INVALID_PAGE :: u32 where "INVALID_PAGE = 0xffffffff"

lemmas zone_defs =
  CAPACITY_def USER_CAPACITY_def MAX_USER_LBA_def div_round_up_def sizeof_bmi_item_def
  BMITBL_SEC_NUM_def VPCTBL_SEC_NUM_def USR_FTLTBL_SEC_NUM_def USR_FTLTBL_SIZE_def
  L1TBL_SEC_NUM_def EXTEND_LBA_BASE_def EXTEND_LBA_UFTL_def EXTEND_LBA_BMITBL_def
  EXTEND_LBA_VPCTBL_def EXTEND_LBA_L1TBL_def EXTEND_LBA_RSVD0_def

lemma MAX_USER_LBA_eq: "MAX_USER_LBA = 390451571"
  by (simp add: zone_defs)

lemma USR_FTLTBL_SIZE_eq: "USR_FTLTBL_SIZE = 1561808896"
  by (simp add: zone_defs)

section \<open>Physical addresses\<close>

type_synonym geo_ppa = u32

definition ppa_ch :: "geo_ppa \<Rightarrow> u32" where "ppa_ch p = bf_get 0 4 p"
definition ppa_sec :: "geo_ppa \<Rightarrow> u32" where "ppa_sec p = bf_get 4 2 p"
definition ppa_pl :: "geo_ppa \<Rightarrow> u32" where "ppa_pl p = bf_get 6 1 p"
definition ppa_lun :: "geo_ppa \<Rightarrow> u32" where "ppa_lun p = bf_get 7 3 p"
definition ppa_pg :: "geo_ppa \<Rightarrow> u32" where "ppa_pg p = bf_get 10 9 p"
definition ppa_blk :: "geo_ppa \<Rightarrow> u32" where "ppa_blk p = bf_get 19 12 p"
definition ppa_in_cache :: "geo_ppa \<Rightarrow> u32" where "ppa_in_cache p = bf_get 31 1 p"

definition set_ch :: "u32 \<Rightarrow> geo_ppa \<Rightarrow> geo_ppa" where "set_ch v p = bf_set 0 4 v p"
definition set_sec :: "u32 \<Rightarrow> geo_ppa \<Rightarrow> geo_ppa" where "set_sec v p = bf_set 4 2 v p"
definition set_pl :: "u32 \<Rightarrow> geo_ppa \<Rightarrow> geo_ppa" where "set_pl v p = bf_set 6 1 v p"
definition set_lun :: "u32 \<Rightarrow> geo_ppa \<Rightarrow> geo_ppa" where "set_lun v p = bf_set 7 3 v p"
definition set_pg :: "u32 \<Rightarrow> geo_ppa \<Rightarrow> geo_ppa" where "set_pg v p = bf_set 10 9 v p"
definition set_blk :: "u32 \<Rightarrow> geo_ppa \<Rightarrow> geo_ppa" where "set_blk v p = bf_set 19 12 v p"
definition set_in_cache :: "u32 \<Rightarrow> geo_ppa \<Rightarrow> geo_ppa" where "set_in_cache v p = bf_set 31 1 v p"

lemmas ppa_get_defs = ppa_ch_def ppa_sec_def ppa_pl_def ppa_lun_def ppa_pg_def ppa_blk_def ppa_in_cache_def
lemmas ppa_set_defs = set_ch_def set_sec_def set_pl_def set_lun_def set_pg_def set_blk_def set_in_cache_def
lemmas ppa_defs = ppa_get_defs ppa_set_defs

text \<open>\<open>get_ppa_each_region\<close> copies the fields into 8 and 16-bit variables.\<close>

definition get_ppa_each_region :: "geo_ppa \<Rightarrow> u8 \<times> u8 \<times> u8 \<times> u8 \<times> u16 \<times> u16" where
  "get_ppa_each_region p =
     (ucast (ppa_ch p), ucast (ppa_sec p), ucast (ppa_pl p), ucast (ppa_lun p),
      ucast (ppa_pg p), ucast (ppa_blk p))"

definition set_ppa_nand_addr :: "u8 \<Rightarrow> u8 \<Rightarrow> u8 \<Rightarrow> u8 \<Rightarrow> u16 \<Rightarrow> u16 \<Rightarrow> geo_ppa" where
  "set_ppa_nand_addr ch sec pl lun pg blk =
     set_blk (ucast blk) (set_pg (ucast pg) (set_lun (ucast lun)
       (set_pl (ucast pl) (set_sec (ucast sec) (set_ch (ucast ch) 0)))))"

text \<open>
  \<open>INCRE_BOUNDED\<close> on a plain integer variable: the pre-incremented value is compared after
  promotion, so a variable wide enough for \<open>1 << bits\<close> reports its carry.
\<close>

definition incre_bounded :: "nat \<Rightarrow> 'w::len word \<Rightarrow> 'w word \<times> bool" where
  "incre_bounded bits n = (let m = n + 1 in if unat m = 2 ^ bits then (0, True) else (m, False))"

definition if_carry_incre_bounded :: "bool \<Rightarrow> nat \<Rightarrow> 'w::len word \<Rightarrow> 'w word \<times> bool" where
  "if_carry_incre_bounded carry bits n = (if carry then incre_bounded bits n else (n, carry))"

text \<open>The bit macros of \<open>utils.h\<close>; \<open>BIT2MASK\<close> is taken at the width its use casts it to.\<close>

definition BIT_TEST :: "'w::len word \<Rightarrow> nat \<Rightarrow> bool" where
  "BIT_TEST f n = (f AND push_bit n 1 \<noteq> 0)"
definition BIT_SET :: "'w::len word \<Rightarrow> nat \<Rightarrow> 'w word" where
  "BIT_SET f n = f OR push_bit n 1"
definition BIT_CLEAR :: "'w::len word \<Rightarrow> nat \<Rightarrow> 'w word" where
  "BIT_CLEAR f n = f AND NOT (push_bit n 1)"
definition BIT2MASK :: "nat \<Rightarrow> 'w::len word" where
  "BIT2MASK width = push_bit width 1 - 1"

section \<open>Laws of the address fields\<close>

lemma BIT_TEST_iff: "BIT_TEST f n \<longleftrightarrow> bit (f :: 'w::len word) n"
proof -
  have "f AND push_bit n 1 = of_bool (bit f n) * push_bit n 1"
    by (rule bit_word_eqI) (auto simp: bit_simps)
  moreover have "push_bit n (1 :: 'w word) \<noteq> 0" if "bit f n"
    using bit_imp_le_length [OF that] by (simp add: push_bit_of_1)
  ultimately show ?thesis
    by (auto simp: BIT_TEST_def)
qed

lemma bit_BIT_SET: "bit (BIT_SET f n) i \<longleftrightarrow> bit f i \<or> (i = n \<and> n < LENGTH('w))"
  for f :: "'w::len word"
  by (auto simp: BIT_SET_def bit_simps)

lemma bit_BIT_CLEAR: "bit (BIT_CLEAR f n) i \<longleftrightarrow> bit f i \<and> i \<noteq> n"
  for f :: "'w::len word"
  by (auto simp: BIT_CLEAR_def bit_simps dest: bit_imp_le_length)

lemma BIT2MASK_mask: "BIT2MASK n = (mask n :: 'w::len word)"
  by (simp add: BIT2MASK_def mask_eq_decr_exp push_bit_of_1)

lemma ppa_fields_set_nand [simp]:
  "ppa_ch (set_ppa_nand_addr ch sec pl lun pg blk) = take_bit 4 (ucast ch)"
  "ppa_sec (set_ppa_nand_addr ch sec pl lun pg blk) = take_bit 2 (ucast sec)"
  "ppa_pl (set_ppa_nand_addr ch sec pl lun pg blk) = take_bit 1 (ucast pl)"
  "ppa_lun (set_ppa_nand_addr ch sec pl lun pg blk) = take_bit 3 (ucast lun)"
  "ppa_pg (set_ppa_nand_addr ch sec pl lun pg blk) = take_bit 9 (ucast pg)"
  "ppa_blk (set_ppa_nand_addr ch sec pl lun pg blk) = take_bit 12 (ucast blk)"
  by (simp_all add: set_ppa_nand_addr_def ppa_defs bf_simps)

lemma ppa_blk_set_in_cache [simp]: "ppa_blk (set_in_cache v p) = ppa_blk p"
  by (simp add: ppa_defs bf_simps)

text \<open>
  Within one raid LUN the sector number counts through channel, sector and plane: adding a
  position below \<open>RAID_LUN_SEC_NUM\<close> to an aligned base address leaves LUN, page and block.
\<close>

definition lun_aligned :: "geo_ppa \<Rightarrow> bool" where
  "lun_aligned p \<longleftrightarrow> take_bit 7 p = 0"

lemma lun_aligned_add_or:
  assumes "lun_aligned b" and "unat i < 128"
  shows "b + i = b OR i"
proof (rule disjunctive_add_eq_or)
  have i: "take_bit 7 i = i"
    using assms(2) by (simp add: word_unat_eq_iff unsigned_take_bit_eq take_bit_nat_eq_self)
  show "b AND i = 0"
  proof (rule bit_word_eqI)
    fix n
    have "bit b n \<Longrightarrow> bit i n \<Longrightarrow> n < 7"
      using i by (metis bit_take_bit_iff)
    moreover have "n < 7 \<Longrightarrow> \<not> bit b n"
      using assms(1) unfolding lun_aligned_def by (metis bit_0_eq bit_take_bit_iff bot_apply bot_bool_def)
    ultimately show "bit (b AND i) n = bit 0 n"
      by (auto simp: bit_simps)
  qed
qed

lemma bf_get_small: "unat (i :: u32) < 2 ^ k \<Longrightarrow> bf_get k n i = 0"
proof -
  assume "unat i < 2 ^ k"
  then have "unat (drop_bit k i) = 0"
    by (metis unat_drop_bit_eq drop_bit_eq_div div_less)
  then have "drop_bit k i = 0"
    by (simp only: unat_eq_zero)
  then show ?thesis
    by (simp only: bf_get_def take_bit_of_0)
qed

lemma lun_aligned_add_fields:
  assumes "lun_aligned b" and "unat i < 128"
  shows "ppa_lun (b + i) = ppa_lun b" and "ppa_pg (b + i) = ppa_pg b"
    and "ppa_blk (b + i) = ppa_blk b" and "take_bit 7 (b + i) = i"
proof -
  have or: "b + i = b OR i"
    using assms by (rule lun_aligned_add_or)
  have z: "bf_get 7 3 i = 0" "bf_get 10 9 i = 0" "bf_get 19 12 i = 0"
    using assms(2) by (auto intro: bf_get_small)
  show "ppa_lun (b + i) = ppa_lun b" "ppa_pg (b + i) = ppa_pg b" "ppa_blk (b + i) = ppa_blk b"
    by (simp_all add: or ppa_get_defs bf_get_or z)
  have "take_bit 7 i = i"
    using assms(2) by (simp add: word_unat_eq_iff unsigned_take_bit_eq take_bit_nat_eq_self)
  then show "take_bit 7 (b + i) = i"
    using assms(1) by (simp add: or lun_aligned_def take_bit_or)
qed

end
