(* ===== verification/Linked_Fifo.thy ===== *)
theory Linked_Fifo
  imports FTL_Prelude
begin

text \<open>
  Index-linked FIFO queues. Three components keep queues of array elements linked by index, with
  \<open>0xffff\<close> as the end mark: the write cache (\<open>wcb-mngr.c\<close>), the raid-block pools
  (\<open>sys-meta.c\<close>) and the firmware's R-block lists (\<open>rblock_mgmt.c\<close>). \<open>link_store\<close> is what
  they rely on of their elements (a next and a prev link of some word width); its lemmas say what
  the pointer surgery of a push and of a pull does to the list a queue stands for.
  \<open>fifo_queue\<close> is the contract a client of such a queue uses.
\<close>

section \<open>The list a linked queue stands for\<close>

locale link_store =
  fixes nxt :: "'n \<Rightarrow> 'w::len word" and prv :: "'n \<Rightarrow> 'w word"
    and set_nxt :: "'w word \<Rightarrow> 'n \<Rightarrow> 'n" and set_prv :: "'w word \<Rightarrow> 'n \<Rightarrow> 'n"
    and nil :: "'w word"
  assumes nxt_set_nxt [simp]: "nxt (set_nxt v n) = v"
    and nxt_set_prv [simp]: "nxt (set_prv v n) = nxt n"
    and prv_set_prv [simp]: "prv (set_prv v n) = v"
    and prv_set_nxt [simp]: "prv (set_nxt v n) = prv n"
    and nil_def: "nil = 0xffff"
    and wide: "16 \<le> LENGTH('w)"
begin

definition link_of :: "nat list \<Rightarrow> nat \<Rightarrow> 'w word" where
  "link_of xs i = (if i < length xs then of_nat (xs ! i) else nil)"

text \<open>
  \<open>linked ns h t xs\<close>: in the store \<open>ns\<close>, head \<open>h\<close> and tail \<open>t\<close> delimit a queue of the
  elements \<open>xs\<close>, oldest first; \<open>prv\<close> leads towards the tail and \<open>nxt\<close> towards the head.
\<close>

definition linked :: "'n list \<Rightarrow> 'w word \<Rightarrow> 'w word \<Rightarrow> nat list \<Rightarrow> bool" where
  "linked ns h t xs \<longleftrightarrow>
     length ns \<le> 0xffff \<and> distinct xs \<and> (\<forall>x \<in> set xs. x < length ns) \<and>
     h = link_of xs 0 \<and> t = (if xs = [] then nil else of_nat (last xs)) \<and>
     (\<forall>i < length xs. prv (ns ! (xs ! i)) = link_of xs (Suc i)) \<and>
     (\<forall>i < length xs. nxt (ns ! (xs ! i)) = (if i = 0 then nil else of_nat (xs ! (i - 1))))"

definition push_nodes :: "'n list \<Rightarrow> 'w word \<Rightarrow> nat \<Rightarrow> 'n list" where
  "push_nodes ns t x =
     (if t = nil then ns[x := set_prv nil (set_nxt nil (ns ! x))]
      else let ns' = ns[x := set_prv nil (set_nxt t (ns ! x))]
           in ns'[unat t := set_prv (of_nat x) (ns' ! unat t)])"

definition pull_nodes :: "'n list \<Rightarrow> 'w word \<Rightarrow> 'w word \<Rightarrow> 'n list" where
  "pull_nodes ns h t =
     (if h = t then ns[unat h := set_prv nil (set_nxt nil (ns ! unat h))]
      else let p = unat (prv (ns ! unat h)); ns' = ns[p := set_nxt nil (ns ! p)]
           in ns'[unat h := set_prv nil (set_nxt nil (ns' ! unat h))])"

lemma of_nat_nil [simp]: "x < 0xffff \<Longrightarrow> (of_nat x :: 'w word) \<noteq> nil"
proof -
  assume x: "x < 0xffff"
  have "(2::nat) ^ 16 \<le> 2 ^ LENGTH('w)"
    using wide by (intro power_increasing) auto
  then have "(of_nat x :: 'w word) \<noteq> of_nat 0xffff"
    using x by (subst of_nat_word_inj) auto
  then show ?thesis
    by (simp add: nil_def)
qed

lemma unat_of_nat_node [simp]: "x < 0xffff \<Longrightarrow> unat (of_nat x :: 'w word) = x"
proof -
  assume "x < 0xffff"
  moreover have "(2::nat) ^ 16 \<le> 2 ^ LENGTH('w)"
    using wide by (intro power_increasing) auto
  ultimately show ?thesis
    by (intro unat_of_nat_small) simp
qed

lemma of_nat_node_eq [simp]:
  "x < 0xffff \<Longrightarrow> y < 0xffff \<Longrightarrow> (of_nat x :: 'w word) = of_nat y \<longleftrightarrow> x = y"
  by (metis unat_of_nat_node)

lemma linked_Nil [simp]: "linked ns h t [] \<longleftrightarrow> length ns \<le> 0xffff \<and> h = nil \<and> t = nil"
  by (auto simp: linked_def link_of_def)

lemma linked_bound: "linked ns h t xs \<Longrightarrow> x \<in> set xs \<Longrightarrow> x < length ns \<and> x < 0xffff"
  by (fastforce simp: linked_def)

lemma linked_distinct: "linked ns h t xs \<Longrightarrow> distinct xs"
  by (simp add: linked_def)

lemma linked_tail_nil: "linked ns h t xs \<Longrightarrow> t = nil \<longleftrightarrow> xs = []"
  using linked_bound [of ns h t xs "last xs"] by (auto simp: linked_def)

lemma linked_head_nil: "linked ns h t xs \<Longrightarrow> h = nil \<longleftrightarrow> xs = []"
  using linked_bound [of ns h t xs "hd xs"]
  by (cases xs) (auto simp: linked_def link_of_def)

text \<open>A queue only depends on the links of its own elements.\<close>

lemma linked_frame:
  assumes "linked ns h t xs" and "length ns' = length ns"
    and "\<And>x. x \<in> set xs \<Longrightarrow> nxt (ns' ! x) = nxt (ns ! x) \<and> prv (ns' ! x) = prv (ns ! x)"
  shows "linked ns' h t xs"
  using assms by (auto simp: linked_def)

end

context link_store
begin

lemma length_push_nodes [simp]: "length (push_nodes ns t x) = length ns"
  by (simp add: push_nodes_def Let_def)

lemma length_pull_nodes [simp]: "length (pull_nodes ns h t) = length ns"
  by (simp add: pull_nodes_def Let_def)

lemma push_nodes_other:
  "y \<noteq> x \<Longrightarrow> (t \<noteq> nil \<Longrightarrow> y \<noteq> unat t) \<Longrightarrow> push_nodes ns t x ! y = ns ! y"
  by (auto simp: push_nodes_def Let_def)

lemma pull_nodes_other:
  "y \<noteq> unat h \<Longrightarrow> (h \<noteq> t \<Longrightarrow> y \<noteq> unat (prv (ns ! unat h))) \<Longrightarrow> pull_nodes ns h t ! y = ns ! y"
  by (auto simp: pull_nodes_def Let_def)

lemma linked_push:
  assumes l: "linked ns h t xs" and x: "x < length ns" "x \<notin> set xs"
  shows "linked (push_nodes ns t x) (if t = nil then of_nat x else h) (of_nat x) (xs @ [x])"
proof (cases "xs = []")
  case True
  with l x show ?thesis
    by (auto simp: linked_def link_of_def push_nodes_def)
next
  case False
  define k where "k = length xs - 1"
  have k: "Suc k = length xs" "last xs = xs ! k"
    using False by (simp_all add: k_def last_conv_nth)
  have lt: "xs ! k < length ns" "xs ! k < 0xffff" "xs ! k \<noteq> x" "length ns \<le> 0xffff"
    using linked_bound [OF l, of "xs ! k"] l x k nth_mem [of k xs]
    by (auto simp: linked_def)
  have t: "t = of_nat (xs ! k)" "t \<noteq> nil" "unat t = xs ! k"
    using l False k lt by (auto simp: linked_def)
  have p: "push_nodes ns t x = (ns[x := set_prv nil (set_nxt t (ns ! x))])
      [xs ! k := set_prv (of_nat x) (ns ! (xs ! k))]"
    using t lt by (simp add: push_nodes_def Let_def)
  have d: "\<And>i. i < length xs \<Longrightarrow> xs ! i = xs ! k \<longleftrightarrow> i = k" "\<And>i. i < length xs \<Longrightarrow> xs ! i \<noteq> x"
    using linked_distinct [OF l] k x(2) by (auto simp: nth_eq_iff_index_eq)
  let ?ns = "push_nodes ns t x"
  have q: "prv (?ns ! (xs ! i)) = (if i = k then of_nat x else prv (ns ! (xs ! i)))"
      "nxt (?ns ! (xs ! i)) = nxt (ns ! (xs ! i))" if "i < length xs" for i
    unfolding p using d [OF that] that lt x(1) k by (auto simp: nth_list_update)
  have qx: "prv (?ns ! x) = nil" "nxt (?ns ! x) = of_nat (xs ! k)"
    unfolding p using lt x(1) t by (auto simp: nth_list_update)
  have "prv (?ns ! ((xs @ [x]) ! i)) = link_of (xs @ [x]) (Suc i)" if i: "i < Suc (length xs)" for i
  proof (cases "i < length xs")
    case True
    then show ?thesis
      using q(1) [OF True] l k by (auto simp: linked_def link_of_def nth_append)
  next
    case False
    with i qx(1) show ?thesis by (simp add: link_of_def nth_append)
  qed
  moreover have "nxt (?ns ! ((xs @ [x]) ! i)) = (if i = 0 then nil else of_nat ((xs @ [x]) ! (i - 1)))"
    if i: "i < Suc (length xs)" for i
  proof (cases "i < length xs")
    case True
    then show ?thesis
      using q(2) [OF True] l by (auto simp: linked_def nth_append)
  next
    case False
    then have ik: "i = Suc k" "i - 1 = k" "k < length xs" "i = length xs" using i k by simp_all
    have "(xs @ [x]) ! i = x" "(xs @ [x]) ! k = xs ! k"
      using ik by (simp_all add: nth_append)
    with ik(1,2) qx(2) show ?thesis by simp
  qed
  ultimately show ?thesis
    using l x t False by (auto simp: linked_def link_of_def nth_append)
qed

lemma linked_pull:
  assumes l: "linked ns h t (x # xs)"
  shows "h = of_nat x" "unat h = x" "x < length ns"
    and "h = t \<longleftrightarrow> xs = []"
    and "xs \<noteq> [] \<Longrightarrow> prv (ns ! x) = of_nat (hd xs) \<and> hd xs < length ns \<and> unat (prv (ns ! x)) = hd xs"
    and "linked (pull_nodes ns h t) (if h = t then nil else prv (ns ! x)) (if h = t then nil else t) xs"
proof -
  show h: "h = of_nat x" "unat h = x" and x: "x < length ns"
    using l linked_bound [OF l, of x] by (auto simp: linked_def link_of_def)
  have lst: "xs \<noteq> [] \<Longrightarrow> last xs \<in> set xs \<and> last xs \<noteq> x"
    using linked_distinct [OF l] by auto
  show ht: "h = t \<longleftrightarrow> xs = []"
    using l h lst linked_bound [OF l] by (auto simp: linked_def)
  show prv: "xs \<noteq> [] \<Longrightarrow> prv (ns ! x) = of_nat (hd xs) \<and> hd xs < length ns \<and> unat (prv (ns ! x)) = hd xs"
    using l linked_bound [OF l, of "hd xs"]
    by (cases xs) (auto simp: linked_def link_of_def)
  show "linked (pull_nodes ns h t) (if h = t then nil else prv (ns ! x)) (if h = t then nil else t) xs"
  proof (cases xs)
    case Nil
    with ht l show ?thesis by (simp add: linked_def link_of_def)
  next
    case (Cons y ys)
    have y: "y < length ns" "y < 0xffff" "y \<noteq> x" "prv (ns ! x) = of_nat y"
      using prv Cons linked_bound [OF l, of y] linked_distinct [OF l] by auto
    have p: "pull_nodes ns h t = (ns[y := set_nxt nil (ns ! y)])[x := set_prv nil (set_nxt nil (ns ! x))]"
      using ht Cons h y x by (simp add: pull_nodes_def Let_def)
    have d: "\<And>i. i < length ys \<Longrightarrow> ys ! i \<noteq> x \<and> ys ! i \<noteq> y"
      using linked_distinct [OF l] Cons by auto
    have pr: "\<And>i. i < length xs \<Longrightarrow> prv (ns ! (xs ! i)) = link_of xs (Suc i)"
    proof -
      fix i assume "i < length xs"
      then have "prv (ns ! ((x # xs) ! Suc i)) = link_of (x # xs) (Suc (Suc i))"
        using l unfolding linked_def by (metis Suc_less_eq length_Cons)
      then show "prv (ns ! (xs ! i)) = link_of xs (Suc i)"
        by (simp add: link_of_def)
    qed
    have nx: "\<And>i. i < length ys \<Longrightarrow> nxt (ns ! (ys ! i)) = of_nat ((y # ys) ! i)"
    proof -
      fix i assume "i < length ys"
      then have "Suc (Suc i) < length (x # xs)"
        using Cons by simp
      then have "nxt (ns ! ((x # xs) ! Suc (Suc i))) = of_nat ((x # xs) ! Suc i)"
        using l unfolding linked_def by fastforce
      then show "nxt (ns ! (ys ! i)) = of_nat ((y # ys) ! i)"
        using Cons by simp
    qed
    have pr': "prv (ns ! (ys ! i)) = link_of xs (Suc (Suc i))" if "i < length ys" for i
      using pr [of "Suc i"] that Cons by simp
    show ?thesis
      using l y d ht pr [of 0] pr' nx unfolding p Cons
      by (auto simp: linked_def link_of_def nth_list_update nth_Cons split: nat.splits)
  qed
qed

lemma pull_keeps_other:
  assumes "linked ns h t (x # xs)" and "linked ns h' t' ys" and "set (x # xs) \<inter> set ys = {}"
  shows "linked (pull_nodes ns h t) h' t' ys"
proof (rule linked_frame [OF assms(2)])
  fix y assume "y \<in> set ys"
  then have "y \<noteq> unat h" and "h \<noteq> t \<Longrightarrow> y \<noteq> unat (prv (ns ! unat h))"
    using assms(3) linked_pull(2,4,5) [OF assms(1)] by (auto dest: hd_in_set)
  then show "nxt (pull_nodes ns h t ! y) = nxt (ns ! y) \<and> prv (pull_nodes ns h t ! y) = prv (ns ! y)"
    by (simp add: pull_nodes_other)
qed simp

lemma push_keeps_other:
  assumes "linked ns h t xs" and "linked ns h' t' ys" and "set xs \<inter> set ys = {}" and "x \<notin> set ys"
  shows "linked (push_nodes ns t x) h' t' ys"
proof (rule linked_frame [OF assms(2)])
  fix y assume "y \<in> set ys"
  moreover have "t \<noteq> nil \<Longrightarrow> unat t \<in> set xs"
    using assms(1) linked_bound [OF assms(1), of "last xs"] by (auto simp: linked_def split: if_splits)
  ultimately have "y \<noteq> x" and "t \<noteq> nil \<Longrightarrow> y \<noteq> unat t"
    using assms(3,4) by auto
  then show "nxt (push_nodes ns t x ! y) = nxt (ns ! y) \<and> prv (push_nodes ns t x ! y) = prv (ns ! y)"
    by (simp add: push_nodes_other)
qed simp

end

section \<open>The contract of a queue\<close>

text \<open>
  What a client may rely on: a push that finds its element outside the queue succeeds and appends
  it, a pull of a non-empty queue succeeds and returns the oldest element, a pull of an empty queue
  reports it and changes nothing.
\<close>

locale fifo_queue =
  fixes rep :: "'s \<Rightarrow> nat list \<Rightarrow> bool"
    and can_push :: "'s \<Rightarrow> nat \<Rightarrow> bool"
    and push :: "'s \<Rightarrow> nat \<Rightarrow> 's option"
    and pull :: "'s \<Rightarrow> (nat option \<times> 's) option"
  assumes push_ok: "rep s xs \<Longrightarrow> can_push s x \<Longrightarrow> x \<notin> set xs \<Longrightarrow>
      \<exists>s'. push s x = Some s' \<and> rep s' (xs @ [x]) \<and> (\<forall>y. can_push s' y = can_push s y)"
    and pull_nil: "rep s [] \<Longrightarrow> pull s = Some (None, s)"
    and pull_ok: "rep s (x # xs) \<Longrightarrow>
      \<exists>s'. pull s = Some (Some x, s') \<and> rep s' xs \<and> (\<forall>y. can_push s' y = can_push s y)"
begin

fun push_all :: "'s \<Rightarrow> nat list \<Rightarrow> 's option" where
  "push_all s [] = Some s"
| "push_all s (x # xs) = Option.bind (push s x) (\<lambda>s'. push_all s' xs)"

fun pull_n :: "nat \<Rightarrow> 's \<Rightarrow> (nat list \<times> 's) option" where
  "pull_n 0 s = Some ([], s)"
| "pull_n (Suc n) s = Option.bind (pull s) (\<lambda>(r, s'). case r of None \<Rightarrow> Some ([], s')
     | Some x \<Rightarrow> map_option (map_prod ((#) x) id) (pull_n n s'))"

lemma push_all_ok:
  "rep s xs \<Longrightarrow> distinct (xs @ ys) \<Longrightarrow> \<forall>y \<in> set ys. can_push s y \<Longrightarrow>
   \<exists>s'. push_all s ys = Some s' \<and> rep s' (xs @ ys)"
proof (induction ys arbitrary: s xs)
  case Nil
  then show ?case by simp
next
  case (Cons y ys)
  then obtain s1 where s1: "push s y = Some s1" "rep s1 (xs @ [y])" "\<forall>z. can_push s1 z = can_push s z"
    using push_ok [of s xs y] by auto
  with Cons.IH [of s1 "xs @ [y]"] Cons.prems show ?case
    by auto
qed

lemma pull_n_ok: "rep s (xs @ ys) \<Longrightarrow> \<exists>s'. pull_n (length xs) s = Some (xs, s') \<and> rep s' ys"
proof (induction xs arbitrary: s)
  case Nil
  then show ?case by simp
next
  case (Cons x xs)
  then obtain s1 where s1: "pull s = Some (Some x, s1)" "rep s1 (xs @ ys)"
    using pull_ok [of s x "xs @ ys"] by auto
  from Cons.IH [OF s1(2)] s1(1) show ?case
    by auto
qed

text \<open>First in, first out: what is pushed onto an empty queue is pulled in the same order.\<close>

lemma fifo_order:
  assumes "rep s []" and "distinct xs" and "\<forall>x \<in> set xs. can_push s x"
  shows "\<exists>s' s''. push_all s xs = Some s' \<and> pull_n (length xs) s' = Some (xs, s'') \<and> rep s'' []"
proof -
  from push_all_ok [OF assms(1), of xs] assms obtain s' where s': "push_all s xs = Some s'" "rep s' xs"
    by auto
  with pull_n_ok [of s' xs "[]"] show ?thesis by auto
qed

end

end
