(* ===== verification/Sys_Meta.thy ===== *)
theory Sys_Meta
  imports Flash_Cfg Linked_Fifo
begin

text \<open>
  System metadata of the host FTL, \<open>systbl/sys-meta.c\<close> and \<open>systbl/sys-meta.h\<close>: the block
  management table (\<open>bmitbl\<close>) with its bad-block bits and pool links, the raid-block pools of
  \<open>sys_status_tbl\<close>, the valid-page counters (\<open>vpctbl\<close>) and the logical-to-physical table.
  The pools are instances of the linked queue of \<open>Linked_Fifo\<close>.
\<close>

section \<open>Data\<close>

text \<open>\<open>struct fsc_fifo\<close> of \<open>wcb-mngr.h\<close>, shared by the pools and the write cache.\<close>

record fsc_fifo =
  fifo_head :: u32
  fifo_tail :: u32
  fifo_size :: u32

definition fsc_fifo_init :: fsc_fifo where
  "fsc_fifo_init = \<lparr>fifo_head = 0xffff, fifo_tail = 0xffff, fifo_size = 0\<rparr>"

datatype PPA_TYPE = USR_DATA | DUMMY_DATA | BAD_BLK | XOR_PARITY | FIRST_LOG | FTL_LOG

datatype raidblk_status =
  RAID_BLK_FREE | RAID_BLK_OPEN | RAID_BLK_CLOSED | RAID_BLK_TOGC | RAID_BLK_GCING

datatype badb_status = GOODB | BADB

record sys_status_tbl =
  free_blk_pool :: fsc_fifo
  closed_blk_pool :: fsc_fifo
  gc_blk_pool :: fsc_fifo

record bmi_item =
  bmi_sequence :: u32
  bmi_pecycle :: u32
  bmi_blknum :: u16
  bmi_flag_bitmap :: u16
  bmi_bbt :: "u16 list"
  bmi_write_err :: "u16 list"
  bmi_read_uecc :: "u16 list"
  bmi_rdcount :: u16
  bmi_bmstate :: raidblk_status
  bmi_cmpl_lun :: u32
  bmi_prev :: u32
  bmi_next :: u32

text \<open>The tables reached through the global pointers \<open>statetbl\<close>, \<open>bmitbl\<close> and \<open>vpctbl\<close>.\<close>

record sysmeta =
  statetbl :: sys_status_tbl
  bmitbl :: "bmi_item list"
  vpctbl :: "u32 list"

section \<open>Operations\<close>

text \<open>The parameter is a \<open>u16\<close>, so every caller truncates; a block out of range hits \<open>BUG_ON\<close>.\<close>

definition get_bmi_item :: "bmi_item list \<Rightarrow> u16 \<Rightarrow> bmi_item option" where
  "get_bmi_item tbl blk = do {
     guard (unat blk < CFG_NAND_BLOCK_NUM);
     aget tbl (unat blk)
   }"

definition put_bmi_item :: "bmi_item list \<Rightarrow> u16 \<Rightarrow> bmi_item \<Rightarrow> bmi_item list option" where
  "put_bmi_item tbl blk b = aset tbl (unat blk) b"

definition mark_bbt_tbl :: "bmi_item list \<Rightarrow> u32 \<Rightarrow> u32 \<Rightarrow> u32 \<Rightarrow> badb_status \<Rightarrow> bmi_item list option" where
  "mark_bbt_tbl tbl blk lun ch status = do {
     bmi \<leftarrow> get_bmi_item tbl (ucast blk);
     b \<leftarrow> aget (bmi_bbt bmi) (unat lun);
     bbt \<leftarrow> aset (bmi_bbt bmi) (unat lun)
       (if status = BADB then BIT_SET b (unat ch) else BIT_CLEAR b (unat ch));
     put_bmi_item tbl (ucast blk) (bmi\<lparr>bmi_bbt := bbt\<rparr>)
   }"

definition is_ppa_badblock :: "bmi_item list \<Rightarrow> geo_ppa \<Rightarrow> bool option" where
  "is_ppa_badblock tbl p = do {
     bmi \<leftarrow> get_bmi_item tbl (ucast (ppa_blk p));
     bbt \<leftarrow> aget (bmi_bbt bmi) (unat (ppa_lun p));
     Some (BIT_TEST bbt (unat (ppa_ch p)))
   }"

definition is_ppa_firstpage :: "geo_ppa \<Rightarrow> bool" where
  "is_ppa_firstpage p \<longleftrightarrow> ppa_sec p = 0 \<and> ppa_pl p = 0 \<and> ppa_lun p = 0 \<and> ppa_pg p = 0"

text \<open>Every type test of the source is commented out: all addresses carry user data.\<close>

definition sys_get_ppa_type :: "geo_ppa \<Rightarrow> PPA_TYPE" where
  "sys_get_ppa_type p = USR_DATA"

definition pull_blk_from_pool :: "bmi_item list \<Rightarrow> fsc_fifo \<Rightarrow> (u32 \<times> bmi_item list \<times> fsc_fifo) option" where
  "pull_blk_from_pool tbl fifo = (let old_head = fifo_head fifo in
     if old_head = 0xffff then Some (0xffff, tbl, fifo)
     else do {
       bmi \<leftarrow> get_bmi_item tbl (ucast old_head);
       (tbl, fifo) \<leftarrow>
         (if fifo_head fifo = fifo_tail fifo
          then Some (tbl, fifo\<lparr>fifo_head := 0xffff, fifo_tail := 0xffff\<rparr>)
          else do {
            nhbmi \<leftarrow> get_bmi_item tbl (ucast (bmi_prev bmi));
            tbl' \<leftarrow> put_bmi_item tbl (ucast (bmi_prev bmi)) (nhbmi\<lparr>bmi_next := 0xffff\<rparr>);
            bmi' \<leftarrow> get_bmi_item tbl' (ucast old_head);
            Some (tbl', fifo\<lparr>fifo_head := bmi_prev bmi'\<rparr>)
          });
       bmi \<leftarrow> get_bmi_item tbl (ucast old_head);
       tbl \<leftarrow> put_bmi_item tbl (ucast old_head) (bmi\<lparr>bmi_next := 0xffff, bmi_prev := 0xffff\<rparr>);
       Some (old_head, tbl, fifo\<lparr>fifo_size := fifo_size fifo - 1\<rparr>)
     })"

definition push_blk_to_pool :: "bmi_item list \<Rightarrow> fsc_fifo \<Rightarrow> u32 \<Rightarrow> (bmi_item list \<times> fsc_fifo) option" where
  "push_blk_to_pool tbl fifo blk = (let old_tail = fifo_tail fifo in do {
     bmi \<leftarrow> get_bmi_item tbl (ucast blk);
     (tbl, fifo) \<leftarrow>
       (if old_tail = 0xffff then do {
          tbl \<leftarrow> put_bmi_item tbl (ucast blk) (bmi\<lparr>bmi_next := 0xffff, bmi_prev := 0xffff\<rparr>);
          Some (tbl, fifo\<lparr>fifo_head := blk, fifo_tail := blk\<rparr>)
        } else do {
          tbl \<leftarrow> put_bmi_item tbl (ucast blk) (bmi\<lparr>bmi_next := old_tail, bmi_prev := 0xffff\<rparr>);
          ntbmi \<leftarrow> get_bmi_item tbl (ucast old_tail);
          tbl \<leftarrow> put_bmi_item tbl (ucast old_tail) (ntbmi\<lparr>bmi_prev := blk\<rparr>);
          Some (tbl, fifo\<lparr>fifo_tail := blk\<rparr>)
        });
     Some (tbl, fifo\<lparr>fifo_size := fifo_size fifo + 1\<rparr>)
   })"

definition get_blk_from_free_list :: "sysmeta \<Rightarrow> (u32 \<times> sysmeta) option" where
  "get_blk_from_free_list m = do {
     (blk, tbl, fifo) \<leftarrow> pull_blk_from_pool (bmitbl m) (free_blk_pool (statetbl m));
     let m = m\<lparr>bmitbl := tbl, statetbl := (statetbl m)\<lparr>free_blk_pool := fifo\<rparr>\<rparr>;
     if blk = 0xffff then Some (0, m)
     else do {
       bmi \<leftarrow> get_bmi_item tbl (ucast blk);
       tbl \<leftarrow> put_bmi_item tbl (ucast blk) (bmi\<lparr>bmi_bmstate := RAID_BLK_OPEN\<rparr>);
       Some (blk, m\<lparr>bmitbl := tbl\<rparr>)
     }
   }"

definition insert_blk_to_free_list :: "sysmeta \<Rightarrow> u32 \<Rightarrow> sysmeta option" where
  "insert_blk_to_free_list m blk = do {
     (tbl, fifo) \<leftarrow> push_blk_to_pool (bmitbl m) (free_blk_pool (statetbl m)) blk;
     bmi \<leftarrow> get_bmi_item tbl (ucast blk);
     tbl \<leftarrow> put_bmi_item tbl (ucast blk) (bmi\<lparr>bmi_bmstate := RAID_BLK_FREE\<rparr>);
     Some (m\<lparr>bmitbl := tbl, statetbl := (statetbl m)\<lparr>free_blk_pool := fifo\<rparr>\<rparr>)
   }"

definition vpc_dec :: "u32 list \<Rightarrow> geo_ppa \<Rightarrow> u32 list option" where
  "vpc_dec vpc p = do {
     guard (unat (ppa_blk p) < CFG_NAND_BLOCK_NUM);
     amod vpc (unat (ppa_blk p)) (\<lambda>c. c - 1)
   }"

definition vpc_inc :: "u32 list \<Rightarrow> geo_ppa \<Rightarrow> u32 list option" where
  "vpc_inc vpc p = do {
     guard (unat (ppa_blk p) < CFG_NAND_BLOCK_NUM);
     amod vpc (unat (ppa_blk p)) (\<lambda>c. c + 1)
   }"

text \<open>
  The tables as their \<open>_init\<close> functions fill them: \<open>kzalloc\<close> and \<open>vzalloc\<close> clear the
  memory, the loop of \<open>bmitbl_init\<close> numbers the blocks and clears the links, \<open>l2ptbl_init\<close>
  fills the table with \<open>INVALID_PAGE\<close> bytes. Whether an allocation succeeds is an argument of
  the \<open>_init\<close> function.
\<close>

definition ENOMEM :: int where [simp]: "ENOMEM = 12"

definition statetbl_initial :: sys_status_tbl where
  "statetbl_initial = \<lparr>free_blk_pool = fsc_fifo_init, closed_blk_pool = fsc_fifo_init,
     gc_blk_pool = fsc_fifo_init\<rparr>"

definition statetbl_init :: "bool \<Rightarrow> int \<times> sys_status_tbl option" where
  "statetbl_init kzalloc = (if \<not> kzalloc then (- ENOMEM, None) else (0, Some statetbl_initial))"

definition bmi_zero :: bmi_item where
  "bmi_zero = \<lparr>bmi_sequence = 0, bmi_pecycle = 0, bmi_blknum = 0, bmi_flag_bitmap = 0,
     bmi_bbt = replicate CFG_NAND_LUN_NUM 0, bmi_write_err = replicate CFG_NAND_LUN_NUM 0,
     bmi_read_uecc = replicate CFG_NAND_LUN_NUM 0, bmi_rdcount = 0, bmi_bmstate = RAID_BLK_FREE,
     bmi_cmpl_lun = 0, bmi_prev = 0, bmi_next = 0\<rparr>"

definition bmitbl_initial :: "bmi_item list" where
  "bmitbl_initial = map (\<lambda>blk. bmi_zero\<lparr>bmi_blknum := of_nat blk, bmi_next := 0xffff, bmi_prev := 0xffff\<rparr>)
     [0..<CFG_NAND_BLOCK_NUM]"

definition bmitbl_init :: "bool \<Rightarrow> int \<times> bmi_item list option" where
  "bmitbl_init vzalloc = (if \<not> vzalloc then (- ENOMEM, None) else (0, Some bmitbl_initial))"

definition vpctbl_initial :: "u32 list" where
  "vpctbl_initial = replicate (VPCTBL_SEC_NUM * EXP_PPA_SIZE div 4) 0"

definition vpctbl_init :: "bool \<Rightarrow> int \<times> u32 list option" where
  "vpctbl_init kzalloc = (if \<not> kzalloc then (- ENOMEM, None) else (0, Some vpctbl_initial))"

definition l2ptbl_initial :: "u32 \<Rightarrow> u32" where
  "l2ptbl_initial = (\<lambda>_. INVALID_PAGE)"

text \<open>The second allocation is the L1 table; when it fails the first one is released.\<close>

definition l2ptbl_init :: "bool \<Rightarrow> bool \<Rightarrow> int \<times> (u32 \<Rightarrow> u32) option" where
  "l2ptbl_init vmalloc kzalloc =
     (if \<not> vmalloc then (- ENOMEM, None) else if \<not> kzalloc then (- ENOMEM, None)
      else (0, Some l2ptbl_initial))"

definition sysmeta_initial :: sysmeta where
  "sysmeta_initial = \<lparr>statetbl = statetbl_initial, bmitbl = bmitbl_initial, vpctbl = vpctbl_initial\<rparr>"

section \<open>The pools as linked queues\<close>

interpretation bl: link_store bmi_next bmi_prev "\<lambda>v. bmi_next_update (\<lambda>_. v)"
    "\<lambda>v. bmi_prev_update (\<lambda>_. v)" "0xffff :: u32"
  by unfold_locales simp_all

definition pool_rep :: "bmi_item list \<times> fsc_fifo \<Rightarrow> nat list \<Rightarrow> bool" where
  "pool_rep = (\<lambda>(tbl, fifo) xs. length tbl = CFG_NAND_BLOCK_NUM \<and>
     bl.linked tbl (fifo_head fifo) (fifo_tail fifo) xs \<and> fifo_size fifo = of_nat (length xs))"

lemma ucast_node: "x < 0xffff \<Longrightarrow> unat (ucast (of_nat x :: u32) :: u16) = x"
  by (simp add: unsigned_ucast_eq unsigned_of_nat take_bit_nat_eq_self)

lemma get_bmi_in: "length tbl = CFG_NAND_BLOCK_NUM \<Longrightarrow> unat b < CFG_NAND_BLOCK_NUM \<Longrightarrow>
    get_bmi_item tbl b = Some (tbl ! unat b)"
  by (simp add: get_bmi_item_def)

lemma put_bmi_in: "length tbl = CFG_NAND_BLOCK_NUM \<Longrightarrow> unat b < CFG_NAND_BLOCK_NUM \<Longrightarrow>
    put_bmi_item tbl b v = Some (tbl[unat b := v])"
  by (simp add: put_bmi_item_def)

lemma push_blk_nodes:
  assumes "length tbl = CFG_NAND_BLOCK_NUM" and "x < CFG_NAND_BLOCK_NUM"
    and "fifo_tail f \<noteq> 0xffff \<Longrightarrow> \<exists>y < CFG_NAND_BLOCK_NUM. fifo_tail f = of_nat y"
  shows "push_blk_to_pool tbl f (of_nat x) =
    Some (bl.push_nodes tbl (fifo_tail f) x,
      \<lparr>fifo_head = (if fifo_tail f = 0xffff then of_nat x else fifo_head f),
       fifo_tail = of_nat x, fifo_size = fifo_size f + 1\<rparr>)"
proof (cases "fifo_tail f = 0xffff")
  case True
  with assms(1,2) show ?thesis
    by (simp add: push_blk_to_pool_def bl.push_nodes_def get_bmi_in put_bmi_in ucast_node)
next
  case False
  with assms(3) obtain y where "y < CFG_NAND_BLOCK_NUM" "fifo_tail f = of_nat y" by blast
  with False assms(1,2) show ?thesis
    by (simp add: push_blk_to_pool_def bl.push_nodes_def get_bmi_in put_bmi_in ucast_node Let_def)
qed

lemma pull_blk_nodes:
  assumes "length tbl = CFG_NAND_BLOCK_NUM" and "x < CFG_NAND_BLOCK_NUM" and "fifo_head f = of_nat x"
    and "fifo_head f \<noteq> fifo_tail f \<Longrightarrow> \<exists>y < CFG_NAND_BLOCK_NUM. y \<noteq> x \<and> bmi_prev (tbl ! x) = of_nat y"
  shows "pull_blk_from_pool tbl f =
    Some (of_nat x, bl.pull_nodes tbl (fifo_head f) (fifo_tail f),
      \<lparr>fifo_head = (if fifo_head f = fifo_tail f then 0xffff else bmi_prev (tbl ! x)),
       fifo_tail = (if fifo_head f = fifo_tail f then 0xffff else fifo_tail f),
       fifo_size = fifo_size f - 1\<rparr>)"
proof -
  have x: "(of_nat x :: u32) \<noteq> 0xffff" "unat (ucast (of_nat x :: u32) :: u16) = x" "unat (of_nat x :: u32) = x"
    using bl.of_nat_nil [of x] assms(2) by (simp_all add: ucast_node)
  show ?thesis
  proof (cases "fifo_head f = fifo_tail f")
    case True
    with assms(1,2,3) x show ?thesis
      by (simp add: pull_blk_from_pool_def bl.pull_nodes_def get_bmi_in put_bmi_in)
  next
    case False
    with assms(4) obtain y where "y < CFG_NAND_BLOCK_NUM" "y \<noteq> x" "bmi_prev (tbl ! x) = of_nat y" by blast
    moreover from this have "unat (ucast (of_nat y :: u32) :: u16) = y" "unat (of_nat y :: u32) = y"
      by (simp_all add: ucast_node)
    ultimately show ?thesis
      using False assms(1,2,3) x
      by (simp add: pull_blk_from_pool_def bl.pull_nodes_def get_bmi_in put_bmi_in Let_def)
  qed
qed

lemma pool_rep_length: "pool_rep (tbl, f) xs \<Longrightarrow> length tbl = CFG_NAND_BLOCK_NUM"
  by (simp add: pool_rep_def)

lemma pool_push:
  assumes "pool_rep (tbl, f) xs" and "x < CFG_NAND_BLOCK_NUM" and "x \<notin> set xs"
  shows "\<exists>f'. push_blk_to_pool tbl f (of_nat x) = Some (bl.push_nodes tbl (fifo_tail f) x, f') \<and>
    pool_rep (bl.push_nodes tbl (fifo_tail f) x, f') (xs @ [x])"
proof -
  have l: "bl.linked tbl (fifo_head f) (fifo_tail f) xs" and len: "length tbl = CFG_NAND_BLOCK_NUM"
    using assms(1) by (simp_all add: pool_rep_def)
  have t: "fifo_tail f \<noteq> 0xffff \<Longrightarrow> \<exists>y < CFG_NAND_BLOCK_NUM. fifo_tail f = of_nat y"
    using l len bl.linked_tail_nil [OF l] bl.linked_bound [OF l, of "last xs"] by (auto simp: bl.linked_def)
  show ?thesis
    using push_blk_nodes [OF len assms(2) t] bl.linked_push [OF l] assms len
    by (simp add: pool_rep_def)
qed

lemma pool_pull:
  assumes "pool_rep (tbl, f) (x # xs)"
  shows "\<exists>f'. pull_blk_from_pool tbl f =
      Some (of_nat x, bl.pull_nodes tbl (fifo_head f) (fifo_tail f), f') \<and>
    pool_rep (bl.pull_nodes tbl (fifo_head f) (fifo_tail f), f') xs"
proof -
  have l: "bl.linked tbl (fifo_head f) (fifo_tail f) (x # xs)" and len: "length tbl = CFG_NAND_BLOCK_NUM"
    using assms(1) by (simp_all add: pool_rep_def)
  note q = bl.linked_pull [OF l]
  have "\<exists>y < CFG_NAND_BLOCK_NUM. y \<noteq> x \<and> bmi_prev (tbl ! x) = of_nat y" if "fifo_head f \<noteq> fifo_tail f"
    using q(4,5) that len bl.linked_distinct [OF l] by (metis distinct.simps(2) hd_in_set)
  then show ?thesis
    using pull_blk_nodes [OF len _ q(1)] q(3,6) len assms by (simp add: pool_rep_def)
qed

lemma pool_pull_nil: "pool_rep (tbl, f) [] \<Longrightarrow> pull_blk_from_pool tbl f = Some (0xffff, tbl, f)"
  by (simp add: pool_rep_def pull_blk_from_pool_def)

definition pool_push_op :: "bmi_item list \<times> fsc_fifo \<Rightarrow> nat \<Rightarrow> (bmi_item list \<times> fsc_fifo) option" where
  "pool_push_op = (\<lambda>(tbl, f) x. push_blk_to_pool tbl f (of_nat x))"

definition pool_pull_op :: "bmi_item list \<times> fsc_fifo \<Rightarrow> (nat option \<times> bmi_item list \<times> fsc_fifo) option" where
  "pool_pull_op = (\<lambda>(tbl, f). do {
     (b, tbl', f') \<leftarrow> pull_blk_from_pool tbl f;
     Some (if b = 0xffff then None else Some (unat b), tbl', f')
   })"

interpretation pq: fifo_queue pool_rep "\<lambda>_ x. x < CFG_NAND_BLOCK_NUM" pool_push_op pool_pull_op
proof (unfold_locales, goal_cases)
  case (1 s xs x)
  then show ?case
    using pool_push [of "fst s" "snd s" xs x] by (cases s) (auto simp: pool_push_op_def)
next
  case (2 s)
  then show ?case
    using pool_pull_nil [of "fst s" "snd s"] by (cases s) (simp add: pool_pull_op_def)
next
  case (3 s x xs)
  moreover have "x < 0xffff"
    using 3 bl.linked_bound [of _ _ _ "x # xs" x] by (cases s) (auto simp: pool_rep_def)
  moreover from this have "(of_nat x :: u32) \<noteq> 0xffff" "unat (of_nat x :: u32) = x"
    using bl.of_nat_nil [of x] by simp_all
  ultimately show ?case
    using pool_pull [of "fst s" "snd s" x xs] by (cases s) (auto simp: pool_pull_op_def)
qed

section \<open>Taking and returning raid blocks\<close>

lemma pool_rep_bmstate [simp]:
  "i < length tbl \<Longrightarrow> pool_rep (tbl[i := (tbl ! i)\<lparr>bmi_bmstate := st\<rparr>], f) xs = pool_rep (tbl, f) xs"
proof -
  assume i: "i < length tbl"
  have k: "bl.linked (tbl[i := (tbl ! i)\<lparr>bmi_bmstate := st\<rparr>]) h t xs \<longleftrightarrow> bl.linked tbl h t xs" for h t
    using i by (auto simp: bl.linked_def nth_list_update)
  show ?thesis
    by (simp add: pool_rep_def k)
qed

abbreviation free_pool :: "sysmeta \<Rightarrow> bmi_item list \<times> fsc_fifo" where
  "free_pool m \<equiv> (bmitbl m, free_blk_pool (statetbl m))"

lemma get_blk_from_free_list_nil: "pool_rep (free_pool m) [] \<Longrightarrow> get_blk_from_free_list m = Some (0, m)"
  by (simp add: get_blk_from_free_list_def pool_pull_nil)

lemma get_blk_from_free_list_Cons:
  assumes "pool_rep (free_pool m) (x # xs)"
  shows "\<exists>m'. get_blk_from_free_list m = Some (of_nat x, m') \<and> pool_rep (free_pool m') xs \<and>
    vpctbl m' = vpctbl m \<and> bmi_bmstate (bmitbl m' ! x) = RAID_BLK_OPEN \<and> x < CFG_NAND_BLOCK_NUM"
proof -
  let ?tbl = "bl.pull_nodes (bmitbl m) (fifo_head (free_blk_pool (statetbl m)))
        (fifo_tail (free_blk_pool (statetbl m)))"
  obtain f' where p: "pull_blk_from_pool (bmitbl m) (free_blk_pool (statetbl m)) =
      Some (of_nat x, ?tbl, f')"
    and r: "pool_rep (?tbl, f') xs"
    using pool_pull [OF assms] by blast
  have x: "x < CFG_NAND_BLOCK_NUM"
    using assms bl.linked_bound [of "bmitbl m" _ _ "x # xs" x] by (fastforce simp: pool_rep_def)
  have n: "(of_nat x :: u32) \<noteq> 0xffff" "unat (ucast (of_nat x :: u32) :: u16) = x"
    using x bl.of_nat_nil [of x] by (simp_all add: ucast_node)
  have len: "length ?tbl = CFG_NAND_BLOCK_NUM"
    using r by (rule pool_rep_length)
  show ?thesis
    using x n r len by (simp add: get_blk_from_free_list_def p get_bmi_in put_bmi_in)
qed

lemma insert_blk_to_free_list_ok:
  assumes "pool_rep (free_pool m) xs" and "x < CFG_NAND_BLOCK_NUM" and "x \<notin> set xs"
  shows "\<exists>m'. insert_blk_to_free_list m (of_nat x) = Some m' \<and> pool_rep (free_pool m') (xs @ [x]) \<and>
    vpctbl m' = vpctbl m \<and> bmi_bmstate (bmitbl m' ! x) = RAID_BLK_FREE"
proof -
  let ?tbl = "bl.push_nodes (bmitbl m) (fifo_tail (free_blk_pool (statetbl m))) x"
  obtain f' where p: "push_blk_to_pool (bmitbl m) (free_blk_pool (statetbl m)) (of_nat x) = Some (?tbl, f')"
    and r: "pool_rep (?tbl, f') (xs @ [x])"
    using pool_push [OF assms] by blast
  have n: "unat (ucast (of_nat x :: u32) :: u16) = x"
    using assms(2) by (simp add: ucast_node)
  have len: "length ?tbl = CFG_NAND_BLOCK_NUM"
    using r by (rule pool_rep_length)
  show ?thesis
    using assms(2) n r len by (simp add: insert_blk_to_free_list_def p get_bmi_in put_bmi_in)
qed

lemma pool_rep_init: "pool_rep (free_pool sysmeta_initial) []"
  by (simp add: pool_rep_def sysmeta_initial_def statetbl_initial_def fsc_fifo_init_def bmitbl_initial_def)

section \<open>The free list as a queue of blocks\<close>

definition free_take :: "sysmeta \<Rightarrow> (nat option \<times> sysmeta) option" where
  "free_take m = (if fifo_head (free_blk_pool (statetbl m)) = 0xffff then Some (None, m)
     else do { (b, m) \<leftarrow> get_blk_from_free_list m; Some (Some (unat b), m) })"

interpretation fl: fifo_queue "\<lambda>m. pool_rep (free_pool m)" "\<lambda>_ x. x < CFG_NAND_BLOCK_NUM"
    "\<lambda>m x. insert_blk_to_free_list m (of_nat x)" free_take
proof (unfold_locales, goal_cases)
  case (1 m xs x)
  then show ?case
    using insert_blk_to_free_list_ok [of m xs x] by auto
next
  case (2 m)
  then show ?case
    by (simp add: free_take_def pool_rep_def)
next
  case (3 m x xs)
  then have "bl.linked (bmitbl m) (fifo_head (free_blk_pool (statetbl m))) (fifo_tail (free_blk_pool (statetbl m))) (x # xs)"
    by (simp add: pool_rep_def)
  from bl.linked_head_nil [OF this] get_blk_from_free_list_Cons [OF 3] show ?case
    by (auto simp: free_take_def unsigned_of_nat take_bit_nat_eq_self)
qed

fun insert_blks :: "sysmeta \<Rightarrow> nat list \<Rightarrow> sysmeta option" where
  "insert_blks m [] = Some m"
| "insert_blks m (x # xs) = do { m \<leftarrow> insert_blk_to_free_list m (of_nat x); insert_blks m xs }"

fun get_blks :: "nat \<Rightarrow> sysmeta \<Rightarrow> (u32 list \<times> sysmeta) option" where
  "get_blks 0 m = Some ([], m)"
| "get_blks (Suc n) m = do {
     (b, m) \<leftarrow> get_blk_from_free_list m;
     (bs, m) \<leftarrow> get_blks n m;
     Some (b # bs, m)
   }"

lemma insert_blks_push_all: "insert_blks m xs = fl.push_all m xs"
  by (induction xs arbitrary: m) simp_all

lemma get_blks_ok:
  "pool_rep (free_pool m) (xs @ ys) \<Longrightarrow>
   \<exists>m'. get_blks (length xs) m = Some (map of_nat xs, m') \<and> pool_rep (free_pool m') ys"
proof (induction xs arbitrary: m)
  case (Cons x xs)
  then obtain m1 where "get_blk_from_free_list m = Some (of_nat x, m1)" "pool_rep (free_pool m1) (xs @ ys)"
    using get_blk_from_free_list_Cons [of m x "xs @ ys"] by auto
  with Cons.IH [of m1] show ?case
    by auto
qed simp

section \<open>Properties\<close>

text \<open>C16: The free list is first in, first out and loses no block. Distinct raid blocks inserted
  into an empty free list come out once each, in the order of insertion; the list is then empty, and
  one more request is answered with block 0.\<close>

theorem free_list_fifo:
  assumes "pool_rep (free_pool m) []" and "distinct xs" and "\<forall>x \<in> set xs. x < CFG_NAND_BLOCK_NUM"
  shows "\<exists>m1 m2. insert_blks m xs = Some m1 \<and> get_blks (length xs) m1 = Some (map of_nat xs, m2) \<and>
    pool_rep (free_pool m2) [] \<and> get_blk_from_free_list m2 = Some (0, m2)"
proof -
  obtain m1 where m1: "insert_blks m xs = Some m1" "pool_rep (free_pool m1) xs"
    using fl.push_all_ok [of m "[]" xs] assms unfolding insert_blks_push_all by auto
  with get_blks_ok [of m1 xs "[]"] get_blk_from_free_list_nil show ?thesis
    by auto
qed

theorem free_list_fifo_witness:
  "\<exists>m1 m2. insert_blks sysmeta_initial [3, 1, 127] = Some m1 \<and> get_blks 3 m1 = Some ([3, 1, 127], m2) \<and>
     get_blk_from_free_list m2 = Some (0, m2)"
  using free_list_fifo [OF pool_rep_init, of "[3, 1, 127]"] by (auto simp: numeral_3_eq_3)

text \<open>The address of channel, LUN and block that the bad-block routines look at.\<close>

definition die_ppa :: "u32 \<Rightarrow> u32 \<Rightarrow> u32 \<Rightarrow> geo_ppa" where
  "die_ppa blk lun ch = set_blk blk (set_lun lun (set_ch ch 0))"

lemma die_ppa_fields:
  "ppa_blk (die_ppa blk lun ch) = take_bit 12 blk" "ppa_lun (die_ppa blk lun ch) = take_bit 3 lun"
  "ppa_ch (die_ppa blk lun ch) = take_bit 4 ch"
  by (simp_all add: die_ppa_def ppa_defs bf_simps)

lemma take_bit_small_word: "unat (w :: u32) < 2 ^ n \<Longrightarrow> take_bit n w = w"
  by (simp add: word_unat_eq_iff unsigned_take_bit_eq take_bit_nat_eq_self)

definition bmi_wf :: "bmi_item list \<Rightarrow> bool" where
  "bmi_wf tbl \<longleftrightarrow> length tbl = CFG_NAND_BLOCK_NUM \<and> (\<forall>b \<in> set tbl. length (bmi_bbt b) = CFG_NAND_LUN_NUM)"

definition die_in_range :: "u32 \<Rightarrow> u32 \<Rightarrow> u32 \<Rightarrow> bool" where
  "die_in_range blk lun ch \<longleftrightarrow> unat blk < CFG_NAND_BLOCK_NUM \<and> unat lun < CFG_NAND_LUN_NUM \<and>
     unat ch < CFG_NAND_CHANNEL_NUM"

lemma badblock_at:
  assumes "bmi_wf tbl" "die_in_range blk lun ch"
  shows "is_ppa_badblock tbl (die_ppa blk lun ch) = Some (bit (bmi_bbt (tbl ! unat blk) ! unat lun) (unat ch))"
proof -
  have "unat (ucast blk :: u16) = unat blk"
    using assms(2) by (simp add: die_in_range_def unsigned_ucast_eq take_bit_nat_eq_self)
  with assms show ?thesis
    by (simp add: is_ppa_badblock_def die_ppa_fields take_bit_small_word die_in_range_def bmi_wf_def
      get_bmi_in BIT_TEST_iff)
qed

lemma mark_bbt_at:
  assumes "bmi_wf tbl" "die_in_range blk lun ch"
  shows "mark_bbt_tbl tbl blk lun ch st = Some (tbl[unat blk := (tbl ! unat blk)
    \<lparr>bmi_bbt := (bmi_bbt (tbl ! unat blk))[unat lun :=
      (if st = BADB then BIT_SET else BIT_CLEAR) (bmi_bbt (tbl ! unat blk) ! unat lun) (unat ch)]\<rparr>])"
proof -
  have "unat (ucast blk :: u16) = unat blk"
    using assms(2) by (simp add: die_in_range_def unsigned_ucast_eq take_bit_nat_eq_self)
  with assms show ?thesis
    by (simp add: mark_bbt_tbl_def die_in_range_def bmi_wf_def get_bmi_in put_bmi_in)
qed

text \<open>C17: The bad-block table answers what was last marked. After \<open>mark_bbt_tbl\<close> on one die
  (block, LUN, channel), \<open>is_ppa_badblock\<close> reports exactly the marked status for an address on
  that die and its previous answer for every other die; the table keeps its shape.\<close>

theorem bbt_mark_test:
  assumes "bmi_wf tbl" and "die_in_range blk lun ch" and "die_in_range blk' lun' ch'"
  shows "\<exists>tbl'. mark_bbt_tbl tbl blk lun ch st = Some tbl' \<and> bmi_wf tbl' \<and>
    is_ppa_badblock tbl' (die_ppa blk' lun' ch') =
      (if (blk', lun', ch') = (blk, lun, ch) then Some (st = BADB)
       else is_ppa_badblock tbl (die_ppa blk' lun' ch'))"
proof -
  let ?b = "bmi_bbt (tbl ! unat blk)"
  let ?f = "(if st = BADB then BIT_SET else BIT_CLEAR) (?b ! unat lun) (unat ch)"
  let ?tbl = "tbl[unat blk := (tbl ! unat blk)\<lparr>bmi_bbt := ?b[unat lun := ?f]\<rparr>]"
  have r: "unat blk < length tbl" "unat lun < length ?b" "unat ch < 16"
    using assms(1,2) by (auto simp: bmi_wf_def die_in_range_def)
  have wf: "bmi_wf ?tbl"
    using assms(1) r by (auto simp: bmi_wf_def dest!: set_update_subset_insert [THEN subsetD])
  have "bit (bmi_bbt (?tbl ! unat blk') ! unat lun') (unat ch') =
      (if (blk', lun', ch') = (blk, lun, ch) then st = BADB else bit (bmi_bbt (tbl ! unat blk') ! unat lun') (unat ch'))"
    using r by (auto simp: nth_list_update bit_BIT_SET bit_BIT_CLEAR word_unat_eq_iff split: if_splits)
  then show ?thesis
    using mark_bbt_at [OF assms(1,2)] wf badblock_at [OF wf assms(3)] badblock_at [OF assms(1,3)] by auto
qed

theorem bbt_mark_test_witness:
  "\<exists>tbl'. mark_bbt_tbl bmitbl_initial 5 2 9 BADB = Some tbl' \<and>
     is_ppa_badblock tbl' (die_ppa 5 2 9) = Some True"
proof -
  have "bmi_wf bmitbl_initial"
    by (auto simp: bmi_wf_def bmitbl_initial_def bmi_zero_def)
  from bbt_mark_test [OF this, of 5 2 9 5 2 9 BADB] show ?thesis
    by (auto simp: die_in_range_def)
qed

text \<open>The LBA zones do not overlap and the mapping covers every user LBA. The tables of the
  user mapping, block information, valid-page counts and level-1 mapping follow each other without
  overlap after the user zone; the \<open>l2ptbl\<close> allocation has an entry for every LBA up to
  \<open>MAX_USER_LBA\<close>; every zone ends below the special LBA values from \<open>0xfffffffa\<close> on; and the
  valid-page table has an entry for every raid block.\<close>

theorem lba_zones:
  "MAX_USER_LBA < EXTEND_LBA_UFTL \<and> EXTEND_LBA_UFTL + USR_FTLTBL_SEC_NUM = EXTEND_LBA_BMITBL \<and>
   EXTEND_LBA_BMITBL + BMITBL_SEC_NUM = EXTEND_LBA_VPCTBL \<and>
   EXTEND_LBA_VPCTBL + VPCTBL_SEC_NUM = EXTEND_LBA_L1TBL \<and>
   EXTEND_LBA_L1TBL + L1TBL_SEC_NUM = EXTEND_LBA_RSVD0 \<and> EXTEND_LBA_RSVD0 < 0xfffffffa \<and>
   4 * (MAX_USER_LBA + 1) \<le> USR_FTLTBL_SIZE \<and> CFG_NAND_BLOCK_NUM \<le> length vpctbl_initial \<and>
   CFG_NAND_BLOCK_NUM * sizeof_bmi_item \<le> BMITBL_SEC_NUM * EXP_PPA_SIZE"
  by (simp add: zone_defs vpctbl_initial_def)

end
