(* ===== verification/Wcb_Mngr.thy ===== *)
theory Wcb_Mngr
  imports Sys_Meta
begin

text \<open>
  The write cache of the host FTL, \<open>writecache/wcb-mngr.c\<close> and \<open>wcb-mngr.h\<close>: the raid-LUN
  entities that collect 128 sectors each, the FIFOs they move through (\<open>empty_lun\<close>,
  \<open>full_lun\<close>, \<open>ongoing_lun\<close>), the choice of the next entity with its physical base address,
  and the allocation of the cache with its error paths. A pointer to an entity is its position in
  the array \<open>lun_entitys\<close>; a null pointer is \<^term>\<open>None\<close>.
\<close>

section \<open>Data\<close>

text \<open>The parts of the kernel's \<open>struct bio\<close> the FTL uses: \<open>bi_iter\<close> and the payload.\<close>

record bio =
  bi_sector :: u64
  bi_size :: u32
  bi_pages :: "page list"

record wcb_lun_entity =
  we_index :: u32
  we_baddr :: geo_ppa
  we_data :: "page list"
  we_ppa :: "u64 list"
  we_lba :: "u32 list"
  we_cqe_flag :: u16
  we_pos :: u16
  we_fill_cnt :: u32
  we_next :: u32
  we_prev :: u32

record wcb_ctx =
  wc_entitys :: "nat option"
  wc_start_pos :: u16
  wc_end_pos :: u16

text \<open>\<open>struct wcb_bio_ctx\<close>: the \<open>MAX_USED_WCB_ENTITYS\<close> contexts of one request.\<close>

type_synonym wcb_bio_ctx = "wcb_ctx list"

definition wcb_ctx_zero :: wcb_ctx where
  "wcb_ctx_zero = \<lparr>wc_entitys = None, wc_start_pos = 0, wc_end_pos = 0\<rparr>"

definition wcb_bio_ctx_zero :: wcb_bio_ctx where
  "wcb_bio_ctx_zero = replicate MAX_USED_WCB_ENTITYS wcb_ctx_zero"

text \<open>\<open>struct wcb_lun_gctl\<close> without its locks and its time stamps, which only feed log messages.\<close>

record wcb_lun_gctl =
  gc_curppa :: geo_ppa
  requeue_wr_bios :: "bio list"
  empty_lun :: fsc_fifo
  full_lun :: fsc_fifo
  read_lun :: "fsc_fifo list"
  ongoing_lun :: fsc_fifo
  lun_entitys :: "wcb_lun_entity list"
  partial_entity :: "nat option"
  outstanding_lun :: u32

text \<open>The FTL's memory: the write cache, the system tables and \<open>exdev->l2ptbl\<close>.\<close>

record ftl =
  ctl :: wcb_lun_gctl
  sysm :: sysmeta
  l2ptbl :: "u32 \<Rightarrow> u32"

abbreviation entities :: "ftl \<Rightarrow> wcb_lun_entity list" where
  "entities s \<equiv> lun_entitys (ctl s)"

definition put_entity :: "nat \<Rightarrow> wcb_lun_entity \<Rightarrow> ftl \<Rightarrow> ftl" where
  "put_entity e w s = s\<lparr>ctl := (ctl s)\<lparr>lun_entitys := (lun_entitys (ctl s))[e := w]\<rparr>\<rparr>"

definition set_partial :: "nat option \<Rightarrow> ftl \<Rightarrow> ftl" where
  "set_partial p s = s\<lparr>ctl := (ctl s)\<lparr>partial_entity := p\<rparr>\<rparr>"

section \<open>FIFO operations\<close>

definition wcb_lun_entity_idx :: "wcb_lun_entity list \<Rightarrow> u32 \<Rightarrow> wcb_lun_entity option" where
  "wcb_lun_entity_idx es i = aget es (unat i)"

definition push_lun_entity_to_fifo ::
    "wcb_lun_entity list \<Rightarrow> fsc_fifo \<Rightarrow> nat \<Rightarrow> (wcb_lun_entity list \<times> fsc_fifo) option" where
  "push_lun_entity_to_fifo es fifo entry = (let old_tail = fifo_tail fifo in do {
     e \<leftarrow> aget es entry;
     (es, fifo) \<leftarrow>
       (if old_tail = 0xffff then do {
          es \<leftarrow> aset es entry (e\<lparr>we_next := 0xffff, we_prev := 0xffff\<rparr>);
          Some (es, fifo\<lparr>fifo_head := we_index e, fifo_tail := we_index e\<rparr>)
        } else do {
          es \<leftarrow> aset es entry (e\<lparr>we_next := old_tail, we_prev := 0xffff\<rparr>);
          otentry \<leftarrow> wcb_lun_entity_idx es old_tail;
          es \<leftarrow> aset es (unat old_tail) (otentry\<lparr>we_prev := we_index e\<rparr>);
          Some (es, fifo\<lparr>fifo_tail := we_index e\<rparr>)
        });
     Some (es, fifo\<lparr>fifo_size := fifo_size fifo + 1\<rparr>)
   })"

definition pull_lun_entity_from_fifo ::
    "wcb_lun_entity list \<Rightarrow> fsc_fifo \<Rightarrow> (nat option \<times> wcb_lun_entity list \<times> fsc_fifo) option" where
  "pull_lun_entity_from_fifo es fifo = (let old_head = fifo_head fifo in
     if old_head = 0xffff then Some (None, es, fifo)
     else do {
       entry \<leftarrow> wcb_lun_entity_idx es old_head;
       (es, fifo) \<leftarrow>
         (if fifo_head fifo = fifo_tail fifo
          then Some (es, fifo\<lparr>fifo_head := 0xffff, fifo_tail := 0xffff\<rparr>)
          else do {
            nhentry \<leftarrow> wcb_lun_entity_idx es (we_prev entry);
            es \<leftarrow> aset es (unat (we_prev entry)) (nhentry\<lparr>we_next := 0xffff\<rparr>);
            Some (es, fifo\<lparr>fifo_head := we_prev entry\<rparr>)
          });
       entry \<leftarrow> wcb_lun_entity_idx es old_head;
       es \<leftarrow> aset es (unat old_head) (entry\<lparr>we_next := 0xffff, we_prev := 0xffff\<rparr>);
       Some (Some (unat old_head), es, fifo\<lparr>fifo_size := fifo_size fifo - 1\<rparr>)
     })"

text \<open>The same operations on the two FIFOs of the control block.\<close>

definition pull_empty :: "ftl \<Rightarrow> (nat option \<times> ftl) option" where
  "pull_empty s = do {
     (e, es, fifo) \<leftarrow> pull_lun_entity_from_fifo (entities s) (empty_lun (ctl s));
     Some (e, s\<lparr>ctl := (ctl s)\<lparr>lun_entitys := es, empty_lun := fifo\<rparr>\<rparr>)
   }"

definition push_empty :: "ftl \<Rightarrow> nat \<Rightarrow> ftl option" where
  "push_empty s e = do {
     (es, fifo) \<leftarrow> push_lun_entity_to_fifo (entities s) (empty_lun (ctl s)) e;
     Some (s\<lparr>ctl := (ctl s)\<lparr>lun_entitys := es, empty_lun := fifo\<rparr>\<rparr>)
   }"

definition pull_full :: "ftl \<Rightarrow> (nat option \<times> ftl) option" where
  "pull_full s = do {
     (e, es, fifo) \<leftarrow> pull_lun_entity_from_fifo (entities s) (full_lun (ctl s));
     Some (e, s\<lparr>ctl := (ctl s)\<lparr>lun_entitys := es, full_lun := fifo\<rparr>\<rparr>)
   }"

definition push_full :: "ftl \<Rightarrow> nat \<Rightarrow> ftl option" where
  "push_full s e = do {
     (es, fifo) \<leftarrow> push_lun_entity_to_fifo (entities s) (full_lun (ctl s)) e;
     Some (s\<lparr>ctl := (ctl s)\<lparr>lun_entitys := es, full_lun := fifo\<rparr>\<rparr>)
   }"

text \<open>The log routine dereferences the partial entity: it stops the kernel when there is none.\<close>

definition print_lun_entitys_fifo :: "ftl \<Rightarrow> unit option" where
  "print_lun_entitys_fifo s = do {
     p \<leftarrow> partial_entity (ctl s);
     _ \<leftarrow> aget (entities s) p;
     Some ()
   }"

section \<open>The next entity and its base address\<close>

definition get_next_entity_baddr :: "sysmeta \<Rightarrow> geo_ppa \<Rightarrow> (geo_ppa \<times> sysmeta) option" where
  "get_next_entity_baddr m curppa = (case get_ppa_each_region curppa of
     (ch, sec, pl, lun, pg, blk) \<Rightarrow>
       let (lun, carry) = incre_bounded LN_BITS lun;
           (pg, carry) = if_carry_incre_bounded carry PG_BITS pg
       in do {
         (blk, m) \<leftarrow>
           (if carry then do { (b, m) \<leftarrow> get_blk_from_free_list m; Some (ucast b :: u16, m) }
            else Some (blk, m));
         Some (set_blk (ucast blk) (set_pg (ucast pg) (set_lun (ucast lun)
                 (set_pl 0 (set_sec 0 (set_ch 0 curppa))))), m)
       })"

definition get_next_lun_entity :: "ftl \<Rightarrow> geo_ppa \<Rightarrow> (nat option \<times> ftl) option" where
  "get_next_lun_entity s curppa = do {
     (e, s) \<leftarrow> pull_empty s;
     (case e of
        None \<Rightarrow> do {
          let s = set_partial None s;
          print_lun_entitys_fifo s;
          Some (None, s)
        }
      | Some e \<Rightarrow> do {
          (b, m) \<leftarrow> get_next_entity_baddr (sysm s) curppa;
          w \<leftarrow> aget (entities s) e;
          let s = put_entity e (w\<lparr>we_baddr := b, we_pos := 0, we_cqe_flag := 0, we_fill_cnt := 0\<rparr>) s;
          Some (Some e, set_partial (Some e) (s\<lparr>sysm := m\<rparr>))
        })
   }"

definition get_lun_entity :: "ftl \<Rightarrow> geo_ppa \<Rightarrow> (nat option \<times> ftl) option" where
  "get_lun_entity s startppa = do {
     (e, s) \<leftarrow> pull_empty s;
     (case e of
        None \<Rightarrow> Some (None, s)
      | Some e \<Rightarrow> do {
          let ch = (ucast (ppa_ch startppa) :: u16);
          let ep = (ucast (ppa_sec startppa) :: u16);
          let pl = (ucast (ppa_pl startppa) :: u16);
          let pos = ch OR push_bit CH_BITS ep OR push_bit (CH_BITS + EP_BITS) pl;
          w \<leftarrow> aget (entities s) e;
          let s = put_entity e (w\<lparr>we_baddr := set_pl 0 (set_sec 0 (set_ch 0 startppa)),
                                 we_pos := pos, we_cqe_flag := 0\<rparr>) s;
          Some (Some e, set_partial (Some e) s)
        })
   }"

section \<open>Allocation of the cache\<close>

text \<open>
  \<open>dma_alloc_coherent\<close> is a parameter: whether each of the three buffers of entity \<open>i\<close> can be
  allocated. The buffers alive are kept as a list of entity number and kind.
\<close>

datatype dma_buf = DataBuf | MetaBuf | PpaBuf

definition wcb_single_lun_alloc ::
    "(nat \<Rightarrow> dma_buf \<Rightarrow> bool) \<Rightarrow> nat \<Rightarrow> (nat \<times> dma_buf) list \<Rightarrow> int \<times> (nat \<times> dma_buf) list" where
  "wcb_single_lun_alloc dma i live =
     (if \<not> dma i DataBuf then (- ENOMEM, live)
      else if \<not> dma i MetaBuf then (- ENOMEM, remove1 (i, DataBuf) ((i, DataBuf) # live))
      else if \<not> dma i PpaBuf
      then (- ENOMEM, remove1 (i, DataBuf) (remove1 (i, MetaBuf) ((i, MetaBuf) # (i, DataBuf) # live)))
      else (0, (i, PpaBuf) # (i, MetaBuf) # (i, DataBuf) # live))"

definition wcb_single_lun_free :: "nat \<Rightarrow> (nat \<times> dma_buf) list \<Rightarrow> (nat \<times> dma_buf) list" where
  "wcb_single_lun_free i live =
     remove1 (i, DataBuf) (remove1 (i, MetaBuf) (remove1 (i, PpaBuf) live))"

text \<open>The clean-up loop \<open>while (--i)\<close>: it leaves at 0, and from 0 it runs into negative indices.\<close>

fun free_lun_mem_loop :: "nat \<Rightarrow> (nat \<times> dma_buf) list \<Rightarrow> (nat \<times> dma_buf) list" where
  "free_lun_mem_loop 0 live = live"
| "free_lun_mem_loop (Suc i) live =
     (if i = 0 then live else free_lun_mem_loop i (wcb_single_lun_free i live))"

definition free_lun_mem :: "nat \<Rightarrow> (nat \<times> dma_buf) list \<Rightarrow> (nat \<times> dma_buf) list option" where
  "free_lun_mem i live = (if i = 0 then None else Some (free_lun_mem_loop i live))"

definition entity_zero :: wcb_lun_entity where
  "entity_zero = \<lparr>we_index = 0, we_baddr = 0, we_data = replicate RAID_LUN_SEC_NUM [],
     we_ppa = replicate RAID_LUN_SEC_NUM 0, we_lba = replicate RAID_LUN_SEC_NUM 0,
     we_cqe_flag = 0, we_pos = 0, we_fill_cnt = 0, we_next = 0, we_prev = 0\<rparr>"

text \<open>
  \<open>wcb_lun_ctl_init\<close>, with \<open>kzalloc\<close> and \<open>vzalloc\<close> as parameters: the block is released when
  the entity array cannot be had.
\<close>

definition wcb_lun_ctl_init :: "bool \<Rightarrow> bool \<Rightarrow> int \<times> wcb_lun_gctl option" where
  "wcb_lun_ctl_init kz vz =
     (if \<not> kz then (- ENOMEM, None)
      else if \<not> vz then (- ENOMEM, None)
      else (0, Some \<lparr>gc_curppa = 0, requeue_wr_bios = [], empty_lun = fsc_fifo_init,
              full_lun = fsc_fifo_init, read_lun = replicate CFG_NAND_LUN_NUM fsc_fifo_init,
              ongoing_lun = fsc_fifo_init, lun_entitys = replicate CB_ENTITYS_CNT entity_zero,
              partial_entity = None, outstanding_lun = 0\<rparr>))"

text \<open>The loop of \<open>wcb_lun_mem_alloc\<close> from entity \<open>i\<close> on, \<open>n\<close> entities to go.\<close>

fun wcb_lun_mem_alloc_loop :: "(nat \<Rightarrow> dma_buf \<Rightarrow> bool) \<Rightarrow> nat \<Rightarrow> nat \<Rightarrow> wcb_lun_gctl \<Rightarrow>
    (nat \<times> dma_buf) list \<Rightarrow> (int \<times> wcb_lun_gctl \<times> (nat \<times> dma_buf) list) option" where
  "wcb_lun_mem_alloc_loop dma 0 i g live = Some (0, g, live)"
| "wcb_lun_mem_alloc_loop dma (Suc n) i g live = do {
     es \<leftarrow> amod (lun_entitys g) i (\<lambda>w. w\<lparr>we_index := of_nat i, we_next := 0xffff, we_prev := 0xffff\<rparr>);
     (es, fifo) \<leftarrow> push_lun_entity_to_fifo es (empty_lun g) i;
     es \<leftarrow> amod es i (\<lambda>w. w\<lparr>we_fill_cnt := 0\<rparr>);
     let g = g\<lparr>lun_entitys := es, empty_lun := fifo\<rparr>;
     let (ret, live) = wcb_single_lun_alloc dma i live;
     if ret \<noteq> 0 then do {
       live \<leftarrow> free_lun_mem i live;
       Some (- ENOMEM, g, live)
     } else wcb_lun_mem_alloc_loop dma n (Suc i) g live
   }"

definition wcb_lun_mem_alloc :: "(nat \<Rightarrow> dma_buf \<Rightarrow> bool) \<Rightarrow> wcb_lun_gctl \<Rightarrow>
    (int \<times> wcb_lun_gctl \<times> (nat \<times> dma_buf) list) option" where
  "wcb_lun_mem_alloc dma g = wcb_lun_mem_alloc_loop dma CB_ENTITYS_CNT 0 g []"

definition wcb_lun_mem_free :: "(nat \<times> dma_buf) list \<Rightarrow> (nat \<times> dma_buf) list" where
  "wcb_lun_mem_free live = fold wcb_single_lun_free [0..<CB_ENTITYS_CNT] live"

definition write_cache_alloc :: "bool \<Rightarrow> bool \<Rightarrow> (nat \<Rightarrow> dma_buf \<Rightarrow> bool) \<Rightarrow>
    (int \<times> wcb_lun_gctl option \<times> (nat \<times> dma_buf) list) option" where
  "write_cache_alloc kz vz dma = (case wcb_lun_ctl_init kz vz of
     (ret, None) \<Rightarrow> Some (ret, None, [])
   | (ret, Some g) \<Rightarrow> do {
       (ret, g, live) \<leftarrow> wcb_lun_mem_alloc dma g;
       if ret \<noteq> 0 then Some (ret, None, live) else Some (0, Some g, live)
     })"

definition write_cache_free :: "(nat \<times> dma_buf) list \<Rightarrow> (nat \<times> dma_buf) list" where
  "write_cache_free live = wcb_lun_mem_free live"

section \<open>The entity FIFOs as linked queues\<close>

interpretation el: link_store we_next we_prev "\<lambda>v. we_next_update (\<lambda>_. v)"
    "\<lambda>v. we_prev_update (\<lambda>_. v)" "0xffff :: u32"
  by unfold_locales simp_all

text \<open>The entity array: 16 entities, each knowing its index.\<close>

definition entity_array :: "wcb_lun_entity list \<Rightarrow> bool" where
  "entity_array es \<longleftrightarrow> length es = CB_ENTITYS_CNT \<and> (\<forall>i < length es. we_index (es ! i) = of_nat i)"

definition lun_rep :: "wcb_lun_entity list \<times> fsc_fifo \<Rightarrow> nat list \<Rightarrow> bool" where
  "lun_rep = (\<lambda>(es, fifo) xs. entity_array es \<and>
     el.linked es (fifo_head fifo) (fifo_tail fifo) xs \<and> fifo_size fifo = of_nat (length xs))"

text \<open>An entity without its links: what the FIFO operations must not touch.\<close>

definition payload :: "wcb_lun_entity \<Rightarrow> wcb_lun_entity" where
  "payload w = w\<lparr>we_next := 0, we_prev := 0\<rparr>"

lemma payload_links [simp]:
  "payload (w\<lparr>we_next := a\<rparr>) = payload w" "payload (w\<lparr>we_prev := b\<rparr>) = payload w"
  "payload (w\<lparr>we_next := a, we_prev := b\<rparr>) = payload w"
  by (simp_all add: payload_def)

lemma payload_eqD:
  assumes "payload v = payload w"
  shows "we_index v = we_index w" "we_baddr v = we_baddr w" "we_data v = we_data w"
    "we_ppa v = we_ppa w" "we_lba v = we_lba w" "we_cqe_flag v = we_cqe_flag w"
    "we_pos v = we_pos w" "we_fill_cnt v = we_fill_cnt w"
  using assms by (cases v; cases w; simp add: payload_def)+

lemma map_payload_update [simp]:
  "i < length es \<Longrightarrow> payload v = payload (es ! i) \<Longrightarrow> map payload (es[i := v]) = map payload es"
  by (simp add: list_eq_iff_nth_eq nth_list_update)

lemma map_payload_nth: "map payload es' = map payload es \<Longrightarrow> i < length es \<Longrightarrow>
    payload (es' ! i) = payload (es ! i)"
  by (metis length_map nth_map)

lemma entity_array_payload:
  assumes "map payload es' = map payload es"
  shows "entity_array es' = entity_array es"
proof -
  have "length es' = length es"
    using assms by (rule map_eq_imp_length_eq)
  moreover have "we_index (es' ! i) = we_index (es ! i)" if "i < length es" for i
    using map_payload_nth [OF assms that] by (rule payload_eqD(1))
  ultimately show ?thesis
    by (simp add: entity_array_def)
qed

lemma push_nodes_payload:
  assumes "x < length es" and "t \<noteq> 0xffff \<Longrightarrow> unat t < length es"
  shows "map payload (el.push_nodes es t x) = map payload es"
proof (cases "t = 0xffff")
  case True
  with assms show ?thesis by (simp add: el.push_nodes_def)
next
  case False
  let ?es = "es[x := (es ! x)\<lparr>we_next := t, we_prev := 0xffff\<rparr>]"
  have "map payload (?es[unat t := (?es ! unat t)\<lparr>we_prev := of_nat x\<rparr>]) = map payload ?es"
    using False assms by (intro map_payload_update) simp_all
  with False assms(1) show ?thesis
    by (simp add: el.push_nodes_def Let_def)
qed

lemma pull_nodes_payload:
  assumes "unat h < length es" and "h \<noteq> t \<Longrightarrow> unat (we_prev (es ! unat h)) < length es"
  shows "map payload (el.pull_nodes es h t) = map payload es"
proof (cases "h = t")
  case True
  with assms show ?thesis by (simp add: el.pull_nodes_def)
next
  case False
  let ?p = "unat (we_prev (es ! unat h))"
  let ?es = "es[?p := (es ! ?p)\<lparr>we_next := 0xffff\<rparr>]"
  have "map payload (?es[unat h := (?es ! unat h)\<lparr>we_next := 0xffff, we_prev := 0xffff\<rparr>]) = map payload ?es"
    using assms by (intro map_payload_update) simp_all
  with False assms show ?thesis
    by (simp add: el.pull_nodes_def Let_def)
qed

lemma push_entity_nodes:
  assumes "entity_array es" and "x < CB_ENTITYS_CNT"
    and "fifo_tail f \<noteq> 0xffff \<Longrightarrow> unat (fifo_tail f) < CB_ENTITYS_CNT"
  shows "push_lun_entity_to_fifo es f x =
    Some (el.push_nodes es (fifo_tail f) x,
      \<lparr>fifo_head = (if fifo_tail f = 0xffff then of_nat x else fifo_head f),
       fifo_tail = of_nat x, fifo_size = fifo_size f + 1\<rparr>)"
  using assms
  by (cases "fifo_tail f = 0xffff")
    (simp_all add: push_lun_entity_to_fifo_def wcb_lun_entity_idx_def el.push_nodes_def
      entity_array_def Let_def)

lemma pull_entity_nodes:
  assumes "entity_array es" and "x < CB_ENTITYS_CNT" and "fifo_head f = of_nat x"
    and "fifo_head f \<noteq> fifo_tail f \<Longrightarrow> unat (we_prev (es ! x)) < CB_ENTITYS_CNT"
  shows "pull_lun_entity_from_fifo es f =
    Some (Some x, el.pull_nodes es (fifo_head f) (fifo_tail f),
      \<lparr>fifo_head = (if fifo_head f = fifo_tail f then 0xffff else we_prev (es ! x)),
       fifo_tail = (if fifo_head f = fifo_tail f then 0xffff else fifo_tail f),
       fifo_size = fifo_size f - 1\<rparr>)"
proof -
  have x: "(of_nat x :: u32) \<noteq> 0xffff" "unat (of_nat x :: u32) = x"
    using el.of_nat_nil [of x] assms(2) by simp_all
  show ?thesis
    using assms x
    by (cases "fifo_head f = fifo_tail f")
      (simp_all add: pull_lun_entity_from_fifo_def wcb_lun_entity_idx_def el.pull_nodes_def
        entity_array_def Let_def)
qed

text \<open>
  Push and pull on one FIFO: the queue gains its last or loses its first entity, the payload of
  every entity is untouched, and every FIFO over other entities of the array is kept.
\<close>

lemma entity_push:
  assumes "lun_rep (es, f) xs" and "x < CB_ENTITYS_CNT" and "x \<notin> set xs"
  shows "\<exists>es' f'. push_lun_entity_to_fifo es f x = Some (es', f') \<and> lun_rep (es', f') (xs @ [x]) \<and>
    map payload es' = map payload es \<and>
    (\<forall>g ys. lun_rep (es, g) ys \<longrightarrow> set (xs @ [x]) \<inter> set ys = {} \<longrightarrow> lun_rep (es', g) ys)"
proof -
  have l: "el.linked es (fifo_head f) (fifo_tail f) xs" and a: "entity_array es"
    using assms(1) by (simp_all add: lun_rep_def)
  have len: "length es = CB_ENTITYS_CNT"
    using a by (simp add: entity_array_def)
  have t: "unat (fifo_tail f) < CB_ENTITYS_CNT" if "fifo_tail f \<noteq> 0xffff"
    using that l len el.linked_tail_nil [OF l] el.linked_bound [OF l, of "last xs"]
    by (auto simp: el.linked_def)
  have p: "map payload (el.push_nodes es (fifo_tail f) x) = map payload es"
    using assms(2) t len by (intro push_nodes_payload) simp_all
  have "lun_rep (el.push_nodes es (fifo_tail f) x, g) ys"
    if "lun_rep (es, g) ys" "set (xs @ [x]) \<inter> set ys = {}" for g ys
    using that el.push_keeps_other [OF l, of "fifo_head g" "fifo_tail g" ys x] entity_array_payload [OF p]
    by (auto simp: lun_rep_def)
  then show ?thesis
    using push_entity_nodes [OF a assms(2) t] el.linked_push [OF l, of x] assms len a p entity_array_payload [OF p]
    by (simp add: lun_rep_def)
qed

lemma entity_pull:
  assumes "lun_rep (es, f) (x # xs)"
  shows "\<exists>es' f'. pull_lun_entity_from_fifo es f = Some (Some x, es', f') \<and> lun_rep (es', f') xs \<and>
    map payload es' = map payload es \<and> x < CB_ENTITYS_CNT \<and>
    (\<forall>g ys. lun_rep (es, g) ys \<longrightarrow> set (x # xs) \<inter> set ys = {} \<longrightarrow> lun_rep (es', g) ys)"
proof -
  have l: "el.linked es (fifo_head f) (fifo_tail f) (x # xs)" and a: "entity_array es"
    using assms(1) by (simp_all add: lun_rep_def)
  have len: "length es = CB_ENTITYS_CNT"
    using a by (simp add: entity_array_def)
  note q = el.linked_pull [OF l]
  have t: "unat (we_prev (es ! x)) < CB_ENTITYS_CNT" if "fifo_head f \<noteq> fifo_tail f"
    using q(4,5) that len by simp
  have p: "map payload (el.pull_nodes es (fifo_head f) (fifo_tail f)) = map payload es"
    using q(2,3) t len by (intro pull_nodes_payload) simp_all
  have "lun_rep (el.pull_nodes es (fifo_head f) (fifo_tail f), g) ys"
    if "lun_rep (es, g) ys" "set (x # xs) \<inter> set ys = {}" for g ys
    using that el.pull_keeps_other [OF l, of "fifo_head g" "fifo_tail g" ys] entity_array_payload [OF p]
    by (auto simp: lun_rep_def)
  then show ?thesis
    using pull_entity_nodes [OF a _ q(1) t] q(3,6) assms len a p entity_array_payload [OF p]
    by (simp add: lun_rep_def)
qed

lemma entity_pull_nil: "lun_rep (es, f) [] \<Longrightarrow> pull_lun_entity_from_fifo es f = Some (None, es, f)"
  by (simp add: lun_rep_def pull_lun_entity_from_fifo_def)

definition lun_push_op :: "wcb_lun_entity list \<times> fsc_fifo \<Rightarrow> nat \<Rightarrow> (wcb_lun_entity list \<times> fsc_fifo) option" where
  "lun_push_op = (\<lambda>(es, f) x. push_lun_entity_to_fifo es f x)"

definition lun_pull_op :: "wcb_lun_entity list \<times> fsc_fifo \<Rightarrow> (nat option \<times> wcb_lun_entity list \<times> fsc_fifo) option" where
  "lun_pull_op = (\<lambda>(es, f). pull_lun_entity_from_fifo es f)"

interpretation eq: fifo_queue lun_rep "\<lambda>_ x. x < CB_ENTITYS_CNT" lun_push_op lun_pull_op
proof (unfold_locales, goal_cases)
  case (1 s xs x)
  then show ?case
    using entity_push [of "fst s" "snd s" xs x] by (cases s) (auto simp: lun_push_op_def)
next
  case (2 s)
  then show ?case
    using entity_pull_nil [of "fst s" "snd s"] by (cases s) (simp add: lun_pull_op_def)
next
  case (3 s x xs)
  then show ?case
    using entity_pull [of "fst s" "snd s" x xs] by (cases s) (auto simp: lun_pull_op_def)
qed

section \<open>The two FIFOs of the control block\<close>

text \<open>The links and the index of an entity: what the queues depend on.\<close>

definition links :: "wcb_lun_entity \<Rightarrow> u32 \<times> u32 \<times> u32" where
  "links w = (we_index w, we_next w, we_prev w)"

lemma lun_rep_links:
  assumes m: "map links es' = map links es" and r: "lun_rep (es, f) xs"
  shows "lun_rep (es', f) xs"
proof -
  have len: "length es' = length es"
    using m by (rule map_eq_imp_length_eq)
  have l: "links (es' ! i) = links (es ! i)" if "i < length es" for i
    using m that len by (metis nth_map)
  have a: "entity_array es" and k: "el.linked es (fifo_head f) (fifo_tail f) xs"
    using r by (simp_all add: lun_rep_def)
  have "entity_array es'"
    using a len l by (simp add: entity_array_def links_def)
  moreover have "el.linked es' (fifo_head f) (fifo_tail f) xs"
    using l el.linked_bound [OF k] by (intro el.linked_frame [OF k len]) (simp add: links_def)
  ultimately show ?thesis
    using r by (simp add: lun_rep_def)
qed

lemma map_links_update [simp]:
  "i < length es \<Longrightarrow> links v = links (es ! i) \<Longrightarrow> map links (es[i := v]) = map links es"
  by (simp add: list_eq_iff_nth_eq nth_list_update)

definition cache_rep :: "ftl \<Rightarrow> nat list \<Rightarrow> nat list \<Rightarrow> bool" where
  "cache_rep s E F \<longleftrightarrow> lun_rep (entities s, empty_lun (ctl s)) E \<and>
     lun_rep (entities s, full_lun (ctl s)) F \<and> set E \<inter> set F = {}"

text \<open>What an operation on the FIFOs leaves alone.\<close>

definition same_rest :: "ftl \<Rightarrow> ftl \<Rightarrow> bool" where
  "same_rest s s' \<longleftrightarrow> map payload (entities s') = map payload (entities s) \<and> sysm s' = sysm s \<and>
     l2ptbl s' = l2ptbl s \<and> gc_curppa (ctl s') = gc_curppa (ctl s) \<and>
     requeue_wr_bios (ctl s') = requeue_wr_bios (ctl s) \<and>
     partial_entity (ctl s') = partial_entity (ctl s) \<and>
     outstanding_lun (ctl s') = outstanding_lun (ctl s)"

lemma cache_rep_array: "cache_rep s E F \<Longrightarrow> entity_array (entities s)"
  by (simp add: cache_rep_def lun_rep_def)

lemma cache_rep_length: "cache_rep s E F \<Longrightarrow> length (entities s) = 16"
  using cache_rep_array [of s E F] by (simp add: entity_array_def)

lemma lun_rep_bound: "lun_rep (es, f) xs \<Longrightarrow> x \<in> set xs \<Longrightarrow> x < 16"
  using el.linked_bound [of es "fifo_head f" "fifo_tail f" xs x] by (simp add: lun_rep_def entity_array_def)

lemma cache_rep_bound: "cache_rep s E F \<Longrightarrow> x \<in> set E \<union> set F \<Longrightarrow> x < 16"
  unfolding cache_rep_def by (blast intro: lun_rep_bound)

lemma cache_rep_distinct: "cache_rep s E F \<Longrightarrow> distinct (E @ F)"
  by (auto simp: cache_rep_def lun_rep_def el.linked_def)

lemma pull_empty_nil: "cache_rep s [] F \<Longrightarrow> pull_empty s = Some (None, s)"
  by (simp add: cache_rep_def pull_empty_def entity_pull_nil)

lemma pull_full_nil: "cache_rep s E [] \<Longrightarrow> pull_full s = Some (None, s)"
  by (simp add: cache_rep_def pull_full_def entity_pull_nil)

lemma pull_empty_ok:
  assumes "cache_rep s (x # E) F"
  shows "\<exists>s'. pull_empty s = Some (Some x, s') \<and> cache_rep s' E F \<and> same_rest s s' \<and> x < 16"
proof -
  have r: "lun_rep (entities s, empty_lun (ctl s)) (x # E)" "lun_rep (entities s, full_lun (ctl s)) F"
      and d: "set (x # E) \<inter> set F = {}"
    using assms by (auto simp: cache_rep_def)
  obtain es f where p: "pull_lun_entity_from_fifo (entities s) (empty_lun (ctl s)) = Some (Some x, es, f)"
      "lun_rep (es, f) E" "map payload es = map payload (entities s)" "x < CB_ENTITYS_CNT"
      "lun_rep (es, full_lun (ctl s)) F"
    using entity_pull [OF r(1)] r(2) d by blast
  show ?thesis
    using p d by (auto simp: pull_empty_def cache_rep_def same_rest_def)
qed

lemma pull_full_ok:
  assumes "cache_rep s E (x # F)"
  shows "\<exists>s'. pull_full s = Some (Some x, s') \<and> cache_rep s' E F \<and> same_rest s s' \<and> x < 16"
proof -
  have r: "lun_rep (entities s, full_lun (ctl s)) (x # F)" "lun_rep (entities s, empty_lun (ctl s)) E"
      and d: "set (x # F) \<inter> set E = {}"
    using assms by (auto simp: cache_rep_def)
  obtain es f where p: "pull_lun_entity_from_fifo (entities s) (full_lun (ctl s)) = Some (Some x, es, f)"
      "lun_rep (es, f) F" "map payload es = map payload (entities s)" "x < CB_ENTITYS_CNT"
      "lun_rep (es, empty_lun (ctl s)) E"
    using entity_pull [OF r(1)] r(2) d by blast
  show ?thesis
    using p d by (auto simp: pull_full_def cache_rep_def same_rest_def)
qed

lemma push_empty_ok:
  assumes "cache_rep s E F" and "x < 16" and "x \<notin> set E \<union> set F"
  shows "\<exists>s'. push_empty s x = Some s' \<and> cache_rep s' (E @ [x]) F \<and> same_rest s s'"
proof -
  have r: "lun_rep (entities s, empty_lun (ctl s)) E" "lun_rep (entities s, full_lun (ctl s)) F"
      and d: "x < CB_ENTITYS_CNT" "x \<notin> set E" "set (E @ [x]) \<inter> set F = {}"
    using assms by (auto simp: cache_rep_def)
  obtain es f where p: "push_lun_entity_to_fifo (entities s) (empty_lun (ctl s)) x = Some (es, f)"
      "lun_rep (es, f) (E @ [x])" "map payload es = map payload (entities s)"
      "lun_rep (es, full_lun (ctl s)) F"
    using entity_push [OF r(1) d(1,2)] r(2) d(3) by blast
  show ?thesis
    using p d by (auto simp: push_empty_def cache_rep_def same_rest_def)
qed

lemma push_full_ok:
  assumes "cache_rep s E F" and "x < 16" and "x \<notin> set E \<union> set F"
  shows "\<exists>s'. push_full s x = Some s' \<and> cache_rep s' E (F @ [x]) \<and> same_rest s s'"
proof -
  have r: "lun_rep (entities s, full_lun (ctl s)) F" "lun_rep (entities s, empty_lun (ctl s)) E"
      and d: "x < CB_ENTITYS_CNT" "x \<notin> set F" "set (F @ [x]) \<inter> set E = {}"
    using assms by (auto simp: cache_rep_def)
  obtain es f where p: "push_lun_entity_to_fifo (entities s) (full_lun (ctl s)) x = Some (es, f)"
      "lun_rep (es, f) (F @ [x])" "map payload es = map payload (entities s)"
      "lun_rep (es, empty_lun (ctl s)) E"
    using entity_push [OF r(1) d(1,2)] r(2) d(3) by blast
  show ?thesis
    using p d by (auto simp: push_full_def cache_rep_def same_rest_def)
qed

lemma same_rest_nth:
  "same_rest s s' \<Longrightarrow> i < length (entities s) \<Longrightarrow> payload (entities s' ! i) = payload (entities s ! i)"
  unfolding same_rest_def by (blast intro: map_payload_nth)

lemma put_entity_sel [simp]:
  "entities (put_entity e w s) = (entities s)[e := w]" "sysm (put_entity e w s) = sysm s"
  "l2ptbl (put_entity e w s) = l2ptbl s" "empty_lun (ctl (put_entity e w s)) = empty_lun (ctl s)"
  "full_lun (ctl (put_entity e w s)) = full_lun (ctl s)"
  "gc_curppa (ctl (put_entity e w s)) = gc_curppa (ctl s)"
  "requeue_wr_bios (ctl (put_entity e w s)) = requeue_wr_bios (ctl s)"
  "partial_entity (ctl (put_entity e w s)) = partial_entity (ctl s)"
  "outstanding_lun (ctl (put_entity e w s)) = outstanding_lun (ctl s)"
  by (simp_all add: put_entity_def)

lemma set_partial_sel [simp]:
  "entities (set_partial p s) = entities s" "sysm (set_partial p s) = sysm s"
  "l2ptbl (set_partial p s) = l2ptbl s" "empty_lun (ctl (set_partial p s)) = empty_lun (ctl s)"
  "full_lun (ctl (set_partial p s)) = full_lun (ctl s)"
  "gc_curppa (ctl (set_partial p s)) = gc_curppa (ctl s)"
  "requeue_wr_bios (ctl (set_partial p s)) = requeue_wr_bios (ctl s)"
  "partial_entity (ctl (set_partial p s)) = p"
  "outstanding_lun (ctl (set_partial p s)) = outstanding_lun (ctl s)"
  by (simp_all add: set_partial_def)

lemma cache_rep_put:
  assumes "cache_rep s E F" and "links w = links (entities s ! e)"
  shows "cache_rep (put_entity e w s) E F"
proof (cases "e < length (entities s)")
  case True
  then have "map links ((entities s)[e := w]) = map links (entities s)"
    using assms(2) by simp
  with assms(1) show ?thesis
    by (auto simp: cache_rep_def intro: lun_rep_links)
next
  case False
  with assms(1) show ?thesis
    by (simp add: cache_rep_def list_update_beyond)
qed

lemma cache_rep_cong:
  assumes "entities s' = entities s" "empty_lun (ctl s') = empty_lun (ctl s)"
    "full_lun (ctl s') = full_lun (ctl s)"
  shows "cache_rep s' E F = cache_rep s E F"
  using assms by (simp add: cache_rep_def)

section \<open>The odometer of base addresses\<close>

text \<open>
  The raid LUNs of one raid block are numbered page by page: \<open>stripe\<close> counts LUN within page, and
  a base address is aligned when channel, sector and plane are 0.
\<close>

definition stripe :: "geo_ppa \<Rightarrow> nat" where
  "stripe b = 8 * unat (ppa_pg b) + unat (ppa_lun b)"

definition LAST_STRIPE :: nat where [simp]: "LAST_STRIPE = 8 * 512 - 1"

lemma field_bounds:
  "unat (ppa_lun b) < 8" "unat (ppa_pg b) < 512" "unat (ppa_blk b) < 4096" "unat (ppa_ch b) < 16"
  "unat (ppa_sec b) < 4" "unat (ppa_pl b) < 2"
  using bf_get_less [of 3 7 b] bf_get_less [of 9 10 b] bf_get_less [of 12 19 b]
    bf_get_less [of 4 0 b] bf_get_less [of 2 4 b] bf_get_less [of 1 6 b]
  by (simp_all add: ppa_get_defs)

lemma stripe_bound: "stripe b \<le> LAST_STRIPE"
  using field_bounds [of b] by (simp add: stripe_def)

definition base_of :: "geo_ppa \<Rightarrow> u8 \<Rightarrow> u16 \<Rightarrow> u16 \<Rightarrow> geo_ppa" where
  "base_of p lun pg blk = set_blk (ucast blk) (set_pg (ucast pg) (set_lun (ucast lun)
     (set_pl 0 (set_sec 0 (set_ch 0 p)))))"

lemma base_of_fields:
  "ppa_lun (base_of p lun pg blk) = take_bit 3 (ucast lun)"
  "ppa_pg (base_of p lun pg blk) = take_bit 9 (ucast pg)"
  "ppa_blk (base_of p lun pg blk) = take_bit 12 (ucast blk)"
  "ppa_in_cache (base_of p lun pg blk) = ppa_in_cache p"
  by (simp_all add: base_of_def ppa_defs bf_simps)

lemma lun_aligned_base_of [simp]: "lun_aligned (base_of p lun pg blk)"
proof -
  have "\<not> bit (base_of p lun pg blk) i" if "i < 7" for i
    using that by (auto simp: base_of_def ppa_defs bit_bf_set)
  then show ?thesis
    unfolding lun_aligned_def by (intro bit_word_eqI) (auto simp: bit_simps)
qed

lemma unat_ucast_small: "unat (x :: 'a::len word) < 2 ^ LENGTH('b::len) \<Longrightarrow> unat (ucast x :: 'b word) = unat x"
  by (simp add: unsigned_ucast_eq take_bit_nat_eq_self)

lemma unat_ucast_wide: "LENGTH('a::len) \<le> LENGTH('b::len) \<Longrightarrow> unat (ucast (x :: 'a word) :: 'b word) = unat x"
  by (rule unat_ucast_small, rule less_le_trans [OF unsigned_less]) (simp add: power_increasing)

lemma incre_bounded_spec:
  fixes n :: "'w::len word"
  assumes "unat n < 2 ^ bits" and "(2::nat) ^ bits < 2 ^ LENGTH('w)"
  shows "incre_bounded bits n = (if unat n = 2 ^ bits - 1 then (0, True) else (n + 1, False))"
    and "unat (n + 1) = Suc (unat n)"
proof -
  have "unat (- 1 :: 'w word) = 2 ^ LENGTH('w) - 1"
    by (simp add: unsigned_minus_1_eq_mask mask_eq_exp_minus_1)
  then have "unat n \<noteq> unat (- 1 :: 'w word)"
    using assms by linarith
  then have "n \<noteq> - 1"
    by blast
  then show u: "unat (n + 1) = Suc (unat n)"
    by (rule word_Suc_unat)
  show "incre_bounded bits n = (if unat n = 2 ^ bits - 1 then (0, True) else (n + 1, False))"
    using assms(1) by (auto simp: incre_bounded_def Let_def u)
qed

lemma next_baddr_unfold:
  fixes p :: geo_ppa
  defines "lun \<equiv> (ucast (ppa_lun p) :: u8)" and "pg \<equiv> (ucast (ppa_pg p) :: u16)"
  shows "get_next_entity_baddr m p =
    (if unat (ppa_lun p) < 7 then Some (base_of p (lun + 1) pg (ucast (ppa_blk p)), m)
     else if unat (ppa_pg p) < 511 then Some (base_of p 0 (pg + 1) (ucast (ppa_blk p)), m)
     else do { (b, m) \<leftarrow> get_blk_from_free_list m; Some (base_of p 0 0 (ucast b), m) })"
    and "unat (lun + 1) = Suc (unat (ppa_lun p))" "unat (pg + 1) = Suc (unat (ppa_pg p))"
    and "unat pg = unat (ppa_pg p)"
proof -
  have u: "unat lun = unat (ppa_lun p)" "unat pg = unat (ppa_pg p)"
    using field_bounds [of p] by (simp_all add: lun_def pg_def unat_ucast_small)
  have l: "incre_bounded 3 lun = (if unat (ppa_lun p) < 7 then (lun + 1, False) else (0, True))"
      "unat (lun + 1) = Suc (unat (ppa_lun p))"
    using incre_bounded_spec [of lun 3] u field_bounds(1) [of p] by auto
  have g: "incre_bounded 9 pg = (if unat (ppa_pg p) < 511 then (pg + 1, False) else (0, True))"
      "unat (pg + 1) = Suc (unat (ppa_pg p))"
    using incre_bounded_spec [of pg 9] u field_bounds(2) [of p] by auto
  show "unat (lun + 1) = Suc (unat (ppa_lun p))" "unat (pg + 1) = Suc (unat (ppa_pg p))"
      "unat pg = unat (ppa_pg p)"
    by (fact l(2) g(2) u(2))+
  show "get_next_entity_baddr m p =
    (if unat (ppa_lun p) < 7 then Some (base_of p (lun + 1) pg (ucast (ppa_blk p)), m)
     else if unat (ppa_pg p) < 511 then Some (base_of p 0 (pg + 1) (ucast (ppa_blk p)), m)
     else do { (b, m) \<leftarrow> get_blk_from_free_list m; Some (base_of p 0 0 (ucast b), m) })"
    using l(1) g(1)
    by (cases "get_blk_from_free_list m")
      (auto simp: get_next_entity_baddr_def get_ppa_each_region_def lun_def [symmetric] pg_def [symmetric]
        if_carry_incre_bounded_def base_of_def)
qed

lemma unat_take_bit_small: "unat w < 2 ^ n \<Longrightarrow> unat (take_bit n w) = unat w"
  by (simp add: unsigned_take_bit_eq take_bit_nat_eq_self)

text \<open>Within a raid block the base addresses run through the stripes one by one.\<close>

lemma next_baddr_step:
  assumes "stripe p < LAST_STRIPE"
  shows "\<exists>b. get_next_entity_baddr m p = Some (b, m) \<and> stripe b = Suc (stripe p) \<and>
    ppa_blk b = ppa_blk p \<and> lun_aligned b \<and> ppa_in_cache b = ppa_in_cache p"
proof -
  note u = next_baddr_unfold(1) [of m p] next_baddr_unfold(2-4) [of p]
  have blk: "take_bit 12 (ucast (ucast (ppa_blk p) :: u16) :: u32) = ppa_blk p"
    using field_bounds(3) [of p]
    by (simp add: word_unat_eq_iff unat_take_bit_small unat_ucast_wide unat_ucast_small)
  show ?thesis
  proof (cases "unat (ppa_lun p) < 7")
    case True
    with u field_bounds(2) [of p] show ?thesis
      by (simp add: stripe_def base_of_fields blk unat_take_bit_small unat_ucast_wide)
  next
    case False
    then have "unat (ppa_lun p) = 7" "unat (ppa_pg p) < 511"
      using assms field_bounds(1,2) [of p] by (auto simp: stripe_def)
    with u show ?thesis
      by (simp add: stripe_def base_of_fields blk unat_take_bit_small unat_ucast_wide)
  qed
qed

text \<open>After the last stripe of a block the next free raid block is opened at stripe 0.\<close>

lemma next_baddr_carry:
  assumes "stripe p = LAST_STRIPE" and "get_blk_from_free_list m = Some (of_nat x, m')" and "x < CFG_NAND_BLOCK_NUM"
  shows "\<exists>b. get_next_entity_baddr m p = Some (b, m') \<and> stripe b = 0 \<and>
    unat (ppa_blk b) = x \<and> lun_aligned b \<and> ppa_in_cache b = ppa_in_cache p"
proof -
  have "\<not> unat (ppa_lun p) < 7" "\<not> unat (ppa_pg p) < 511"
    using assms(1) field_bounds(1,2) [of p] unfolding stripe_def LAST_STRIPE_def by linarith+
  moreover have "unat (take_bit 12 (ucast (ucast (of_nat x :: u32) :: u16) :: u32)) = x"
    using assms(3) by (simp add: unat_take_bit_small unat_ucast_wide ucast_node)
  ultimately show ?thesis
    using next_baddr_unfold(1) [of m p] assms(2)
    by (simp add: stripe_def base_of_fields)
qed

text \<open>Both cases over the list of free blocks; an empty pool yields block 0.\<close>

definition next_base :: "nat list \<Rightarrow> geo_ppa \<Rightarrow> nat list \<Rightarrow> geo_ppa \<Rightarrow> bool" where
  "next_base B p B' b \<longleftrightarrow> lun_aligned b \<and> ppa_in_cache b = ppa_in_cache p \<and>
     (if stripe p < LAST_STRIPE then B' = B \<and> stripe b = Suc (stripe p) \<and> ppa_blk b = ppa_blk p
      else B' = tl B \<and> stripe b = 0 \<and> unat (ppa_blk b) = (if B = [] then 0 else hd B))"

lemma next_baddr_ok:
  assumes "pool_rep (free_pool m) B"
  shows "\<exists>b m'. get_next_entity_baddr m p = Some (b, m') \<and> vpctbl m' = vpctbl m \<and>
    (\<exists>B'. pool_rep (free_pool m') B' \<and> next_base B p B' b)"
proof (cases "stripe p < LAST_STRIPE")
  case True
  then show ?thesis
    using next_baddr_step [of p m] assms by (auto simp: next_base_def)
next
  case False
  then have last: "stripe p = LAST_STRIPE"
    using stripe_bound [of p] by simp
  show ?thesis
  proof (cases B)
    case Nil
    then have "get_blk_from_free_list m = Some (of_nat 0, m)"
      using assms get_blk_from_free_list_nil by simp
    with next_baddr_carry [OF last this] Nil False assms show ?thesis
      by (auto simp: next_base_def)
  next
    case (Cons x xs)
    then obtain m' where m': "get_blk_from_free_list m = Some (of_nat x, m')" "pool_rep (free_pool m') xs"
        "vpctbl m' = vpctbl m" "x < CFG_NAND_BLOCK_NUM"
      using get_blk_from_free_list_Cons [of m x xs] assms by blast
    with next_baddr_carry [OF last m'(1)] Cons False show ?thesis
      by (auto simp: next_base_def)
  qed
qed

lemma next_base_blk: "pool_rep (tbl, f) B \<Longrightarrow> next_base B p B' b \<Longrightarrow> unat (ppa_blk p) < 128 \<Longrightarrow>
    unat (ppa_blk b) < 128"
  using bl.linked_bound [of tbl "fifo_head f" "fifo_tail f" B "hd B"]
  by (auto simp: next_base_def pool_rep_def split: if_splits)

section \<open>Taking the next entity\<close>

definition fresh_entity :: "geo_ppa \<Rightarrow> wcb_lun_entity \<Rightarrow> wcb_lun_entity" where
  "fresh_entity b w = w\<lparr>we_baddr := b, we_pos := 0, we_cqe_flag := 0, we_fill_cnt := 0\<rparr>"

lemma payload_fresh: "payload v = payload w \<Longrightarrow> payload (fresh_entity b v) = payload (fresh_entity b w)"
  by (cases v; cases w; simp add: payload_def fresh_entity_def)

lemma get_next_lun_entity_ok:
  assumes c: "cache_rep s (x # E) F" and b: "get_next_entity_baddr (sysm s) p = Some (b, m')"
  shows "\<exists>s'. get_next_lun_entity s p = Some (Some x, s') \<and> cache_rep s' E F \<and> sysm s' = m' \<and>
    partial_entity (ctl s') = Some x \<and> l2ptbl s' = l2ptbl s \<and>
    requeue_wr_bios (ctl s') = requeue_wr_bios (ctl s) \<and>
    outstanding_lun (ctl s') = outstanding_lun (ctl s) \<and>
    (\<forall>i < 16. payload (entities s' ! i) =
       payload (if i = x then fresh_entity b (entities s ! x) else entities s ! i))"
proof -
  obtain s1 where s1: "pull_empty s = Some (Some x, s1)" "cache_rep s1 E F" "same_rest s s1" "x < 16"
    using pull_empty_ok [OF c] by blast
  have len: "length (entities s) = 16" "length (entities s1) = 16"
    using cache_rep_length c s1(2) by blast+
  let ?s2 = "put_entity x (fresh_entity b (entities s1 ! x)) s1"
  have r: "cache_rep ?s2 E F"
    using s1(2) by (rule cache_rep_put) (simp add: links_def fresh_entity_def)
  have p: "payload (entities s1 ! i) = payload (entities s ! i)" if "i < 16" for i
    using same_rest_nth [OF s1(3)] that len by simp
  have g: "get_next_lun_entity s p = Some (Some x, set_partial (Some x) (?s2\<lparr>sysm := m'\<rparr>))"
    using s1 len b by (simp add: get_next_lun_entity_def same_rest_def fresh_entity_def Let_def)
  show ?thesis
    unfolding g using r s1(3,4) p len
    by (auto simp: same_rest_def cache_rep_def nth_list_update intro: payload_fresh)
qed


section \<open>Properties\<close>

fun baddr_iter :: "nat \<Rightarrow> sysmeta \<Rightarrow> geo_ppa \<Rightarrow> (geo_ppa \<times> sysmeta) option" where
  "baddr_iter 0 m p = Some (p, m)"
| "baddr_iter (Suc n) m p = do { (p, m) \<leftarrow> baddr_iter n m p; get_next_entity_baddr m p }"

lemma Suc_mod_div:
  "(Suc n) mod 4096 = (if n mod 4096 < 4095 then Suc (n mod 4096) else 0)"
  "(Suc n) div 4096 = (if n mod 4096 < 4095 then n div 4096 else Suc (n div 4096))"
  using mod_less_divisor [of 4096 n] by (auto simp: mod_Suc div_Suc)

text \<open>C15: Base addresses visit every raid LUN of the open blocks once, in order. Starting at the
  first LUN of a raid block, the n-th call of \<open>get_next_entity_baddr\<close> yields the raid LUN with
  number \<open>n mod 4096\<close> (8 LUNs of each of 512 pages) in the block that is \<open>n div 4096\<close> places down
  the free list; blocks leave the free list one by one, exactly when the open block is used up.\<close>

theorem baddr_order:
  assumes "pool_rep (free_pool m) B" and "stripe p = 0" and "n div 4096 \<le> length B"
  shows "\<exists>b m'. baddr_iter n m p = Some (b, m') \<and> stripe b = n mod 4096 \<and>
    unat (ppa_blk b) = (unat (ppa_blk p) # B) ! (n div 4096) \<and>
    ppa_in_cache b = ppa_in_cache p \<and> (n > 0 \<longrightarrow> lun_aligned b) \<and>
    pool_rep (free_pool m') (drop (n div 4096) B)"
  using assms(3)
proof (induction n)
  case 0
  then show ?case
    using assms by simp
next
  case (Suc n)
  then have n: "n div 4096 \<le> length B"
    by (metis div_le_mono le_SucI le_refl le_trans)
  with Suc.IH obtain b m1 where b: "baddr_iter n m p = Some (b, m1)" "stripe b = n mod 4096"
      "unat (ppa_blk b) = (unat (ppa_blk p) # B) ! (n div 4096)" "ppa_in_cache b = ppa_in_cache p"
      "pool_rep (free_pool m1) (drop (n div 4096) B)"
    by blast
  obtain c m2 B' where c: "get_next_entity_baddr m1 b = Some (c, m2)" "pool_rep (free_pool m2) B'"
      "next_base (drop (n div 4096) B) b B' c"
    using next_baddr_ok [OF b(5)] by blast
  have it: "baddr_iter (Suc n) m p = Some (c, m2)"
    using b(1) c(1) by simp
  show ?case
  proof (cases "n mod 4096 < 4095")
    case True
    then have "B' = drop (n div 4096) B" "stripe c = Suc (n mod 4096)" "ppa_blk c = ppa_blk b"
        "lun_aligned c" "ppa_in_cache c = ppa_in_cache b"
      using c(3) b(2) by (simp_all add: next_base_def)
    with True it c(2) b(3,4) show ?thesis
      by (simp add: Suc_mod_div del: baddr_iter.simps)
  next
    case False
    then have d: "Suc n div 4096 = Suc (n div 4096)" "Suc n mod 4096 = 0"
      by (simp_all add: Suc_mod_div)
    have "drop (n div 4096) B \<noteq> []"
      using Suc.prems d(1) by simp
    then have "B' = drop (Suc (n div 4096)) B" "stripe c = 0" "unat (ppa_blk c) = B ! (n div 4096)"
        "lun_aligned c" "ppa_in_cache c = ppa_in_cache b"
      using c(3) b(2) False by (simp_all add: next_base_def hd_drop_conv_nth drop_Suc tl_drop)
    with it c(2) b(4) d show ?thesis
      by (simp del: baddr_iter.simps)
  qed
qed

theorem baddr_order_witness:
  "\<exists>m b m'. insert_blks sysmeta_initial [9] = Some m \<and> baddr_iter 5000 m (set_blk 4 0) = Some (b, m') \<and>
     stripe b = 904 \<and> unat (ppa_blk b) = 9"
proof -
  obtain m where m: "insert_blks sysmeta_initial [9] = Some m" "pool_rep (free_pool m) [9]"
    using fl.push_all_ok [OF pool_rep_init, of "[9]"] unfolding insert_blks_push_all by auto
  have "stripe (set_blk 4 0) = 0"
    by (simp add: stripe_def ppa_defs bf_simps)
  with baddr_order [OF m(2), of "set_blk 4 0" 5000] m(1) show ?thesis
    by auto
qed

fun push_entities :: "wcb_lun_entity list \<times> fsc_fifo \<Rightarrow> nat list \<Rightarrow> (wcb_lun_entity list \<times> fsc_fifo) option" where
  "push_entities s [] = Some s"
| "push_entities s (x # xs) = do { s \<leftarrow> push_lun_entity_to_fifo (fst s) (snd s) x; push_entities s xs }"

fun pull_entities :: "nat \<Rightarrow> wcb_lun_entity list \<times> fsc_fifo \<Rightarrow> (nat list \<times> wcb_lun_entity list \<times> fsc_fifo) option" where
  "pull_entities 0 s = Some ([], s)"
| "pull_entities (Suc n) s = do {
     (x, s) \<leftarrow> pull_lun_entity_from_fifo (fst s) (snd s);
     x \<leftarrow> x;
     (xs, s) \<leftarrow> pull_entities n s;
     Some (x # xs, s)
   }"

lemma lun_push_op_eq: "push_lun_entity_to_fifo (fst s) (snd s) x = lun_push_op s x"
  by (simp add: lun_push_op_def split_beta)

lemma push_entities_all: "push_entities s xs = eq.push_all s xs"
  by (induction xs arbitrary: s) (simp_all add: lun_push_op_eq)

lemma pull_entities_ok:
  "lun_rep s (xs @ ys) \<Longrightarrow> \<exists>s'. pull_entities (length xs) s = Some (xs, s') \<and> lun_rep s' ys"
proof (induction xs arbitrary: s)
  case (Cons x xs)
  then obtain s1 where "pull_lun_entity_from_fifo (fst s) (snd s) = Some (Some x, s1)" "lun_rep s1 (xs @ ys)"
    using eq.pull_ok [of s x "xs @ ys"] by (auto simp: lun_pull_op_def split_beta)
  with Cons.IH [of s1] show ?case
    by auto
qed simp

text \<open>The entity FIFOs of the cache are first in, first out and share the array safely. Pushing
  distinct entities onto an empty FIFO and pulling as many returns them in the same order and leaves
  the FIFO empty.\<close>

theorem entity_fifo_order:
  assumes "lun_rep s []" and "distinct xs" and "\<forall>x \<in> set xs. x < CB_ENTITYS_CNT"
  shows "\<exists>s1 s2. push_entities s xs = Some s1 \<and> pull_entities (length xs) s1 = Some (xs, s2) \<and> lun_rep s2 []"
proof -
  obtain s1 where "push_entities s xs = Some s1" "lun_rep s1 xs"
    using eq.push_all_ok [of s "[]" xs] assms unfolding push_entities_all by auto
  with pull_entities_ok [of s1 xs "[]"] show ?thesis
    by auto
qed

definition numbered_entities :: "wcb_lun_entity list" where
  "numbered_entities = map (\<lambda>i. entity_zero\<lparr>we_index := of_nat i\<rparr>) [0..<CB_ENTITYS_CNT]"

theorem entity_fifo_order_witness:
  "\<exists>s1 s2. push_entities (numbered_entities, fsc_fifo_init) [4, 0, 15] = Some s1 \<and>
     pull_entities 3 s1 = Some ([4, 0, 15], s2)"
proof -
  have "lun_rep (numbered_entities, fsc_fifo_init) []"
    by (simp add: lun_rep_def entity_array_def numbered_entities_def fsc_fifo_init_def)
  from entity_fifo_order [OF this, of "[4, 0, 15]"] show ?thesis
    by (auto simp: numeral_3_eq_3)
qed

text \<open>Running out of entities stops the machine. When the empty FIFO is empty,
  \<open>get_next_lun_entity\<close> clears the pointer to the partial entity and its log routine then
  dereferences it, so the \<open>NULL\<close> return and the context restore its caller has for it are never
  reached.\<close>

theorem next_entity_exhausted:
  assumes "cache_rep s [] F"
  shows "get_next_lun_entity s p = None"
  using assms by (simp add: get_next_lun_entity_def pull_empty_nil print_lun_entitys_fifo_def)

theorem next_entity_exhausted_witness:
  "get_next_lun_entity \<lparr>ctl = \<lparr>gc_curppa = 0, requeue_wr_bios = [], empty_lun = fsc_fifo_init,
     full_lun = fsc_fifo_init, read_lun = [], ongoing_lun = fsc_fifo_init, lun_entitys = numbered_entities,
     partial_entity = Some 3, outstanding_lun = 0\<rparr>, sysm = sysmeta_initial, l2ptbl = l2ptbl_initial\<rparr> 0 = None"
  by (rule next_entity_exhausted [of _ "[]"])
    (simp add: cache_rep_def lun_rep_def entity_array_def numbered_entities_def fsc_fifo_init_def)

end
