(* ===== verification/Bio_Write.thy ===== *)
theory Bio_Write
  imports Wcb_Mngr
begin

text \<open>
  The write data path of the host FTL, \<open>datapath/bio-wr.c\<close> and \<open>namespace.c\<close>: a write bio
  takes slots of the partial raid-LUN entity (\<open>alloc_wcb_core\<close>), its pages are copied there
  (\<open>flush_data_to_wcb\<close>), the logical-to-physical table is set to the cached addresses
  (\<open>set_l2ptbl_write_path\<close>), full entities are submitted line by line (\<open>nvme_wrppa_lun\<close>) and
  return to the empty FIFO when all lines have completed (\<open>wrppa_lun_completion\<close>). A bio that
  finds no room waits in \<open>requeue_wr_bios\<close>.
\<close>

section \<open>Requests\<close>

definition get_bio_slba :: "bio \<Rightarrow> u64" where
  "get_bio_slba b = bi_sector b div of_nat SEC_PER_PPA"

definition get_bio_nppa :: "bio \<Rightarrow> u32" where
  "get_bio_nppa b = bi_size b div of_nat EXP_PPA_SIZE"

text \<open>
  \<open>bio_data\<close> of an exhausted bio points at nothing. \<open>bio_advance\<close> by one page moves the sector
  and the remaining size with the payload.
\<close>

definition bio_data :: "bio \<Rightarrow> page option" where
  "bio_data b = aget (bi_pages b) 0"

definition bio_advance_page :: "bio \<Rightarrow> bio" where
  "bio_advance_page b = b\<lparr>bi_sector := bi_sector b + of_nat SEC_PER_PPA,
     bi_size := bi_size b - of_nat EXP_PPA_SIZE, bi_pages := tl (bi_pages b)\<rparr>"

section \<open>Slots of the write cache\<close>

definition wcb_available :: "ftl \<Rightarrow> int \<Rightarrow> bool option" where
  "wcb_available s nr_ppas = do {
     let emptysize = fifo_size (empty_lun (ctl s));
     let extra = (word_of_int (nr_ppas div 4 + 2) :: u16);
     p \<leftarrow> partial_entity (ctl s);
     w \<leftarrow> aget (entities s) p;
     let left = (of_nat RAID_LUN_SEC_NUM - we_pos w :: u16);
     Some (\<not> (nr_ppas + uint extra \<ge> uint left \<and> emptysize = 0))
   }"

fun wcb_entity_context_restore_loop :: "nat \<Rightarrow> wcb_bio_ctx \<Rightarrow> ftl \<Rightarrow> ftl option" where
  "wcb_entity_context_restore_loop i [] s = Some s"
| "wcb_entity_context_restore_loop i (c # cs) s = (case wc_entitys c of
     None \<Rightarrow> Some s
   | Some e \<Rightarrow> do {
       s \<leftarrow> (if i = 0 then do {
               w \<leftarrow> aget (entities s) e;
               Some (put_entity e (w\<lparr>we_pos := wc_start_pos c\<rparr>) (set_partial (Some e) s))
             } else push_empty s e);
       wcb_entity_context_restore_loop (Suc i) cs s
     })"

definition wcb_entity_context_restore :: "wcb_bio_ctx \<Rightarrow> ftl \<Rightarrow> ftl option" where
  "wcb_entity_context_restore res s = wcb_entity_context_restore_loop 0 res s"

definition ctx_begin :: "nat \<Rightarrow> wcb_lun_entity \<Rightarrow> wcb_ctx" where
  "ctx_begin e w = \<lparr>wc_entitys = Some e, wc_start_pos = we_pos w, wc_end_pos = we_pos w\<rparr>"

text \<open>
  The body of the \<open>USR_DATA\<close> case up to the increment of \<open>pos\<close>, then the loop. The remaining
  length is 32 bits wide and decremented before it is tested.
\<close>

definition take_slot :: "ftl \<Rightarrow> wcb_bio_ctx \<Rightarrow> nat \<Rightarrow> u64 \<Rightarrow> nat \<Rightarrow> geo_ppa \<Rightarrow> (ftl \<times> wcb_bio_ctx \<times> u16) option" where
  "take_slot s res num slba e curppa = do {
     w \<leftarrow> aget (entities s) e;
     lba \<leftarrow> aset (we_lba w) (unat (we_pos w)) (ucast slba);
     ppa \<leftarrow> aset (we_ppa w) (unat (we_pos w)) (ucast curppa);
     res \<leftarrow> amod res num (\<lambda>c. c\<lparr>wc_end_pos := we_pos w\<rparr>);
     let pos = we_pos w + 1;
     Some (put_entity e (w\<lparr>we_lba := lba, we_ppa := ppa, we_pos := pos\<rparr>) s, res, pos)
   }"

partial_function (option) alloc_wcb_loop ::
    "ftl \<Rightarrow> wcb_bio_ctx \<Rightarrow> nat \<Rightarrow> u64 \<Rightarrow> u32 \<Rightarrow> nat \<Rightarrow> geo_ppa \<Rightarrow> (int \<times> ftl \<times> wcb_bio_ctx) option" where
  "alloc_wcb_loop s res num slba left e curppa = (case sys_get_ppa_type curppa of
     USR_DATA \<Rightarrow> do {
       (s, res, pos) \<leftarrow> take_slot s res num slba e curppa;
       if unat pos = RAID_LUN_SEC_NUM then do {
         (next, s) \<leftarrow> get_next_lun_entity s curppa;
         (case next of
            None \<Rightarrow> do {
              s \<leftarrow> wcb_entity_context_restore res s;
              Some (1, s, res)
            }
          | Some e \<Rightarrow>
              if left - 1 = 0 then Some (0, s, res)
              else do {
                w \<leftarrow> aget (entities s) e;
                res \<leftarrow> aset res (Suc num) (ctx_begin e w);
                alloc_wcb_loop s res (Suc num) (slba + 1) (left - 1) e (we_baddr w)
              })
       } else if left - 1 = 0 then Some (0, s, res)
       else alloc_wcb_loop s res num (slba + 1) (left - 1) e (curppa + 1)
     }
   | _ \<Rightarrow> alloc_wcb_loop s res num slba left e curppa)"

definition alloc_wcb_core :: "ftl \<Rightarrow> u64 \<Rightarrow> u32 \<Rightarrow> wcb_bio_ctx \<Rightarrow> (int \<times> ftl \<times> wcb_bio_ctx) option" where
  "alloc_wcb_core s slba nr_ppas res = do {
     e \<leftarrow> partial_entity (ctl s);
     w \<leftarrow> aget (entities s) e;
     res \<leftarrow> aset res 0 (ctx_begin e w);
     alloc_wcb_loop s res 0 slba nr_ppas e (we_baddr w + ucast (we_pos w))
   }"

section \<open>Data and mapping\<close>

text \<open>
  One turn of the inner loop of \<open>flush_data_to_wcb\<close>. The destination is addressed through the
  entity's own index; \<open>fill_cnt\<close> counts the slots copied, and the entity whose last slot is
  copied is handed to the back end.
\<close>

definition flush_slot :: "nat \<Rightarrow> u16 \<Rightarrow> ftl \<times> bio \<Rightarrow> (ftl \<times> bio) option" where
  "flush_slot e pos = (\<lambda>(s, bio). do {
     w \<leftarrow> aget (entities s) e;
     lba \<leftarrow> aget (we_lba w) (unat pos);
     (s, bio) \<leftarrow>
       (if unat lba \<le> MAX_USER_LBA then do {
          src \<leftarrow> bio_data bio;
          d \<leftarrow> aget (entities s) (unat (we_index w));
          dat \<leftarrow> aset (we_data d) (unat pos) src;
          Some (put_entity (unat (we_index w)) (d\<lparr>we_data := dat\<rparr>) s, bio_advance_page bio)
        } else Some (s, bio));
     w \<leftarrow> aget (entities s) e;
     if unat (we_fill_cnt w + 1) = RAID_LUN_SEC_NUM then do {
       s \<leftarrow> push_full (put_entity e (w\<lparr>we_fill_cnt := 0\<rparr>) s) e;
       Some (s, bio)
     } else Some (put_entity e (w\<lparr>we_fill_cnt := we_fill_cnt w + 1\<rparr>) s, bio)
   })"

text \<open>
  The loops \<open>for (pos = bpos; pos <= epos; pos++)\<close>: with 16-bit positions they end when
  \<open>epos\<close> is below \<open>0xffff\<close>; the distance bounds the turns.
\<close>

fun pos_loop :: "nat \<Rightarrow> (u16 \<Rightarrow> 's \<Rightarrow> 's option) \<Rightarrow> u16 \<Rightarrow> 's \<Rightarrow> 's option" where
  "pos_loop 0 f pos s = Some s"
| "pos_loop (Suc n) f pos s = do { s \<leftarrow> f pos s; pos_loop n f (pos + 1) s }"

definition for_pos :: "u16 \<Rightarrow> u16 \<Rightarrow> (u16 \<Rightarrow> 's \<Rightarrow> 's option) \<Rightarrow> 's \<Rightarrow> 's option" where
  "for_pos bpos epos f s = do {
     guard (epos \<noteq> - 1);
     pos_loop (Suc (unat epos) - unat bpos) f bpos s
   }"

fun for_ctx :: "wcb_bio_ctx \<Rightarrow> (nat \<Rightarrow> u16 \<Rightarrow> 's \<Rightarrow> 's option) \<Rightarrow> 's \<Rightarrow> 's option" where
  "for_ctx [] f s = Some s"
| "for_ctx (c # cs) f s = (case wc_entitys c of
     None \<Rightarrow> Some s
   | Some e \<Rightarrow> do { s \<leftarrow> for_pos (wc_start_pos c) (wc_end_pos c) (f e) s; for_ctx cs f s })"

definition flush_data_to_wcb :: "wcb_bio_ctx \<Rightarrow> ftl \<times> bio \<Rightarrow> (ftl \<times> bio) option" where
  "flush_data_to_wcb res = for_ctx res flush_slot"

text \<open>
  \<open>bio_memcpy_wcb\<close>, an earlier form of the inner loop that no one calls: it counts nothing and
  compares with \<open><\<close> where \<open>flush_data_to_wcb\<close> has \<open><=\<close>.
\<close>

definition memcpy_slot :: "nat \<Rightarrow> u16 \<Rightarrow> ftl \<times> bio \<Rightarrow> (ftl \<times> bio) option" where
  "memcpy_slot e pos = (\<lambda>(s, bio). do {
     w \<leftarrow> aget (entities s) e;
     lba \<leftarrow> aget (we_lba w) (unat pos);
     if unat lba < MAX_USER_LBA then do {
       src \<leftarrow> bio_data bio;
       d \<leftarrow> aget (entities s) (unat (we_index w));
       dat \<leftarrow> aset (we_data d) (unat pos) src;
       Some (put_entity (unat (we_index w)) (d\<lparr>we_data := dat\<rparr>) s, bio_advance_page bio)
     } else Some (s, bio)
   })"

definition bio_memcpy_wcb :: "wcb_ctx \<Rightarrow> ftl \<times> bio \<Rightarrow> (ftl \<times> bio) option" where
  "bio_memcpy_wcb c sb = do {
     e \<leftarrow> wc_entitys c;
     for_pos (wc_start_pos c) (wc_end_pos c) (memcpy_slot e) sb
   }"

definition get_l2ptbl_mapping :: "ftl \<Rightarrow> u32 \<Rightarrow> geo_ppa" where
  "get_l2ptbl_mapping s lba = l2ptbl s lba"

definition set_l2ptbl_incache :: "ftl \<Rightarrow> u32 \<Rightarrow> u32 \<Rightarrow> ftl option" where
  "set_l2ptbl_incache s lba ppa = (let update = set_in_cache 1 ppa in
     if unat lba \<le> MAX_USER_LBA then do {
       let prev = get_l2ptbl_mapping s lba;
       vpc \<leftarrow> (if unat (ppa_blk prev) < CFG_NAND_BLOCK_NUM then vpc_dec (vpctbl (sysm s)) prev
              else Some (vpctbl (sysm s)));
       vpc \<leftarrow> vpc_inc vpc update;
       Some (s\<lparr>l2ptbl := (l2ptbl s)(lba := update), sysm := (sysm s)\<lparr>vpctbl := vpc\<rparr>\<rparr>)
     } else Some s)"

definition map_slot :: "nat \<Rightarrow> u16 \<Rightarrow> ftl \<Rightarrow> ftl option" where
  "map_slot e pos s = do {
     w \<leftarrow> aget (entities s) e;
     lba \<leftarrow> aget (we_lba w) (unat pos);
     ppa \<leftarrow> aget (we_ppa w) (unat pos);
     set_l2ptbl_incache s lba (ucast ppa)
   }"

definition set_l2ptbl_write_path :: "wcb_bio_ctx \<Rightarrow> ftl \<Rightarrow> ftl option" where
  "set_l2ptbl_write_path res = for_ctx res map_slot"

section \<open>Processing a write\<close>

datatype bio_ret = FSCFTL_BIO_COMPLETE | FSCFTL_BIO_RESUBMIT

definition process_write_bio :: "ftl \<Rightarrow> bio \<Rightarrow> (bio_ret \<times> ftl \<times> bio) option" where
  "process_write_bio s bio = do {
     let nr_ppas = get_bio_nppa bio;
     let slba = get_bio_slba bio;
     avail \<leftarrow> wcb_available s (sint nr_ppas);
     if avail then do {
       (_, s, res) \<leftarrow> alloc_wcb_core s slba nr_ppas wcb_bio_ctx_zero;
       (s, bio) \<leftarrow> flush_data_to_wcb res (s, bio);
       s \<leftarrow> set_l2ptbl_write_path res s;
       Some (FSCFTL_BIO_COMPLETE, s, bio)
     } else do {
       print_lun_entitys_fifo s;
       Some (FSCFTL_BIO_RESUBMIT, s, bio)
     }
   }"

definition set_requeue :: "bio list \<Rightarrow> ftl \<Rightarrow> ftl" where
  "set_requeue bs s = s\<lparr>ctl := (ctl s)\<lparr>requeue_wr_bios := bs\<rparr>\<rparr>"

text \<open>
  \<open>resubmit_wr_bios_list\<close> returns the bios it completed, in order. The loop may run as long as it
  finds waiting bios.
\<close>

partial_function (option) resubmit_wr_bios_list :: "ftl \<Rightarrow> (bio list \<times> ftl) option" where
  "resubmit_wr_bios_list s = (case requeue_wr_bios (ctl s) of
     [] \<Rightarrow> Some ([], s)
   | bio # bios \<Rightarrow> do {
       (ret, s, bio') \<leftarrow> process_write_bio (set_requeue bios s) bio;
       if ret = FSCFTL_BIO_COMPLETE then do {
         (done, s) \<leftarrow> resubmit_wr_bios_list s;
         Some (bio # done, s)
       } else Some ([], set_requeue (bio' # requeue_wr_bios (ctl s)) s)
     })"

datatype bio_dir = READ_DIR | WRITE_DIR

text \<open>\<open>fscftl_make_rq\<close>: the result tells whether \<open>bio_endio\<close> was called.\<close>

definition fscftl_make_rq :: "ftl \<Rightarrow> bio_dir \<Rightarrow> bio \<Rightarrow> (bool \<times> ftl) option" where
  "fscftl_make_rq s dir bio = (
     if dir = READ_DIR then Some (True, s)
     else if requeue_wr_bios (ctl s) \<noteq> [] then
       Some (False, set_requeue (requeue_wr_bios (ctl s) @ [bio]) s)
     else do {
       (ret, s, bio') \<leftarrow> process_write_bio s bio;
       if ret = FSCFTL_BIO_COMPLETE then Some (True, s)
       else Some (False, set_requeue (bio' # requeue_wr_bios (ctl s)) s)
     })"

section \<open>The back end\<close>

text \<open>A program command of one line: 16 consecutive slots of the entity.\<close>

record line_cmd =
  lc_entity :: nat
  lc_idx :: nat
  lc_nlb :: u16
  lc_ppas :: "u64 list"
  lc_data :: "page list"

definition line_cmd_of :: "nat \<Rightarrow> wcb_lun_entity \<Rightarrow> nat \<Rightarrow> line_cmd" where
  "line_cmd_of e w line =
     \<lparr>lc_entity = e, lc_idx = line, lc_nlb = of_nat (CFG_NAND_CHANNEL_NUM - 1),
      lc_ppas = take CFG_NAND_CHANNEL_NUM (drop (line * CFG_NAND_CHANNEL_NUM) (we_ppa w)),
      lc_data = take CFG_NAND_CHANNEL_NUM (drop (line * CFG_NAND_CHANNEL_NUM) (we_data w))\<rparr>"

definition nvme_wrppa_lun :: "ftl \<Rightarrow> nat \<Rightarrow> (line_cmd list \<times> ftl) option" where
  "nvme_wrppa_lun s e = do {
     w \<leftarrow> aget (entities s) e;
     let s = s\<lparr>ctl := (ctl s)\<lparr>outstanding_lun := outstanding_lun (ctl s) + 1\<rparr>\<rparr>;
     let w = w\<lparr>we_cqe_flag := 0\<rparr>;
     Some (map (line_cmd_of e w) [0..<CFG_DRIVE_LINE_NUM], put_entity e w s)
   }"

definition submit_write_backend :: "ftl \<Rightarrow> (int \<times> line_cmd list \<times> ftl) option" where
  "submit_write_backend s = do {
     (e, s) \<leftarrow> pull_full s;
     (case e of
        None \<Rightarrow> Some (0, [], s)
      | Some e \<Rightarrow> do {
          (cmds, s) \<leftarrow> nvme_wrppa_lun s e;
          Some (1, cmds, s)
        })
   }"

text \<open>The completion of one line; the result tells whether the requeue thread is woken.\<close>

definition wrppa_lun_completion :: "ftl \<Rightarrow> line_cmd \<Rightarrow> (bool \<times> ftl) option" where
  "wrppa_lun_completion s c = (let e = lc_entity c; idx = lc_idx c in do {
     w \<leftarrow> aget (entities s) e;
     let flag = (if BIT_TEST (we_cqe_flag w) idx then we_cqe_flag w else BIT_SET (we_cqe_flag w) idx);
     let s = put_entity e (w\<lparr>we_cqe_flag := flag\<rparr>) s;
     if flag = BIT2MASK CFG_DRIVE_LINE_NUM then do {
       s \<leftarrow> push_empty s e;
       let s = s\<lparr>ctl := (ctl s)\<lparr>outstanding_lun := outstanding_lun (ctl s) - 1\<rparr>\<rparr>;
       Some (requeue_wr_bios (ctl s) \<noteq> [], s)
     } else Some (False, s)
   })"

text \<open>
  \<open>fscftl_yirq_workfn\<close>, the simulated interrupt: every entity of \<open>ongoing_lun\<close> moves to
  \<open>empty_lun\<close>; the result counts the wake-ups of the requeue worker.
\<close>

partial_function (option) fscftl_yirq_workfn :: "ftl \<Rightarrow> (nat \<times> ftl) option" where
  "fscftl_yirq_workfn s = do {
     (e, es, fifo) \<leftarrow> pull_lun_entity_from_fifo (entities s) (ongoing_lun (ctl s));
     let s = s\<lparr>ctl := (ctl s)\<lparr>lun_entitys := es, ongoing_lun := fifo\<rparr>\<rparr>;
     (case e of
        None \<Rightarrow> Some (0, s)
      | Some e \<Rightarrow> do {
          s \<leftarrow> push_empty s e;
          (n, s) \<leftarrow> fscftl_yirq_workfn s;
          Some (Suc n, s)
        })
   }"

end
