(* ===== verification/Write_Alloc.thy ===== *)
theory Write_Alloc
  imports Bio_Write
begin

text \<open>
  What \<open>alloc_wcb_core\<close> does: the slots it hands to a request are the next positions of the
  partial entity and, when that entity is exhausted, of the entity at the head of the empty FIFO.
\<close>

section \<open>Well-formed entities\<close>

definition entity_ok :: "wcb_lun_entity \<Rightarrow> bool" where
  "entity_ok w \<longleftrightarrow> length (we_lba w) = RAID_LUN_SEC_NUM \<and> length (we_ppa w) = RAID_LUN_SEC_NUM \<and>
     length (we_data w) = RAID_LUN_SEC_NUM"

text \<open>The first \<open>n\<close> slots carry the addresses \<open>baddr + 0, baddr + 1, ...\<close>.\<close>

definition slots_ok :: "wcb_lun_entity \<Rightarrow> nat \<Rightarrow> bool" where
  "slots_ok w n \<longleftrightarrow> (\<forall>j < n. we_ppa w ! j = ucast (we_baddr w + of_nat j))"

lemma entity_ok_payload: "payload v = payload w \<Longrightarrow> entity_ok v = entity_ok w"
  using payload_eqD [of v w] by (simp add: entity_ok_def)

lemma slots_ok_payload: "payload v = payload w \<Longrightarrow> slots_ok v n = slots_ok w n"
  using payload_eqD [of v w] by (simp add: slots_ok_def)

lemma slots_ok_mono: "slots_ok w n \<Longrightarrow> m \<le> n \<Longrightarrow> slots_ok w m"
  by (simp add: slots_ok_def)

section \<open>One slot and a run of slots\<close>

definition put_slot :: "u64 \<Rightarrow> geo_ppa \<Rightarrow> wcb_lun_entity \<Rightarrow> wcb_lun_entity" where
  "put_slot slba cur w = w\<lparr>we_lba := (we_lba w)[unat (we_pos w) := ucast slba],
     we_ppa := (we_ppa w)[unat (we_pos w) := ucast cur], we_pos := we_pos w + 1\<rparr>"

primrec fill :: "nat \<Rightarrow> u64 \<Rightarrow> geo_ppa \<Rightarrow> wcb_lun_entity \<Rightarrow> wcb_lun_entity" where
  "fill 0 slba cur w = w"
| "fill (Suc n) slba cur w = fill n (slba + 1) (cur + 1) (put_slot slba cur w)"

lemma fill_Suc_end: "fill (Suc n) slba cur w = put_slot (slba + of_nat n) (cur + of_nat n) (fill n slba cur w)"
proof (induction n arbitrary: slba cur w)
  case (Suc n)
  have "fill (Suc (Suc n)) slba cur w = fill (Suc n) (slba + 1) (cur + 1) (put_slot slba cur w)"
    by simp
  also have "\<dots> = put_slot (slba + 1 + of_nat n) (cur + 1 + of_nat n) (fill n (slba + 1) (cur + 1) (put_slot slba cur w))"
    by (rule Suc)
  finally show ?case
    by (simp add: algebra_simps)
qed simp

lemma fill_same [simp]:
  "we_index (fill n slba cur w) = we_index w" "we_baddr (fill n slba cur w) = we_baddr w"
  "we_data (fill n slba cur w) = we_data w" "we_cqe_flag (fill n slba cur w) = we_cqe_flag w"
  "we_fill_cnt (fill n slba cur w) = we_fill_cnt w" "links (fill n slba cur w) = links w"
  "length (we_lba (fill n slba cur w)) = length (we_lba w)"
  "length (we_ppa (fill n slba cur w)) = length (we_ppa w)"
  by (induction n arbitrary: slba cur w) (simp_all add: put_slot_def links_def)

lemma entity_ok_fill [simp]: "entity_ok (fill n slba cur w) = entity_ok w"
  by (simp add: entity_ok_def)

lemma fill_pos: "we_pos (fill n slba cur w) = we_pos w + of_nat n"
  by (induction n arbitrary: slba cur w) (simp_all add: put_slot_def algebra_simps)

lemma unat_add_pos: "unat (p :: u16) + n \<le> 128 \<Longrightarrow> unat (p + of_nat n) = unat p + n"
  by (simp add: unat_word_ariths unsigned_of_nat take_bit_nat_eq_self)

lemma fill_nth:
  assumes "entity_ok w" and "unat (we_pos w) + n \<le> 128"
  shows "we_lba (fill n slba cur w) ! j =
      (if unat (we_pos w) \<le> j \<and> j < unat (we_pos w) + n
       then ucast (slba + of_nat (j - unat (we_pos w))) else we_lba w ! j)"
    and "we_ppa (fill n slba cur w) ! j =
      (if unat (we_pos w) \<le> j \<and> j < unat (we_pos w) + n
       then ucast (cur + of_nat (j - unat (we_pos w))) else we_ppa w ! j)"
  using assms
proof (induction n)
  case 0
  { case 1 then show ?case by auto }
  { case 2 then show ?case by auto }
next
  case (Suc n)
  { case 1
    then have "unat (we_pos (fill n slba cur w)) = unat (we_pos w) + n"
      by (simp add: fill_pos unat_add_pos)
    with 1 Suc(1) show ?case
      unfolding fill_Suc_end by (auto simp: put_slot_def nth_list_update entity_ok_def) }
  { case 2
    then have "unat (we_pos (fill n slba cur w)) = unat (we_pos w) + n"
      by (simp add: fill_pos unat_add_pos)
    with 2 Suc(2) show ?case
      unfolding fill_Suc_end by (auto simp: put_slot_def nth_list_update entity_ok_def) }
qed

lemma slots_ok_fill:
  assumes "entity_ok w" "slots_ok w (unat (we_pos w))" "unat (we_pos w) + n \<le> 128"
  shows "slots_ok (fill n slba (we_baddr w + ucast (we_pos w)) w) (unat (we_pos w) + n)"
proof -
  have u: "ucast (we_pos w) + of_nat (j - unat (we_pos w)) = (of_nat j :: u32)"
    if "unat (we_pos w) \<le> j" for j
    using that by (metis le_add_diff_inverse of_nat_add of_nat_unat)
  show ?thesis
    unfolding slots_ok_def
  proof (intro allI impI)
    fix j assume "j < unat (we_pos w) + n"
    then show "we_ppa (fill n slba (we_baddr w + ucast (we_pos w)) w) ! j =
        ucast (we_baddr (fill n slba (we_baddr w + ucast (we_pos w)) w) + of_nat j)"
      using assms by (auto simp: fill_nth u slots_ok_def add.assoc)
  qed
qed

section \<open>The allocation loop\<close>

lemma unat_pos_Suc: "unat (p :: u16) < 128 \<Longrightarrow> unat (p + 1) = Suc (unat p)"
  using unat_add_pos [of p 1] by simp

lemma take_slot_ok:
  assumes "e < length (entities s)" "entity_ok (entities s ! e)" "unat (we_pos (entities s ! e)) < 128"
    and "num < length res"
  shows "take_slot s res num slba e cur =
    Some (put_entity e (put_slot slba cur (entities s ! e)) s,
      res[num := (res ! num)\<lparr>wc_end_pos := we_pos (entities s ! e)\<rparr>], we_pos (entities s ! e) + 1)"
  using assms by (simp add: take_slot_def put_slot_def entity_ok_def Let_def)

lemma alloc_step_in:
  assumes "e < length (entities s)" "entity_ok (entities s ! e)" "unat (we_pos (entities s ! e)) < 127"
    and "num < length res"
  shows "alloc_wcb_loop s res num slba left e cur =
    (let s' = put_entity e (put_slot slba cur (entities s ! e)) s;
         res' = res[num := (res ! num)\<lparr>wc_end_pos := we_pos (entities s ! e)\<rparr>]
     in if left - 1 = 0 then Some (0, s', res')
        else alloc_wcb_loop s' res' num (slba + 1) (left - 1) e (cur + 1))"
proof -
  have "unat (we_pos (entities s ! e) + 1) = Suc (unat (we_pos (entities s ! e)))"
    using assms(3) by (intro unat_pos_Suc) simp
  then show ?thesis
    using assms
    by (subst alloc_wcb_loop.simps) (simp add: sys_get_ppa_type_def take_slot_ok Let_def)
qed

lemma put_entity_twice [simp]: "put_entity e v (put_entity e w s) = put_entity e v s"
  by (simp add: put_entity_def)

lemma put_entity_self [simp]: "e < length (entities s) \<Longrightarrow> put_entity e (entities s ! e) s = s"
  by (simp add: put_entity_def)

lemma alloc_run:
  assumes "e < length (entities s)" "entity_ok (entities s ! e)" "num < length res"
    and "unat (we_pos (entities s ! e)) + n < 128" "n < unat left"
  shows "alloc_wcb_loop s res num slba left e cur =
    alloc_wcb_loop (put_entity e (fill n slba cur (entities s ! e)) s)
      (if n = 0 then res else res[num := (res ! num)\<lparr>wc_end_pos := we_pos (entities s ! e) + of_nat (n - 1)\<rparr>])
      num (slba + of_nat n) (left - of_nat n) e (cur + of_nat n)"
  using assms(4,5)
proof (induction n)
  case 0
  then show ?case using assms(1) by simp
next
  case (Suc n)
  let ?w = "entities s ! e"
  let ?s = "put_entity e (fill n slba cur ?w) s"
  let ?res = "if n = 0 then res else res[num := (res ! num)\<lparr>wc_end_pos := we_pos ?w + of_nat (n - 1)\<rparr>]"
  have w: "entities ?s ! e = fill n slba cur ?w" "unat (we_pos (entities ?s ! e)) = unat (we_pos ?w) + n"
    using assms(1) Suc.prems by (simp_all add: fill_pos unat_add_pos)
  have left: "left - of_nat n - 1 \<noteq> 0"
  proof
    assume "left - of_nat n - 1 = 0"
    then have "left = of_nat (Suc n)" by (simp add: algebra_simps)
    moreover have "Suc n < 2 ^ LENGTH(32)"
      using Suc.prems(2) unsigned_less [of left] by (rule less_trans)
    ultimately have "unat left = Suc n"
      by (metis unat_of_nat_small)
    with Suc.prems show False by simp
  qed
  have "alloc_wcb_loop s res num slba left e cur =
      alloc_wcb_loop ?s ?res num (slba + of_nat n) (left - of_nat n) e (cur + of_nat n)"
    using Suc by simp
  also have "\<dots> = alloc_wcb_loop (put_entity e (put_slot (slba + of_nat n) (cur + of_nat n) (fill n slba cur ?w)) s)
      (?res[num := (?res ! num)\<lparr>wc_end_pos := we_pos ?w + of_nat n\<rparr>]) num
      (slba + of_nat n + 1) (left - of_nat n - 1) e (cur + of_nat n + 1)"
    using assms Suc.prems w left by (subst alloc_step_in) (simp_all add: Let_def fill_pos)
  finally show ?case
    using assms(3) by (simp add: fill_Suc_end [symmetric] algebra_simps del: fill.simps)
qed

section \<open>The contexts of a request\<close>

definition ctx :: "nat \<Rightarrow> u16 \<Rightarrow> nat \<Rightarrow> wcb_ctx" where
  "ctx e pos n = \<lparr>wc_entitys = Some e, wc_start_pos = pos, wc_end_pos = pos + of_nat (n - 1)\<rparr>"

lemma alloc_finish:
  assumes "e < length (entities s)" "entity_ok (entities s ! e)" "num < length res"
    and "res ! num = ctx_begin e (entities s ! e)"
    and "unat (we_pos (entities s ! e)) + n < 128" "0 < n" "unat left = n"
  shows "alloc_wcb_loop s res num slba left e cur =
    Some (0, put_entity e (fill n slba cur (entities s ! e)) s, res[num := ctx e (we_pos (entities s ! e)) n])"
proof -
  obtain m where m: "n = Suc m" using assms(6) by (cases n) auto
  have "left - of_nat m - 1 = 0"
    using assms(7) m by (metis add_diff_cancel_left' diff_diff_add of_nat_Suc of_nat_unat ucast_id diff_self add.commute)
  moreover have "unat (we_pos (fill m slba cur (entities s ! e))) = unat (we_pos (entities s ! e)) + m"
    using assms(5) m by (simp add: fill_pos unat_add_pos)
  ultimately show ?thesis
    using assms m
    by (subst alloc_run [of e s num res m]) (simp_all add: alloc_step_in Let_def fill_Suc_end ctx_def ctx_begin_def
      fill_pos del: fill.simps)
qed

lemma alloc_in:
  assumes "partial_entity (ctl s) = Some p" "p < length (entities s)" "entity_ok (entities s ! p)"
    and "unat (we_pos (entities s ! p)) + unat nr < 128" "0 < unat nr"
  defines "w \<equiv> entities s ! p"
  shows "alloc_wcb_core s slba nr wcb_bio_ctx_zero =
    Some (0, put_entity p (fill (unat nr) slba (we_baddr w + ucast (we_pos w)) w) s,
      [ctx p (we_pos w) (unat nr), wcb_ctx_zero, wcb_ctx_zero])"
  using assms
  by (simp add: alloc_wcb_core_def alloc_finish wcb_bio_ctx_zero_def numeral_3_eq_3)

lemma alloc_step_cross:
  assumes "e < length (entities s)" "entity_ok (entities s ! e)" "unat (we_pos (entities s ! e)) = 127"
    and "num < length res"
    and "get_next_lun_entity (put_entity e (put_slot slba cur (entities s ! e)) s) cur = Some (Some x, t)"
  shows "alloc_wcb_loop s res num slba left e cur =
    (let res' = res[num := (res ! num)\<lparr>wc_end_pos := we_pos (entities s ! e)\<rparr>]
     in if left - 1 = 0 then Some (0, t, res')
        else do {
          w \<leftarrow> aget (entities t) x;
          res' \<leftarrow> aset res' (Suc num) (ctx_begin x w);
          alloc_wcb_loop t res' (Suc num) (slba + 1) (left - 1) x (we_baddr w)
        })"
proof -
  have "unat (we_pos (entities s ! e) + 1) = 128"
    using unat_pos_Suc [of "we_pos (entities s ! e)"] assms(3) by simp
  then show ?thesis
    using assms
    by (subst alloc_wcb_loop.simps) (simp add: sys_get_ppa_type_def take_slot_ok Let_def)
qed

lemma alloc_cross:
  assumes pe: "partial_entity (ctl s) = Some p" "p < length (entities s)" "entity_ok (entities s ! p)"
  defines "w \<equiv> entities s ! p"
  defines "cur \<equiv> we_baddr w + ucast (we_pos w)" and "k \<equiv> 128 - unat (we_pos w)"
  assumes k: "unat (we_pos w) < 128" "k \<le> unat nr" "unat nr \<le> 128"
    and nx: "get_next_lun_entity (put_entity p (fill k slba cur w) s) (cur + of_nat (k - 1)) = Some (Some x, s2)"
    and x: "x < length (entities s2)" "entity_ok (entities s2 ! x)" "we_pos (entities s2 ! x) = 0"
  shows "alloc_wcb_core s slba nr wcb_bio_ctx_zero =
    Some (0, if unat nr = k then s2
             else put_entity x (fill (unat nr - k) (slba + of_nat k) (we_baddr (entities s2 ! x)) (entities s2 ! x)) s2,
      [ctx p (we_pos w) k, if unat nr = k then wcb_ctx_zero else ctx x 0 (unat nr - k), wcb_ctx_zero])"
proof -
  obtain m where m: "k = Suc m" "unat (we_pos w) + m = 127"
    using k(1) by (cases k) (auto simp: k_def)
  let ?res = "[ctx p (we_pos w) (Suc m), wcb_ctx_zero, wcb_ctx_zero]"
  have start: "alloc_wcb_core s slba nr wcb_bio_ctx_zero = alloc_wcb_loop s
      [ctx_begin p w, wcb_ctx_zero, wcb_ctx_zero] 0 slba nr p cur"
    using pe by (simp add: alloc_wcb_core_def wcb_bio_ctx_zero_def numeral_3_eq_3 w_def cur_def)
  have left: "unat (nr - of_nat m) = unat nr - m" "unat (nr - of_nat m - 1) = unat nr - k"
  proof -
    have "of_nat m \<le> nr"
      using k m by (simp add: word_le_nat_alt unsigned_of_nat take_bit_nat_eq_self)
    then show u: "unat (nr - of_nat m) = unat nr - m"
      using k(3) m by (simp add: unat_sub unsigned_of_nat take_bit_nat_eq_self)
    have "nr - of_nat m \<noteq> 0"
      using u k(2) m by auto
    then show "unat (nr - of_nat m - 1) = unat nr - k"
      using u m by (simp add: unat_pred)
  qed
  have last: "alloc_wcb_core s slba nr wcb_bio_ctx_zero =
      (if nr - of_nat m - 1 = 0 then Some (0, s2, ?res)
       else do {
         v \<leftarrow> aget (entities s2) x;
         res' \<leftarrow> aset ?res 1 (ctx_begin x v);
         alloc_wcb_loop s2 res' 1 (slba + of_nat m + 1) (nr - of_nat m - 1) x (we_baddr v)
       })"
    unfolding start using pe m k nx
    by (subst alloc_run [of p s 0 _ m])
      (auto simp: alloc_step_cross [where x = x and t = s2] w_def [symmetric] fill_pos unat_add_pos Let_def
        fill_Suc_end ctx_def ctx_begin_def simp del: fill.simps)
  have z: "nr - of_nat m - 1 = 0 \<longleftrightarrow> unat nr = k"
    using left(2) k(2) by (auto simp: unat_eq_zero [symmetric])
  show ?thesis
  proof (cases "unat nr = k")
    case True
    with last z m(1) show ?thesis by simp
  next
    case False
    have "alloc_wcb_loop s2 (?res[1 := ctx_begin x (entities s2 ! x)]) 1 (slba + of_nat m + 1)
        (nr - of_nat m - 1) x (we_baddr (entities s2 ! x)) =
      Some (0, put_entity x (fill (unat nr - k) (slba + of_nat m + 1) (we_baddr (entities s2 ! x)) (entities s2 ! x)) s2,
        (?res[1 := ctx_begin x (entities s2 ! x)])[1 := ctx x (we_pos (entities s2 ! x)) (unat nr - k)])"
      using x k False left m by (intro alloc_finish) (auto simp: k_def)
    with last z False m(1) x show ?thesis
      by (simp add: algebra_simps)
  qed
qed

end
