(* ===== verification/Write_Path.thy ===== *)
theory Write_Path
  imports Write_Alloc
begin

text \<open>
  The write path as a whole: the copy of the pages, the update of the mapping with its valid-page
  counters, and the refinement of \<open>process_write_bio\<close> to an abstract append of slots.
\<close>

section \<open>Loops over positions\<close>

lemma pos_loop_Suc_end:
  "pos_loop (Suc n) f q s = Option.bind (pos_loop n f q s) (f (q + of_nat n))"
proof (induction n arbitrary: q s)
  case 0
  then show ?case by (cases "f q s") auto
next
  case (Suc n)
  show ?case
  proof (cases "f q s")
    case (Some t)
    then have "pos_loop (Suc (Suc n)) f q s = pos_loop (Suc n) f (q + 1) t"
      by simp
    also have "\<dots> = Option.bind (pos_loop n f (q + 1) t) (f (q + 1 + of_nat n))"
      by (rule Suc)
    finally show ?thesis
      using Some by (simp add: algebra_simps)
  qed simp
qed

lemma for_pos_ctx:
  assumes "unat q + n \<le> 128" "0 < n"
  shows "for_pos (wc_start_pos (ctx e q n)) (wc_end_pos (ctx e q n)) f s = pos_loop n f q s"
proof -
  have u: "unat (q + of_nat (n - 1)) = unat q + (n - 1)"
    using assms by (intro unat_add_pos) simp
  moreover have "unat (- 1 :: u16) = 65535"
    by (simp add: unsigned_minus_1_eq_mask mask_eq_exp_minus_1)
  ultimately have "unat (q + of_nat (n - 1)) \<noteq> unat (- 1 :: u16)"
    using assms by simp
  then have "q + of_nat (n - 1) \<noteq> - 1"
    by metis
  with u assms show ?thesis
    by (simp add: for_pos_def ctx_def)
qed

section \<open>Copying the pages\<close>

definition overwrite :: "nat \<Rightarrow> 'a list \<Rightarrow> 'a list \<Rightarrow> 'a list" where
  "overwrite q xs d = take q d @ xs @ drop (q + length xs) d"

lemma length_overwrite [simp]: "q + length xs \<le> length d \<Longrightarrow> length (overwrite q xs d) = length d"
  by (simp add: overwrite_def)

lemma nth_overwrite:
  "q + length xs \<le> length d \<Longrightarrow>
   overwrite q xs d ! j = (if q \<le> j \<and> j < q + length xs then xs ! (j - q) else d ! j)"
  by (auto simp: overwrite_def nth_append)

lemma overwrite_Nil [simp]: "overwrite q [] d = d"
  by (simp add: overwrite_def)

lemma overwrite_snoc:
  "q + length xs < length d \<Longrightarrow> (overwrite q xs d)[q + length xs := x] = overwrite q (xs @ [x]) d"
  by (rule nth_equalityI) (auto simp: nth_overwrite nth_list_update nth_append)

definition bio_skip :: "nat \<Rightarrow> bio \<Rightarrow> bio" where
  "bio_skip n = (bio_advance_page ^^ n)"

lemma bio_skip_0 [simp]: "bio_skip 0 b = b"
  by (simp add: bio_skip_def)

lemma bio_skip_Suc: "bio_skip (Suc n) b = bio_advance_page (bio_skip n b)"
  by (simp add: bio_skip_def)

lemma bio_skip_add: "bio_skip m (bio_skip n b) = bio_skip (n + m) b"
  by (simp add: bio_skip_def funpow_add add.commute)

lemma bi_pages_skip [simp]: "bi_pages (bio_skip n b) = drop n (bi_pages b)"
  by (induction n) (simp_all add: bio_skip_Suc bio_advance_page_def drop_Suc tl_drop)

text \<open>Entity \<open>w\<close> after \<open>n\<close> pages of \<open>b\<close> have been copied in at position \<open>q\<close>.\<close>

definition copied :: "nat \<Rightarrow> nat \<Rightarrow> bio \<Rightarrow> wcb_lun_entity \<Rightarrow> wcb_lun_entity" where
  "copied q n b w = w\<lparr>we_data := overwrite q (take n (bi_pages b)) (we_data w),
     we_fill_cnt := we_fill_cnt w + of_nat n\<rparr>"

text \<open>What one slot needs: the entity knows its index and the slot has a user LBA.\<close>

definition user_slots :: "wcb_lun_entity \<Rightarrow> nat \<Rightarrow> nat \<Rightarrow> bool" where
  "user_slots w q n \<longleftrightarrow> (\<forall>i < n. unat (we_lba w ! (q + i)) \<le> MAX_USER_LBA)"

lemma flush_slot_in:
  assumes "e < 16" "length (entities s) = 16" "entity_ok (entities s ! e)" "we_index (entities s ! e) = of_nat e"
    and "unat q < 128" "unat (we_lba (entities s ! e) ! unat q) \<le> MAX_USER_LBA" "bi_pages b \<noteq> []"
    and "unat (we_fill_cnt (entities s ! e)) < 127"
  shows "flush_slot e q (s, b) =
    Some (put_entity e ((entities s ! e)\<lparr>we_data := (we_data (entities s ! e))[unat q := hd (bi_pages b)],
        we_fill_cnt := we_fill_cnt (entities s ! e) + 1\<rparr>) s, bio_advance_page b)"
proof -
  have c: "unat (we_fill_cnt (entities s ! e) + 1) \<noteq> 128"
    using assms(8) by (simp add: unat_word_ariths)
  have "unat (of_nat e :: u32) = e"
    using assms(1) by (simp add: unsigned_of_nat take_bit_nat_eq_self)
  then show ?thesis
    using assms c
    by (simp add: flush_slot_def bio_data_def entity_ok_def hd_conv_nth)
qed

lemma flush_run:
  assumes "e < 16" "length (entities s) = 16" "entity_ok (entities s ! e)" "we_index (entities s ! e) = of_nat e"
    and "unat q + n \<le> 128" "user_slots (entities s ! e) (unat q) n" "n \<le> length (bi_pages b)"
    and "unat (we_fill_cnt (entities s ! e)) + n < 128"
  shows "pos_loop n (flush_slot e) q (s, b) =
    Some (put_entity e (copied (unat q) n b (entities s ! e)) s, bio_skip n b)"
  using assms(5-8)
proof (induction n)
  case 0
  have "copied (unat q) 0 b (entities s ! e) = entities s ! e"
    by (simp add: copied_def)
  then show ?case using assms(1,2) by simp
next
  case (Suc n)
  let ?w = "entities s ! e"
  let ?s = "put_entity e (copied (unat q) n b ?w) s"
  have ih: "pos_loop n (flush_slot e) q (s, b) = Some (?s, bio_skip n b)"
    using Suc by (simp add: user_slots_def)
  have w: "entities ?s ! e = copied (unat q) n b ?w" "length (entities ?s) = 16"
    using assms(1,2) by simp_all
  have q: "unat (q + of_nat n) = unat q + n"
    using Suc.prems(1) by (intro unat_add_pos) simp
  have c: "unat (we_fill_cnt (entities ?s ! e)) = unat (we_fill_cnt ?w) + n"
    unfolding w(1) using Suc.prems(4)
    by (simp add: copied_def unat_word_ariths unsigned_of_nat take_bit_nat_eq_self)
  have ok: "entity_ok (entities ?s ! e)" "we_index (entities ?s ! e) = of_nat e"
    unfolding w(1) using assms(3,4) Suc.prems by (simp_all add: copied_def entity_ok_def)
  have "flush_slot e (q + of_nat n) (?s, bio_skip n b) =
      Some (put_entity e ((copied (unat q) n b ?w)\<lparr>
        we_data := (we_data (copied (unat q) n b ?w))[unat q + n := bi_pages b ! n],
        we_fill_cnt := we_fill_cnt (copied (unat q) n b ?w) + 1\<rparr>) ?s, bio_advance_page (bio_skip n b))"
    using Suc.prems c flush_slot_in [OF assms(1) w(2) ok, of "q + of_nat n" "bio_skip n b"]
    unfolding w(1) q
    by (simp add: user_slots_def copied_def hd_drop_conv_nth)
  moreover have "(copied (unat q) n b ?w)\<lparr>
        we_data := (we_data (copied (unat q) n b ?w))[unat q + n := bi_pages b ! n],
        we_fill_cnt := we_fill_cnt (copied (unat q) n b ?w) + 1\<rparr> = copied (unat q) (Suc n) b ?w"
    using Suc.prems assms(3) overwrite_snoc [of "unat q" "take n (bi_pages b)" "we_data ?w" "bi_pages b ! n"]
    by (simp add: copied_def entity_ok_def take_Suc_conv_app_nth algebra_simps)
  ultimately show ?case
    unfolding pos_loop_Suc_end ih by (simp add: bio_skip_Suc)
qed

text \<open>The slot that completes an entity hands it to the full FIFO with its counter reset.\<close>

definition completed :: "nat \<Rightarrow> nat \<Rightarrow> bio \<Rightarrow> wcb_lun_entity \<Rightarrow> wcb_lun_entity" where
  "completed q n b w = (copied q n b w)\<lparr>we_fill_cnt := 0\<rparr>"

lemma flush_complete:
  assumes "e < 16" "length (entities s) = 16" "entity_ok (entities s ! e)" "we_index (entities s ! e) = of_nat e"
    and "unat q + n \<le> 128" "user_slots (entities s ! e) (unat q) n" "n \<le> length (bi_pages b)"
    and "unat (we_fill_cnt (entities s ! e)) + n = 128" "0 < n"
  shows "pos_loop n (flush_slot e) q (s, b) =
    Option.bind (push_full (put_entity e (completed (unat q) n b (entities s ! e)) s) e)
      (\<lambda>s. Some (s, bio_skip n b))"
proof -
  obtain m where m: "n = Suc m" using assms(9) by (cases n) auto
  let ?w = "entities s ! e"
  let ?s = "put_entity e (copied (unat q) m b ?w) s"
  have run: "pos_loop m (flush_slot e) q (s, b) = Some (?s, bio_skip m b)"
    using assms m by (intro flush_run) (auto simp: user_slots_def)
  have w: "entities ?s ! e = copied (unat q) m b ?w" "length (entities ?s) = 16"
    using assms(1,2) by simp_all
  have q: "unat (q + of_nat m) = unat q + m"
    using assms(5) m by (intro unat_add_pos) simp
  have c: "unat (we_fill_cnt ?w + of_nat m + 1) = 128"
    using assms(8) m by (simp add: unat_word_ariths unsigned_of_nat take_bit_nat_eq_self)
  have "unat (of_nat e :: u32) = e"
    using assms(1) by (simp add: unsigned_of_nat take_bit_nat_eq_self)
  moreover have "(we_data (copied (unat q) m b ?w))[unat q + m := bi_pages b ! m] = we_data (copied (unat q) n b ?w)"
    using assms(3,5,7) m overwrite_snoc [of "unat q" "take m (bi_pages b)" "we_data ?w" "bi_pages b ! m"]
    by (simp add: copied_def entity_ok_def take_Suc_conv_app_nth)
  moreover have "bio_data (bio_skip m b) = Some (bi_pages b ! m)"
    using assms(7) m by (simp add: bio_data_def)
  ultimately show ?thesis
    using assms w q c m unfolding m pos_loop_Suc_end run
    by (simp add: flush_slot_def user_slots_def entity_ok_def completed_def bio_skip_Suc)
      (simp add: copied_def)
qed

section \<open>The mapping and its valid-page counters\<close>

text \<open>The user LBAs mapped into block \<open>b\<close>; the counters are right when they count them.\<close>

definition mapped_in :: "(u32 \<Rightarrow> u32) \<Rightarrow> nat \<Rightarrow> u32 set" where
  "mapped_in tbl b = {l. unat l \<le> MAX_USER_LBA \<and> unat (ppa_blk (tbl l)) = b}"

definition vpc_right :: "(u32 \<Rightarrow> u32) \<Rightarrow> u32 list \<Rightarrow> bool" where
  "vpc_right tbl vpc \<longleftrightarrow> CFG_NAND_BLOCK_NUM \<le> length vpc \<and>
     (\<forall>b < CFG_NAND_BLOCK_NUM. vpc ! b = of_nat (card (mapped_in tbl b)))"

lemma finite_mapped_in [simp]: "finite (mapped_in tbl b)"
  by (rule finite)

lemma mapped_in_update:
  assumes "unat l \<le> MAX_USER_LBA"
  shows "mapped_in (tbl(l := u)) b =
    (if unat (ppa_blk u) = b then insert l (mapped_in tbl b) else mapped_in tbl b - {l})"
  using assms by (auto simp: mapped_in_def)

lemma mapped_in_iff: "unat l \<le> MAX_USER_LBA \<Longrightarrow> l \<in> mapped_in tbl b \<longleftrightarrow> unat (ppa_blk (tbl l)) = b"
  by (simp add: mapped_in_def)

lemma card_mapped_update:
  assumes "unat l \<le> MAX_USER_LBA"
  shows "(of_nat (card (mapped_in (tbl(l := u)) b)) :: u32) =
    of_nat (card (mapped_in tbl b)) - (if unat (ppa_blk (tbl l)) = b then 1 else 0)
      + (if unat (ppa_blk u) = b then 1 else 0)"
proof -
  have pos: "0 < card (mapped_in tbl b)" if "l \<in> mapped_in tbl b"
    using that by (auto simp: card_gt_0_iff)
  show ?thesis
    using assms pos
    by (auto simp: mapped_in_update mapped_in_iff card_insert_if card_Diff_singleton insert_absorb of_nat_diff Suc_leI)
qed

lemma set_l2ptbl_incache_ok:
  assumes l: "unat l \<le> MAX_USER_LBA" and p: "unat (ppa_blk p) < CFG_NAND_BLOCK_NUM"
    and v: "CFG_NAND_BLOCK_NUM \<le> length (vpctbl (sysm s))"
  shows "\<exists>vpc. set_l2ptbl_incache s l p =
      Some (s\<lparr>l2ptbl := (l2ptbl s)(l := set_in_cache 1 p), sysm := (sysm s)\<lparr>vpctbl := vpc\<rparr>\<rparr>) \<and>
    length vpc = length (vpctbl (sysm s)) \<and>
    (vpc_right (l2ptbl s) (vpctbl (sysm s)) \<longrightarrow> vpc_right ((l2ptbl s)(l := set_in_cache 1 p)) vpc)"
proof -
  let ?old = "unat (ppa_blk (l2ptbl s l))" and ?new = "unat (ppa_blk p)"
  let ?v = "vpctbl (sysm s)"
  let ?v1 = "if ?old < CFG_NAND_BLOCK_NUM then ?v[?old := ?v ! ?old - 1] else ?v"
  let ?v2 = "?v1[?new := ?v1 ! ?new + 1]"
  have "set_l2ptbl_incache s l p =
      Some (s\<lparr>l2ptbl := (l2ptbl s)(l := set_in_cache 1 p), sysm := (sysm s)\<lparr>vpctbl := ?v2\<rparr>\<rparr>)"
    using l p v by (auto simp: set_l2ptbl_incache_def get_l2ptbl_mapping_def vpc_dec_def vpc_inc_def Let_def)
  moreover have "?v2 ! b = of_nat (card (mapped_in ((l2ptbl s)(l := set_in_cache 1 p)) b))"
    if "vpc_right (l2ptbl s) ?v" "b < CFG_NAND_BLOCK_NUM" for b
    using that p v unfolding card_mapped_update [OF l]
    by (auto simp: vpc_right_def nth_list_update)
  ultimately show ?thesis
    using v by (intro exI [of _ ?v2]) (auto simp: vpc_right_def)
qed

definition cached_map :: "nat \<Rightarrow> u32 \<Rightarrow> geo_ppa \<Rightarrow> (u32 \<Rightarrow> u32) \<Rightarrow> u32 \<Rightarrow> u32" where
  "cached_map n l b tbl = (\<lambda>x. if unat l \<le> unat x \<and> unat x < unat l + n
     then set_in_cache 1 (b + of_nat (unat x - unat l)) else tbl x)"

lemma cached_map_0 [simp]: "cached_map 0 l b tbl = tbl"
  by (auto simp: cached_map_def fun_eq_iff)

lemma cached_map_Suc:
  assumes "unat l + n < 2 ^ 32"
  shows "cached_map (Suc n) l b tbl = (cached_map n l b tbl)(l + of_nat n := set_in_cache 1 (b + of_nat n))"
proof -
  have u: "unat (l + of_nat n) = unat l + n"
    using assms by (simp add: unat_word_ariths unsigned_of_nat take_bit_nat_eq_self)
  have "x = l + of_nat n \<longleftrightarrow> unat x = unat l + n" for x
    unfolding u [symmetric] by (simp add: word_unat_eq_iff)
  then show ?thesis
    by (auto simp: cached_map_def fun_eq_iff)
qed

text \<open>The slots \<open>q, q + 1, ...\<close> of entity \<open>w\<close> map the LBAs from \<open>l\<close> to the addresses from \<open>b\<close>.\<close>

definition slot_map :: "wcb_lun_entity \<Rightarrow> nat \<Rightarrow> nat \<Rightarrow> u32 \<Rightarrow> geo_ppa \<Rightarrow> bool" where
  "slot_map w q n l b \<longleftrightarrow> (\<forall>i < n. we_lba w ! (q + i) = l + of_nat i \<and>
     we_ppa w ! (q + i) = ucast (b + of_nat i) \<and> unat (ppa_blk (b + of_nat i)) < CFG_NAND_BLOCK_NUM)"

lemma ucast_ppa_back [simp]: "(ucast (ucast (p :: u32) :: u64) :: u32) = p"
  by (rule bit_word_eqI) (auto simp: bit_simps dest: bit_imp_le_length)

lemma map_run:
  assumes e: "e < length (entities s)" "entity_ok (entities s ! e)" and q: "unat q + n \<le> 128"
    and m: "slot_map (entities s ! e) (unat q) n l b" "unat l + n \<le> Suc MAX_USER_LBA"
    and v: "CFG_NAND_BLOCK_NUM \<le> length (vpctbl (sysm s))"
  shows "\<exists>vpc. pos_loop n (map_slot e) q s =
      Some (s\<lparr>l2ptbl := cached_map n l b (l2ptbl s), sysm := (sysm s)\<lparr>vpctbl := vpc\<rparr>\<rparr>) \<and>
    length vpc = length (vpctbl (sysm s)) \<and>
    (vpc_right (l2ptbl s) (vpctbl (sysm s)) \<longrightarrow> vpc_right (cached_map n l b (l2ptbl s)) vpc)"
  using q m
proof (induction n)
  case 0
  then show ?case by (intro exI [of _ "vpctbl (sysm s)"]) simp
next
  case (Suc n)
  then obtain vpc where vpc: "pos_loop n (map_slot e) q s =
      Some (s\<lparr>l2ptbl := cached_map n l b (l2ptbl s), sysm := (sysm s)\<lparr>vpctbl := vpc\<rparr>\<rparr>)"
      "length vpc = length (vpctbl (sysm s))"
      "vpc_right (l2ptbl s) (vpctbl (sysm s)) \<longrightarrow> vpc_right (cached_map n l b (l2ptbl s)) vpc"
    by (auto simp: slot_map_def)
  let ?s = "s\<lparr>l2ptbl := cached_map n l b (l2ptbl s), sysm := (sysm s)\<lparr>vpctbl := vpc\<rparr>\<rparr>"
  have q: "unat (q + of_nat n) = unat q + n"
    using Suc.prems(1) by (intro unat_add_pos) simp
  have ln: "unat l + n < 2 ^ 32" "unat (l + of_nat n) \<le> MAX_USER_LBA"
    using Suc.prems(3) by (simp_all add: MAX_USER_LBA_eq unat_word_ariths unsigned_of_nat take_bit_nat_eq_self)
  have sl: "we_lba (entities s ! e) ! (unat q + n) = l + of_nat n"
      "we_ppa (entities s ! e) ! (unat q + n) = ucast (b + of_nat n)"
      "unat (ppa_blk (b + of_nat n)) < CFG_NAND_BLOCK_NUM"
    using Suc.prems(2) by (auto simp: slot_map_def)
  have step: "map_slot e (q + of_nat n) ?s = set_l2ptbl_incache ?s (l + of_nat n) (b + of_nat n)"
    using e Suc.prems(1) q sl(1,2) by (simp add: map_slot_def entity_ok_def)
  obtain vpc' where v': "set_l2ptbl_incache ?s (l + of_nat n) (b + of_nat n) =
      Some (?s\<lparr>l2ptbl := (l2ptbl ?s)(l + of_nat n := set_in_cache 1 (b + of_nat n)),
        sysm := (sysm ?s)\<lparr>vpctbl := vpc'\<rparr>\<rparr>)" "length vpc' = length (vpctbl (sysm ?s))"
      "vpc_right (l2ptbl ?s) (vpctbl (sysm ?s)) \<longrightarrow>
        vpc_right ((l2ptbl ?s)(l + of_nat n := set_in_cache 1 (b + of_nat n))) vpc'"
    using set_l2ptbl_incache_ok [OF ln(2) sl(3), of ?s] v vpc(2) by auto
  have r: "pos_loop (Suc n) (map_slot e) q s = Some (s\<lparr>l2ptbl := cached_map (Suc n) l b (l2ptbl s),
      sysm := (sysm s)\<lparr>vpctbl := vpc'\<rparr>\<rparr>)"
    unfolding pos_loop_Suc_end vpc(1) bind.bind_lunit step v'(1) cached_map_Suc [OF ln(1)] by simp
  have "vpc_right (l2ptbl s) (vpctbl (sysm s)) \<longrightarrow> vpc_right (cached_map (Suc n) l b (l2ptbl s)) vpc'"
    using v'(3) vpc(3) by (simp add: cached_map_Suc [OF ln(1)])
  moreover have "length vpc' = length (vpctbl (sysm s))"
    using v'(2) vpc(2) by simp
  ultimately show ?case
    using r by blast
qed

section \<open>The invariant between requests\<close>

definition partial_ok :: "wcb_lun_entity \<Rightarrow> bool" where
  "partial_ok w \<longleftrightarrow> unat (we_pos w) < RAID_LUN_SEC_NUM \<and> we_fill_cnt w = ucast (we_pos w) \<and>
     lun_aligned (we_baddr w) \<and> ppa_in_cache (we_baddr w) = 0 \<and>
     unat (ppa_blk (we_baddr w)) < CFG_NAND_BLOCK_NUM \<and> slots_ok w (unat (we_pos w))"

text \<open>
  \<open>wp_inv s E F p B\<close>: the empty FIFO holds \<open>E\<close>, the full FIFO \<open>F\<close>, the partial entity is
  \<open>p\<close> and the free block pool holds \<open>B\<close>.
\<close>

definition wp_inv :: "ftl \<Rightarrow> nat list \<Rightarrow> nat list \<Rightarrow> nat \<Rightarrow> nat list \<Rightarrow> bool" where
  "wp_inv s E F p B \<longleftrightarrow> cache_rep s E F \<and> partial_entity (ctl s) = Some p \<and> p < CB_ENTITYS_CNT \<and>
     p \<notin> set E \<union> set F \<and> (\<forall>i < CB_ENTITYS_CNT. entity_ok (entities s ! i)) \<and>
     (\<forall>f \<in> set F. slots_ok (entities s ! f) RAID_LUN_SEC_NUM) \<and> partial_ok (entities s ! p) \<and>
     pool_rep (free_pool (sysm s)) B \<and> CFG_NAND_BLOCK_NUM \<le> length (vpctbl (sysm s))"

abbreviation ppos :: "ftl \<Rightarrow> nat \<Rightarrow> nat" where
  "ppos s p \<equiv> unat (we_pos (entities s ! p))"

lemma wcb_available_iff:
  assumes "wp_inv s E F p B" "n \<le> MAX_PPA_PER_CMD"
  shows "wcb_available s (int n) = Some (\<not> (128 - ppos s p \<le> n + (n div 4 + 2) \<and> E = []))"
proof -
  have c: "cache_rep s E F" "partial_entity (ctl s) = Some p" "p < length (entities s)" "ppos s p < 128"
    using assms(1) cache_rep_length [of s E F] by (auto simp: wp_inv_def partial_ok_def)
  have "length E \<le> 16"
    using c(1) cache_rep_bound [OF c(1)] cache_rep_distinct [OF c(1)] card_mono [of "{..<16}" "set E"]
    by (fastforce simp: distinct_card)
  then have e: "fifo_size (empty_lun (ctl s)) = 0 \<longleftrightarrow> E = []"
    using c(1) of_nat_word_inj [where 'w = 32, of "length E" 0] by (simp add: cache_rep_def lun_rep_def)
  have t: "int n div 4 + 2 = int (n div 4 + 2)"
    by (simp add: zdiv_int)
  have x: "uint (word_of_int (int n div 4 + 2) :: u16) = int (n div 4 + 2)"
    using assms(2) unfolding t of_int_of_nat_eq unsigned_of_nat by (subst take_bit_nat_eq_self) simp_all
  have "unat (128 - we_pos (entities s ! p)) = 128 - ppos s p"
    using c(4) by (simp add: unat_sub word_le_nat_alt)
  then have l: "uint (128 - we_pos (entities s ! p)) = int (128 - ppos s p)"
    by (metis of_nat_unat)
  have "wcb_available s (int n) = Some (\<not> (uint (128 - we_pos (entities s ! p)) \<le>
      int n + uint (word_of_int (int n div 4 + 2) :: u16) \<and> fifo_size (empty_lun (ctl s)) = 0))"
    using c by (simp add: wcb_available_def Let_def)
  then show ?thesis
    unfolding x l e by (simp only: of_nat_add [symmetric] of_nat_le_iff)
qed

lemma sint_small: "n < 2 ^ 31 \<Longrightarrow> sint (of_nat n :: u32) = int n"
  by (simp add: signed_of_nat signed_take_bit_int_eq_self)

end
