(* ===== verification/Write_Refine.thy ===== *)
theory Write_Refine
  imports Write_Path
begin

text \<open>
  \<open>process_write_bio\<close> refines an abstract append: the request takes the next slots of the partial
  entity and, past its end, of the oldest empty one; its pages and its mapping are in place when it
  returns, and a partial entity that fills up moves to the full FIFO.
\<close>

section \<open>Slots of a request\<close>

lemma slot_map_payload: "payload v = payload w \<Longrightarrow> slot_map v q n l b = slot_map w q n l b"
  using payload_eqD(4,5) [of v w] by (simp add: slot_map_def)

lemma slot_map_copied [simp]:
  "slot_map (copied q' m b w) q n l c = slot_map w q n l c"
  "slot_map (completed q' m b w) q n l c = slot_map w q n l c"
  by (simp_all add: slot_map_def copied_def completed_def)

lemma user_slots_map: "slot_map w q n l b \<Longrightarrow> unat l + n \<le> Suc MAX_USER_LBA \<Longrightarrow> user_slots w q n"
  by (auto simp: slot_map_def user_slots_def MAX_USER_LBA_eq unat_word_ariths unsigned_of_nat take_bit_nat_eq_self)

lemma ucast_lba:
  assumes "unat (slba :: u64) + n \<le> Suc MAX_USER_LBA"
  shows "unat (ucast slba :: u32) = unat slba"
    and "i \<le> n \<Longrightarrow> (ucast (slba + of_nat i) :: u32) = ucast slba + of_nat i"
    and "i \<le> n \<Longrightarrow> unat (slba + of_nat i) = unat slba + i"
proof -
  have b: "unat slba + n \<le> 390451572"
    using assms by (simp add: MAX_USER_LBA_eq)
  show u: "unat (ucast slba :: u32) = unat slba"
    using b by (intro unat_ucast_small) simp
  assume i: "i \<le> n"
  show a: "unat (slba + of_nat i) = unat slba + i"
    using b i by (simp add: unat_word_ariths unsigned_of_nat take_bit_nat_eq_self)
  have "unat (ucast (slba + of_nat i) :: u32) = unat slba + i"
    using b i a by (subst unat_ucast_small) simp_all
  moreover have "unat (ucast slba + of_nat i :: u32) = unat slba + i"
    using b i u by (simp add: unat_word_ariths unsigned_of_nat take_bit_nat_eq_self)
  ultimately show "(ucast (slba + of_nat i) :: u32) = ucast slba + of_nat i"
    by (simp add: word_unat_eq_iff)
qed

definition base_ok :: "geo_ppa \<Rightarrow> bool" where
  "base_ok b \<longleftrightarrow> lun_aligned b \<and> ppa_in_cache b = 0 \<and> unat (ppa_blk b) < CFG_NAND_BLOCK_NUM"

lemma base_ok_blk: "base_ok b \<Longrightarrow> i < 128 \<Longrightarrow> ppa_blk (b + of_nat i) = ppa_blk b"
  by (rule lun_aligned_add_fields) (simp_all add: base_ok_def unsigned_of_nat take_bit_nat_eq_self)

lemma slot_map_fill:
  assumes "entity_ok w" "base_ok (we_baddr w)" "unat (we_pos w) + n \<le> 128"
    and "unat slba + n \<le> Suc MAX_USER_LBA"
  shows "slot_map (fill n slba (we_baddr w + ucast (we_pos w)) w) (unat (we_pos w)) n (ucast slba)
    (we_baddr w + ucast (we_pos w))"
  unfolding slot_map_def
proof (intro allI impI conjI)
  fix i assume i: "i < n"
  let ?c = "we_baddr w + ucast (we_pos w)"
  show "we_lba (fill n slba ?c w) ! (unat (we_pos w) + i) = ucast slba + of_nat i"
    using assms i ucast_lba(2) [OF assms(4), of i] by (simp add: fill_nth)
  show "we_ppa (fill n slba ?c w) ! (unat (we_pos w) + i) = ucast (?c + of_nat i)"
    using assms i by (simp add: fill_nth)
  have "?c + of_nat i = we_baddr w + of_nat (unat (we_pos w) + i)"
    by (simp add: algebra_simps)
  then show "unat (ppa_blk (?c + of_nat i)) < CFG_NAND_BLOCK_NUM"
    using base_ok_blk [OF assms(2), of "unat (we_pos w) + i"] assms(2,3) i by (simp only: base_ok_def)
qed

section \<open>A request within the partial entity\<close>

lemma partial_ok_base: "partial_ok w \<Longrightarrow> base_ok (we_baddr w)"
  by (simp add: partial_ok_def base_ok_def)

text \<open>Entity \<open>w\<close> after \<open>n\<close> pages of \<open>b\<close> went into its next slots, for the LBAs from \<open>slba\<close>.\<close>

definition appended :: "nat \<Rightarrow> u64 \<Rightarrow> bio \<Rightarrow> wcb_lun_entity \<Rightarrow> wcb_lun_entity" where
  "appended n slba b w =
     copied (unat (we_pos w)) n b (fill n slba (we_baddr w + ucast (we_pos w)) w)"

lemma appended_0 [simp]: "appended 0 slba b w = w"
  by (simp add: appended_def copied_def)

lemma entity_ok_appended:
  "entity_ok w \<Longrightarrow> unat (we_pos w) + n \<le> 128 \<Longrightarrow> n \<le> length (bi_pages b) \<Longrightarrow> entity_ok (appended n slba b w)"
  by (simp add: appended_def copied_def entity_ok_def)

lemma partial_ok_appended:
  assumes "partial_ok w" "entity_ok w" "unat (we_pos w) + n < 128"
  shows "partial_ok (appended n slba b w)"
proof -
  have p: "unat (we_pos w + of_nat n) = unat (we_pos w) + n"
    using assms(3) by (intro unat_add_pos) simp
  have "(ucast (we_pos w + of_nat n) :: u32) = ucast (we_pos w) + of_nat n"
    by (metis p of_nat_add of_nat_unat)
  with p show ?thesis
    using assms slots_ok_fill [of w n slba]
    by (simp add: partial_ok_def appended_def copied_def fill_pos slots_ok_def)
qed

lemma appended_data:
  assumes "entity_ok w" "unat (we_pos w) + n \<le> 128" "n \<le> length (bi_pages b)" "i < n"
  shows "we_data (appended n slba b w) ! (unat (we_pos w) + i) = bi_pages b ! i"
  using assms by (simp add: appended_def copied_def entity_ok_def nth_overwrite)

lemma wp_inv_put:
  assumes "wp_inv s E F p B" "links v = links (entities s ! p)" "entity_ok v" "partial_ok v"
  shows "wp_inv (put_entity p v s) E F p B"
  using assms cache_rep_put [of s E F v p] cache_rep_length [of s E F]
  by (auto simp: wp_inv_def nth_list_update)

lemma for_ctx_zero [simp]: "for_ctx (wcb_ctx_zero # cs) f = Some"
  by (simp add: fun_eq_iff wcb_ctx_zero_def)

lemma for_ctx_one:
  "unat q + n \<le> 128 \<Longrightarrow> 0 < n \<Longrightarrow>
   for_ctx [ctx e q n, wcb_ctx_zero, wcb_ctx_zero] f s = pos_loop n (f e) q s"
  using for_pos_ctx [of q n e "f e"]
  by (cases "pos_loop n (f e) q s") (simp_all add: ctx_def)

lemma for_ctx_two:
  "unat q + n \<le> 128 \<Longrightarrow> 0 < n \<Longrightarrow> m \<le> 128 \<Longrightarrow> 0 < m \<Longrightarrow>
   for_ctx [ctx e q n, ctx x 0 m, wcb_ctx_zero] f s = Option.bind (pos_loop n (f e) q s) (pos_loop m (f x) 0)"
  using for_pos_ctx [of q n e "f e"] for_pos_ctx [of 0 m x "f x"]
  by (cases "pos_loop n (f e) q s") (simp_all add: ctx_def)

lemma process_alloc:
  assumes "wcb_available s (sint (get_bio_nppa b)) = Some True"
    and "alloc_wcb_core s (get_bio_slba b) (get_bio_nppa b) wcb_bio_ctx_zero = Some (r, s1, res)"
    and "for_ctx res flush_slot (s1, b) = Some (s2, b')" and "for_ctx res map_slot s2 = Some s3"
  shows "process_write_bio s b = Some (FSCFTL_BIO_COMPLETE, s3, b')"
  using assms by (simp add: process_write_bio_def flush_data_to_wcb_def set_l2ptbl_write_path_def Let_def)

text \<open>A request the write path accepts.\<close>

definition bio_ok :: "bio \<Rightarrow> bool" where
  "bio_ok b \<longleftrightarrow> 0 < unat (get_bio_nppa b) \<and> unat (get_bio_nppa b) \<le> MAX_PPA_PER_CMD \<and>
     unat (get_bio_nppa b) \<le> length (bi_pages b) \<and>
     unat (get_bio_slba b) + unat (get_bio_nppa b) \<le> Suc MAX_USER_LBA"

abbreviation nppa :: "bio \<Rightarrow> nat" where "nppa b \<equiv> unat (get_bio_nppa b)"
abbreviation lba0 :: "bio \<Rightarrow> u32" where "lba0 b \<equiv> ucast (get_bio_slba b)"

lemma sint_nppa: "bio_ok b \<Longrightarrow> sint (get_bio_nppa b) = int (nppa b)"
  using sint_small [of "nppa b"] by (simp add: bio_ok_def)

lemma wp_invD:
  assumes "wp_inv s E F p B"
  shows "cache_rep s E F" "length (entities s) = 16" "p < 16" "partial_entity (ctl s) = Some p"
    "entity_ok (entities s ! p)" "partial_ok (entities s ! p)" "ppos s p < 128"
    "we_index (entities s ! p) = of_nat p" "CFG_NAND_BLOCK_NUM \<le> length (vpctbl (sysm s))"
    "pool_rep (free_pool (sysm s)) B" "p \<notin> set E \<union> set F"
  using assms cache_rep_length [of s E F] cache_rep_array [of s E F]
  by (auto simp: wp_inv_def partial_ok_def entity_array_def)

lemma write_in:
  assumes inv: "wp_inv s E F p B" and b: "bio_ok b" and in_partial: "ppos s p + nppa b < 128"
    and av: "wcb_available s (int (nppa b)) = Some True"
  defines "w \<equiv> entities s ! p"
  shows "\<exists>vpc. process_write_bio s b = Some (FSCFTL_BIO_COMPLETE,
      (put_entity p (appended (nppa b) (get_bio_slba b) b w) s)
        \<lparr>l2ptbl := cached_map (nppa b) (lba0 b) (we_baddr w + ucast (we_pos w)) (l2ptbl s),
         sysm := (sysm s)\<lparr>vpctbl := vpc\<rparr>\<rparr>, bio_skip (nppa b) b) \<and>
    length vpc = length (vpctbl (sysm s)) \<and>
    (vpc_right (l2ptbl s) (vpctbl (sysm s)) \<longrightarrow>
     vpc_right (cached_map (nppa b) (lba0 b) (we_baddr w + ucast (we_pos w)) (l2ptbl s)) vpc)"
proof -
  note i = wp_invD [OF inv, folded w_def]
  let ?n = "nppa b" and ?l = "get_bio_slba b" and ?c = "we_baddr w + ucast (we_pos w)"
  let ?w1 = "fill ?n ?l ?c w"
  let ?s1 = "put_entity p ?w1 s" and ?s2 = "put_entity p (appended ?n ?l b w) s"
  have n: "0 < ?n" "?n \<le> length (bi_pages b)" "unat ?l + ?n \<le> Suc MAX_USER_LBA" "unat (we_pos w) + ?n \<le> 128"
    using b in_partial by (simp_all add: bio_ok_def w_def)
  have al: "alloc_wcb_core s ?l (get_bio_nppa b) wcb_bio_ctx_zero =
      Some (0, ?s1, [ctx p (we_pos w) ?n, wcb_ctx_zero, wcb_ctx_zero])"
    using alloc_in [of s p "get_bio_nppa b" ?l] i in_partial n(1) by (simp add: w_def)
  have sm: "slot_map ?w1 (unat (we_pos w)) ?n (lba0 b) ?c"
    using i n by (intro slot_map_fill) (simp_all add: partial_ok_base)
  have l: "unat (lba0 b) + ?n \<le> Suc MAX_USER_LBA"
    using ucast_lba(1) [OF n(3)] n(3) by simp
  have e1: "entities ?s1 ! p = ?w1" "entities ?s2 ! p = appended ?n ?l b w"
    using i(2,3) by simp_all
  have fl: "for_ctx [ctx p (we_pos w) ?n, wcb_ctx_zero, wcb_ctx_zero] flush_slot (?s1, b) = Some (?s2, bio_skip ?n b)"
    using flush_run [of p ?s1 "we_pos w" ?n b] i n in_partial user_slots_map [OF sm l] e1(1)
    by (simp add: for_ctx_one appended_def partial_ok_def unat_ucast_wide w_def del: for_ctx.simps)
  obtain vpc where mp: "for_ctx [ctx p (we_pos w) ?n, wcb_ctx_zero, wcb_ctx_zero] map_slot ?s2 =
      Some (?s2\<lparr>l2ptbl := cached_map ?n (lba0 b) ?c (l2ptbl ?s2), sysm := (sysm ?s2)\<lparr>vpctbl := vpc\<rparr>\<rparr>)"
      "length vpc = length (vpctbl (sysm ?s2))"
      "vpc_right (l2ptbl ?s2) (vpctbl (sysm ?s2)) \<longrightarrow> vpc_right (cached_map ?n (lba0 b) ?c (l2ptbl ?s2)) vpc"
    using map_run [of p ?s2 "we_pos w" ?n "lba0 b" ?c] i n l sm e1(2) entity_ok_appended [of w ?n b ?l]
    by (auto simp: for_ctx_one appended_def simp del: for_ctx.simps)
  show ?thesis
    using process_alloc [OF _ al fl mp(1)] av sint_nppa [OF b] mp(2,3) by auto
qed

section \<open>A request that exhausts the partial entity\<close>

lemma payload_put_slot: "payload (put_slot a c w) = put_slot a c (payload w)"
  by (simp add: payload_def put_slot_def)

lemma payload_fill: "payload (fill n a c w) = fill n a c (payload w)"
  by (induction n arbitrary: a c w) (simp_all add: payload_put_slot)

lemma payload_copied: "payload (copied q n b w) = copied q n b (payload w)"
  "payload (completed q n b w) = completed q n b (payload w)"
  by (simp_all add: payload_def copied_def completed_def)

lemma payload_fresh_entity: "payload (fresh_entity c w) = fresh_entity c (payload w)"
  by (simp add: payload_def fresh_entity_def)

lemma payload_idem [simp]: "payload (payload w) = payload w"
  by (simp add: payload_def)

lemmas payload_push = payload_fill payload_copied payload_fresh_entity

text \<open>The entities of \<open>s'\<close> carry the payload \<open>f\<close> prescribes.\<close>

definition payloads :: "ftl \<Rightarrow> (nat \<Rightarrow> wcb_lun_entity) \<Rightarrow> bool" where
  "payloads s f \<longleftrightarrow> length (entities s) = 16 \<and> (\<forall>i < 16. payload (entities s ! i) = payload (f i))"

text \<open>The parts of the state that a request does not touch, but for the mapping.\<close>

definition same_env :: "ftl \<Rightarrow> ftl \<Rightarrow> bool" where
  "same_env s s' \<longleftrightarrow> requeue_wr_bios (ctl s') = requeue_wr_bios (ctl s) \<and>
     outstanding_lun (ctl s') = outstanding_lun (ctl s)"

lemma payloadsD: "payloads s f \<Longrightarrow> i < 16 \<Longrightarrow> payload (entities s ! i) = payload (f i)"
  by (simp add: payloads_def)

lemma payloads_put: "payloads s f \<Longrightarrow> payloads (put_entity e v s) (f(e := v))"
  by (auto simp: payloads_def nth_list_update)

lemma payloads_same: "payloads s f \<Longrightarrow> same_rest s s' \<Longrightarrow> payloads s' f"
  using same_rest_nth [of s s'] by (auto simp: payloads_def same_rest_def dest: map_eq_imp_length_eq)

lemma payloads_cong: "payloads s f \<Longrightarrow> (\<And>i. i < 16 \<Longrightarrow> payload (f i) = payload (g i)) \<Longrightarrow> payloads s g"
  by (simp add: payloads_def)

lemma stripe_within:
  assumes "lun_aligned c" "i < 128"
  shows "stripe (c + of_nat i) = stripe c" "ppa_blk (c + of_nat i) = ppa_blk c"
    "ppa_in_cache (c + of_nat i) = ppa_in_cache c"
proof -
  have u: "unat (of_nat i :: u32) < 128"
    using assms(2) by (simp add: unsigned_of_nat take_bit_nat_eq_self)
  show "stripe (c + of_nat i) = stripe c" "ppa_blk (c + of_nat i) = ppa_blk c"
    using lun_aligned_add_fields [OF assms(1) u] by (simp_all add: stripe_def)
  have "bf_get 31 1 (of_nat i :: u32) = 0"
    using u by (intro bf_get_small) simp
  then show "ppa_in_cache (c + of_nat i) = ppa_in_cache c"
    using lun_aligned_add_or [OF assms(1) u] by (simp add: ppa_in_cache_def bf_get_or)
qed

lemma next_base_within:
  "lun_aligned c \<Longrightarrow> i < 128 \<Longrightarrow> next_base B (c + of_nat i) B' c' = next_base B c B' c'"
  using stripe_within [of c i] by (simp add: next_base_def)

lemma for_ctx_both:
  assumes "unat q + n \<le> 128" "0 < n" "m \<le> 128"
  shows "for_ctx [ctx e q n, if m = 0 then wcb_ctx_zero else ctx x 0 m, wcb_ctx_zero] f s =
    Option.bind (pos_loop n (f e) q s) (pos_loop m (f x) 0)"
  using assms for_ctx_one [of q n e f s] for_ctx_two [of q n m e x f s]
  by (cases "pos_loop n (f e) q s"; cases "m = 0") (simp_all del: for_ctx.simps)

lemma cross_alloc:
  assumes inv: "wp_inv s (x # E) F p B" and n: "unat nr \<le> 128" "128 \<le> ppos s p + unat nr"
  defines "w \<equiv> entities s ! p"
  defines "cur \<equiv> we_baddr w + ucast (we_pos w)" and "k \<equiv> 128 - unat (we_pos w)"
  shows "\<exists>s3 c B'. alloc_wcb_core s slba nr wcb_bio_ctx_zero =
      Some (0, s3, [ctx p (we_pos w) k, if unat nr - k = 0 then wcb_ctx_zero else ctx x 0 (unat nr - k), wcb_ctx_zero]) \<and>
    cache_rep s3 E F \<and> partial_entity (ctl s3) = Some x \<and> next_base B (we_baddr w) B' c \<and>
    payloads s3 (((\<lambda>i. entities s ! i)(p := fill k slba cur w))
      (x := fill (unat nr - k) (slba + of_nat k) c (fresh_entity c (entities s ! x)))) \<and>
    l2ptbl s3 = l2ptbl s \<and> vpctbl (sysm s3) = vpctbl (sysm s) \<and> pool_rep (free_pool (sysm s3)) B' \<and>
    same_env s s3"
proof -
  note i = wp_invD [OF inv, folded w_def]
  have k: "0 < k" "k \<le> unat nr" "unat (we_pos w) + k = 128"
    using i(7) n(2) by (simp_all add: k_def w_def)
  let ?s1 = "put_entity p (fill k slba cur w) s"
  have x: "x < 16" "x \<noteq> p"
    using i(1,11) cache_rep_bound [OF i(1), of x] by auto
  have last: "cur + of_nat (k - 1) = we_baddr w + of_nat 127"
  proof -
    have "of_nat (unat (we_pos w)) + of_nat (k - 1) = (of_nat 127 :: u32)"
      using k by (simp only: of_nat_add [symmetric]) (simp add: k_def)
    then show ?thesis by (simp add: cur_def add.assoc)
  qed
  obtain c m' B' where c: "get_next_entity_baddr (sysm s) (cur + of_nat (k - 1)) = Some (c, m')"
      "vpctbl m' = vpctbl (sysm s)" "pool_rep (free_pool m') B'" "next_base B (we_baddr w) B' c"
    using next_baddr_ok [OF i(10), of "cur + of_nat (k - 1)"] i(6) next_base_within [of "we_baddr w" 127 B]
    unfolding last by (auto simp: partial_ok_def)
  have r1: "cache_rep ?s1 (x # E) F"
    using i(1) by (rule cache_rep_put) (simp add: w_def)
  obtain s2 where s2: "get_next_lun_entity ?s1 (cur + of_nat (k - 1)) = Some (Some x, s2)" "cache_rep s2 E F"
      "sysm s2 = m'" "partial_entity (ctl s2) = Some x" "l2ptbl s2 = l2ptbl s" "same_env s s2"
      "\<forall>i < 16. payload (entities s2 ! i) =
         payload (if i = x then fresh_entity c (entities ?s1 ! x) else entities ?s1 ! i)"
    using get_next_lun_entity_ok [OF r1, of "cur + of_nat (k - 1)" c m'] c(1) by (auto simp: same_env_def)
  have len2: "length (entities s2) = 16"
    using s2(2) by (rule cache_rep_length)
  have p2: "payloads s2 (((\<lambda>i. entities s ! i)(p := fill k slba cur w))(x := fresh_entity c (entities s ! x)))"
    using s2(7) len2 x i(2,3) by (auto simp: payloads_def nth_list_update)
  have px: "payload (entities s2 ! x) = payload (fresh_entity c (entities s ! x))"
    using payloadsD [OF p2 x(1)] by simp
  have okx: "entity_ok (entities s2 ! x)" "we_pos (entities s2 ! x) = 0" "we_baddr (entities s2 ! x) = c"
    using entity_ok_payload [OF px] payload_eqD(2,7) [OF px] inv x
    by (auto simp: wp_inv_def fresh_entity_def entity_ok_def)
  let ?s3 = "put_entity x (fill (unat nr - k) (slba + of_nat k) c (entities s2 ! x)) s2"
  have "alloc_wcb_core s slba nr wcb_bio_ctx_zero =
      Some (0, ?s3, [ctx p (we_pos w) k, if unat nr - k = 0 then wcb_ctx_zero else ctx x 0 (unat nr - k), wcb_ctx_zero])"
    using alloc_cross [OF i(4) _ _ _ _ _ s2(1) [unfolded cur_def w_def k_def]] i k n x okx len2
    by (auto simp: w_def [symmetric] k_def [symmetric] cur_def [symmetric])
  moreover have "cache_rep ?s3 E F"
    using s2(2) by (rule cache_rep_put) simp
  moreover have "payloads ?s3 (((\<lambda>i. entities s ! i)(p := fill k slba cur w))
      (x := fill (unat nr - k) (slba + of_nat k) c (fresh_entity c (entities s ! x))))"
    by (rule payloads_cong [OF payloads_put [OF p2]]) (use px in \<open>simp add: payload_fill\<close>)
  ultimately show ?thesis
    using s2(3-6) c by (intro exI [of _ ?s3]) (auto simp: same_env_def)
qed

lemma cross_flush:
  assumes c: "cache_rep s E F" and p: "p < 16" "x < 16" "p \<noteq> x" "p \<notin> set E \<union> set F"
    and ok: "entity_ok (entities s ! p)" "entity_ok (entities s ! x)"
    and q: "unat q + k = 128" "0 < k" "unat (we_fill_cnt (entities s ! p)) + k = 128" "user_slots (entities s ! p) (unat q) k"
    and m: "we_fill_cnt (entities s ! x) = 0" "m < 128" "user_slots (entities s ! x) 0 m"
    and b: "k + m \<le> length (bi_pages b)"
  shows "\<exists>s'. for_ctx [ctx p q k, if m = 0 then wcb_ctx_zero else ctx x 0 m, wcb_ctx_zero] flush_slot (s, b) =
      Some (s', bio_skip (k + m) b) \<and> cache_rep s' E (F @ [p]) \<and>
    payloads s' (((\<lambda>i. entities s ! i)(p := completed (unat q) k b (entities s ! p)))
      (x := copied 0 m (bio_skip k b) (entities s ! x))) \<and>
    partial_entity (ctl s') = partial_entity (ctl s) \<and> l2ptbl s' = l2ptbl s \<and> sysm s' = sysm s \<and> same_env s s'"
proof -
  have len: "length (entities s) = 16" and idx: "\<And>i. i < 16 \<Longrightarrow> we_index (entities s ! i) = of_nat i"
    using cache_rep_length [OF c] cache_rep_array [OF c] by (auto simp: entity_array_def)
  let ?s1 = "put_entity p (completed (unat q) k b (entities s ! p)) s"
  have r1: "cache_rep ?s1 E F"
    using c by (rule cache_rep_put) (simp add: completed_def copied_def links_def)
  obtain s2 where s2: "push_full ?s1 p = Some s2" "cache_rep s2 E (F @ [p])" "same_rest ?s1 s2"
    using push_full_ok [OF r1 p(1,4)] by blast
  have one: "pos_loop k (flush_slot p) q (s, b) = Some (s2, bio_skip k b)"
    using flush_complete [of p s q k b] p len ok(1) idx q b s2(1) by simp
  have self: "payloads s (\<lambda>i. entities s ! i)"
    using len by (simp add: payloads_def)
  have p2: "payloads s2 ((\<lambda>i. entities s ! i)(p := completed (unat q) k b (entities s ! p)))"
    by (rule payloads_same [OF payloads_put [OF self] s2(3)])
  have px: "payload (entities s2 ! x) = payload (entities s ! x)"
    using payloadsD [OF p2 p(2)] p(3) by simp
  have okx: "entity_ok (entities s2 ! x)" "we_index (entities s2 ! x) = of_nat x"
      "we_fill_cnt (entities s2 ! x) = 0" "user_slots (entities s2 ! x) 0 m"
    using entity_ok_payload [OF px] payload_eqD(1,5,8) [OF px] ok(2) idx [OF p(2)] m
    by (simp_all add: user_slots_def)
  have len2: "length (entities s2) = 16"
    using s2(2) by (rule cache_rep_length)
  let ?s3 = "put_entity x (copied 0 m (bio_skip k b) (entities s2 ! x)) s2"
  have two: "pos_loop m (flush_slot x) 0 (s2, bio_skip k b) = Some (?s3, bio_skip m (bio_skip k b))"
    using flush_run [of x s2 0 m "bio_skip k b"] p(2) len2 okx m(2) b by simp
  have "for_ctx [ctx p q k, if m = 0 then wcb_ctx_zero else ctx x 0 m, wcb_ctx_zero] flush_slot (s, b) =
      Some (?s3, bio_skip (k + m) b)"
    using q(1,2) m(2) one two by (simp add: for_ctx_both bio_skip_add del: for_ctx.simps)
  moreover have "cache_rep ?s3 E (F @ [p])"
    using s2(2) by (rule cache_rep_put) (simp add: copied_def links_def)
  moreover have "payloads ?s3 (((\<lambda>i. entities s ! i)(p := completed (unat q) k b (entities s ! p)))
      (x := copied 0 m (bio_skip k b) (entities s ! x)))"
    by (rule payloads_cong [OF payloads_put [OF p2]]) (use px in \<open>simp add: payload_copied\<close>)
  ultimately show ?thesis
    using s2(3) by (intro exI [of _ ?s3]) (simp add: same_rest_def same_env_def)
qed

lemma cross_map:
  assumes len: "length (entities s) = 16" "p < 16" "x < 16"
    and ok: "entity_ok (entities s ! p)" "entity_ok (entities s ! x)"
    and q: "unat q + k = 128" "0 < k" "m < 128"
    and sm: "slot_map (entities s ! p) (unat q) k l c" "slot_map (entities s ! x) 0 m (l + of_nat k) c'"
    and l: "unat l + (k + m) \<le> Suc MAX_USER_LBA"
    and v: "CFG_NAND_BLOCK_NUM \<le> length (vpctbl (sysm s))"
  shows "\<exists>vpc. for_ctx [ctx p q k, if m = 0 then wcb_ctx_zero else ctx x 0 m, wcb_ctx_zero] map_slot s =
      Some (s\<lparr>l2ptbl := cached_map m (l + of_nat k) c' (cached_map k l c (l2ptbl s)),
              sysm := (sysm s)\<lparr>vpctbl := vpc\<rparr>\<rparr>) \<and>
    length vpc = length (vpctbl (sysm s)) \<and>
    (vpc_right (l2ptbl s) (vpctbl (sysm s)) \<longrightarrow>
     vpc_right (cached_map m (l + of_nat k) c' (cached_map k l c (l2ptbl s))) vpc)"
proof -
  have lk: "unat l + k \<le> Suc MAX_USER_LBA" "unat (l + of_nat k) + m \<le> Suc MAX_USER_LBA"
    using l by (simp_all add: MAX_USER_LBA_eq unat_word_ariths unsigned_of_nat take_bit_nat_eq_self)
  have pl: "p < length (entities s)" "x < length (entities s)" "unat q + k \<le> 128"
    using len q(1) by simp_all
  obtain v1 where v1: "pos_loop k (map_slot p) q s =
      Some (s\<lparr>l2ptbl := cached_map k l c (l2ptbl s), sysm := (sysm s)\<lparr>vpctbl := v1\<rparr>\<rparr>)"
      "length v1 = length (vpctbl (sysm s))"
      "vpc_right (l2ptbl s) (vpctbl (sysm s)) \<longrightarrow> vpc_right (cached_map k l c (l2ptbl s)) v1"
    using map_run [OF pl(1) ok(1) pl(3) sm(1) lk(1) v] by blast
  let ?s = "s\<lparr>l2ptbl := cached_map k l c (l2ptbl s), sysm := (sysm s)\<lparr>vpctbl := v1\<rparr>\<rparr>"
  obtain v2 where v2: "pos_loop m (map_slot x) 0 ?s =
      Some (s\<lparr>l2ptbl := cached_map m (l + of_nat k) c' (cached_map k l c (l2ptbl s)),
              sysm := (sysm s)\<lparr>vpctbl := v2\<rparr>\<rparr>)"
      "length v2 = length v1"
      "vpc_right (cached_map k l c (l2ptbl s)) v1 \<longrightarrow>
       vpc_right (cached_map m (l + of_nat k) c' (cached_map k l c (l2ptbl s))) v2"
    using map_run [of x ?s 0 m "l + of_nat k" c'] pl(2) ok(2) q(3) sm(2) lk(2) v v1(2) by auto
  show ?thesis
    using q v1 v2 by (intro exI [of _ v2]) (simp add: for_ctx_both del: for_ctx.simps)
qed

lemma appended_fresh: "appended n slba b (fresh_entity c w) = copied 0 n b (fill n slba c (fresh_entity c w))"
  by (simp add: appended_def fresh_entity_def)

lemma write_cross:
  assumes inv: "wp_inv s (x # E) F p B" and b: "bio_ok b" and full: "128 \<le> ppos s p + nppa b"
  defines "w \<equiv> entities s ! p" and "k \<equiv> 128 - ppos s p" and "n \<equiv> nppa b" and "l \<equiv> get_bio_slba b"
  shows "\<exists>s' c B'. process_write_bio s b = Some (FSCFTL_BIO_COMPLETE, s', bio_skip n b) \<and>
    cache_rep s' E (F @ [p]) \<and> partial_entity (ctl s') = Some x \<and> next_base B (we_baddr w) B' c \<and>
    payloads s' (((\<lambda>i. entities s ! i)(p := (appended k l b w)\<lparr>we_fill_cnt := 0\<rparr>))
      (x := appended (n - k) (l + of_nat k) (bio_skip k b) (fresh_entity c (entities s ! x)))) \<and>
    l2ptbl s' = cached_map (n - k) (lba0 b + of_nat k) c
      (cached_map k (lba0 b) (we_baddr w + ucast (we_pos w)) (l2ptbl s)) \<and>
    pool_rep (free_pool (sysm s')) B' \<and> same_env s s' \<and>
    length (vpctbl (sysm s')) = length (vpctbl (sysm s)) \<and>
    (vpc_right (l2ptbl s) (vpctbl (sysm s)) \<longrightarrow> vpc_right (l2ptbl s') (vpctbl (sysm s')))"
proof -
  note i = wp_invD [OF inv, folded w_def]
  let ?m = "n - k" and ?cur = "we_baddr w + ucast (we_pos w)"
  have n: "n \<le> 64" "n \<le> length (bi_pages b)" "unat l + n \<le> Suc MAX_USER_LBA"
    using b by (simp_all add: bio_ok_def n_def l_def)
  have k: "0 < k" "k \<le> n" "unat (we_pos w) + k = 128" "k + ?m = n" "?m < 128"
    using i(7) full n by (simp_all add: k_def n_def w_def)
  have x: "x < 16" "x \<noteq> p"
    using i(1,11) cache_rep_bound [OF i(1), of x] by auto
  obtain s3 c B' where s3: "alloc_wcb_core s l (get_bio_nppa b) wcb_bio_ctx_zero =
        Some (0, s3, [ctx p (we_pos w) k, if ?m = 0 then wcb_ctx_zero else ctx x 0 ?m, wcb_ctx_zero])"
      "cache_rep s3 E F" "partial_entity (ctl s3) = Some x" "next_base B (we_baddr w) B' c"
      "payloads s3 (((\<lambda>i. entities s ! i)(p := fill k l ?cur w))
        (x := fill ?m (l + of_nat k) c (fresh_entity c (entities s ! x))))"
      "l2ptbl s3 = l2ptbl s" "vpctbl (sysm s3) = vpctbl (sysm s)" "pool_rep (free_pool (sysm s3)) B'" "same_env s s3"
    using cross_alloc [OF inv, of "get_bio_nppa b" l] n(1) full unfolding w_def k_def n_def by auto
  have pp: "payload (entities s3 ! p) = payload (fill k l ?cur w)"
    and px: "payload (entities s3 ! x) = payload (fill ?m (l + of_nat k) c (fresh_entity c (entities s ! x)))"
    using payloadsD [OF s3(5) i(3)] payloadsD [OF s3(5) x(1)] x(2) by simp_all
  have okx: "entity_ok (entities s ! x)" "entity_ok (fresh_entity c (entities s ! x))"
    using inv x by (auto simp: wp_inv_def fresh_entity_def entity_ok_def)
  have ok: "entity_ok (entities s3 ! p)" "entity_ok (entities s3 ! x)"
    using entity_ok_payload [OF pp] entity_ok_payload [OF px] i(5) okx by simp_all
  have cok: "base_ok c"
    using s3(4) i(6) next_base_blk [OF i(10) s3(4)] by (simp add: base_ok_def next_base_def partial_ok_def)
  have l: "unat (lba0 b) = unat l" "(ucast (l + of_nat k) :: u32) = lba0 b + of_nat k" "unat (l + of_nat k) = unat l + k"
    using ucast_lba [OF n(3)] k(2) by (simp_all add: l_def)
  have smp: "slot_map (entities s3 ! p) (unat (we_pos w)) k (lba0 b) ?cur"
    unfolding slot_map_payload [OF pp] l_def using slot_map_fill [of w k l] i(5,6) k n
    by (simp add: partial_ok_base l_def)
  have smx: "slot_map (entities s3 ! x) 0 ?m (lba0 b + of_nat k) c"
    unfolding slot_map_payload [OF px]
    using slot_map_fill [of "fresh_entity c (entities s ! x)" ?m "l + of_nat k"] okx cok k n l
    by (simp add: fresh_entity_def)
  have us: "user_slots (entities s3 ! p) (unat (we_pos w)) k" "user_slots (entities s3 ! x) 0 ?m"
    using user_slots_map [OF smp] user_slots_map [OF smx] l k n
    by (simp_all add: MAX_USER_LBA_eq unat_word_ariths unsigned_of_nat take_bit_nat_eq_self)
  have fc: "unat (we_fill_cnt (entities s3 ! p)) + k = 128" "we_fill_cnt (entities s3 ! x) = 0"
    using payload_eqD(8) [OF pp] payload_eqD(8) [OF px] i(6) k
    by (simp_all add: partial_ok_def unat_ucast_wide fresh_entity_def)
  obtain s5 where s5: "for_ctx [ctx p (we_pos w) k, if ?m = 0 then wcb_ctx_zero else ctx x 0 ?m, wcb_ctx_zero]
        flush_slot (s3, b) = Some (s5, bio_skip n b)" "cache_rep s5 E (F @ [p])"
      "payloads s5 (((\<lambda>i. entities s3 ! i)(p := completed (unat (we_pos w)) k b (entities s3 ! p)))
        (x := copied 0 ?m (bio_skip k b) (entities s3 ! x)))"
      "partial_entity (ctl s5) = Some x" "l2ptbl s5 = l2ptbl s" "sysm s5 = sysm s3" "same_env s s5"
    using cross_flush [OF s3(2) i(3) x(1) x(2) [symmetric] _ ok k(3,1) fc(1) us(1) fc(2) k(5) us(2), of b]
      i(11) k(4) n(2) s3(3,6,9) unfolding same_env_def by auto
  have pp5: "payload (entities s5 ! p) = payload (completed (unat (we_pos w)) k b (entities s3 ! p))"
    and px5: "payload (entities s5 ! x) = payload (copied 0 ?m (bio_skip k b) (entities s3 ! x))"
    using payloadsD [OF s5(3) i(3)] payloadsD [OF s5(3) x(1)] x(2) by simp_all
  have ok5: "entity_ok (entities s5 ! p)" "entity_ok (entities s5 ! x)"
    using entity_ok_payload [OF pp5] entity_ok_payload [OF px5] ok k n(2)
    by (simp_all add: entity_ok_def completed_def copied_def)
  have sm5: "slot_map (entities s5 ! p) (unat (we_pos w)) k (lba0 b) ?cur"
      "slot_map (entities s5 ! x) 0 ?m (lba0 b + of_nat k) c"
    unfolding slot_map_payload [OF pp5] slot_map_payload [OF px5] using smp smx by simp_all
  obtain vpc where mp: "for_ctx [ctx p (we_pos w) k, if ?m = 0 then wcb_ctx_zero else ctx x 0 ?m, wcb_ctx_zero]
        map_slot s5 = Some (s5\<lparr>l2ptbl := cached_map ?m (lba0 b + of_nat k) c (cached_map k (lba0 b) ?cur (l2ptbl s5)),
          sysm := (sysm s5)\<lparr>vpctbl := vpc\<rparr>\<rparr>)" "length vpc = length (vpctbl (sysm s5))"
      "vpc_right (l2ptbl s5) (vpctbl (sysm s5)) \<longrightarrow>
       vpc_right (cached_map ?m (lba0 b + of_nat k) c (cached_map k (lba0 b) ?cur (l2ptbl s5))) vpc"
    using cross_map [OF cache_rep_length [OF s5(2)] i(3) x(1) ok5 k(3,1,5) sm5] l(1) k(4) n(3) i(9) s3(7) s5(6)
    by auto
  have av: "wcb_available s (sint (get_bio_nppa b)) = Some True"
    using wcb_available_iff [OF inv, of n] n(1) sint_nppa [OF b] by (simp add: n_def)
  have pl: "payloads s5 (((\<lambda>i. entities s ! i)(p := (appended k l b w)\<lparr>we_fill_cnt := 0\<rparr>))
      (x := appended ?m (l + of_nat k) (bio_skip k b) (fresh_entity c (entities s ! x))))"
  proof (rule payloads_cong [OF s5(3)])
    fix j :: nat assume j: "j < 16"
    have "payload (completed (unat (we_pos w)) k b (entities s3 ! p)) = payload ((appended k l b w)\<lparr>we_fill_cnt := 0\<rparr>)"
      using pp by (simp add: payload_copied appended_def flip: completed_def)
    moreover have "payload (copied 0 ?m (bio_skip k b) (entities s3 ! x)) =
        payload (appended ?m (l + of_nat k) (bio_skip k b) (fresh_entity c (entities s ! x)))"
      using px by (simp add: payload_copied appended_fresh)
    ultimately show "payload ((((\<lambda>i. entities s3 ! i)(p := completed (unat (we_pos w)) k b (entities s3 ! p)))
        (x := copied 0 ?m (bio_skip k b) (entities s3 ! x))) j) =
      payload ((((\<lambda>i. entities s ! i)(p := (appended k l b w)\<lparr>we_fill_cnt := 0\<rparr>))
        (x := appended ?m (l + of_nat k) (bio_skip k b) (fresh_entity c (entities s ! x)))) j)"
      using payloadsD [OF s3(5) j] by (simp split: if_splits)
  qed
  let ?s6 = "s5\<lparr>l2ptbl := cached_map ?m (lba0 b + of_nat k) c (cached_map k (lba0 b) ?cur (l2ptbl s5)),
      sysm := (sysm s5)\<lparr>vpctbl := vpc\<rparr>\<rparr>"
  have "cache_rep ?s6 E (F @ [p])" "payloads ?s6 (((\<lambda>i. entities s ! i)(p := (appended k l b w)\<lparr>we_fill_cnt := 0\<rparr>))
      (x := appended ?m (l + of_nat k) (bio_skip k b) (fresh_entity c (entities s ! x))))"
    using s5(2) pl by (simp_all add: cache_rep_def payloads_def)
  then show ?thesis
    using process_alloc [OF av s3(1) [unfolded l_def] s5(1) mp(1)] s5(4-7) s3(4,7,8) mp(2,3)
    by (intro exI [of _ ?s6] exI [of _ c] exI [of _ B']) (simp add: same_env_def)
qed

section \<open>The abstract append\<close>

text \<open>
  The abstract write cache: the empty entities, the full ones, the partial entity and the number of
  its slots taken.
\<close>

definition abs_write :: "nat \<Rightarrow> nat list \<times> nat list \<times> nat \<times> nat \<Rightarrow> nat list \<times> nat list \<times> nat \<times> nat" where
  "abs_write n = (\<lambda>(E, F, p, pos).
     if pos + n < RAID_LUN_SEC_NUM then (E, F, p, pos + n)
     else (tl E, F @ [p], hd E, pos + n - RAID_LUN_SEC_NUM))"

definition abs_full :: "nat \<Rightarrow> nat list \<times> nat list \<times> nat \<times> nat \<Rightarrow> bool" where
  "abs_full n = (\<lambda>(E, F, p, pos). RAID_LUN_SEC_NUM - pos \<le> n + (n div 4 + 2) \<and> E = [])"

definition wcb_abs :: "ftl \<Rightarrow> nat list \<Rightarrow> nat list \<times> nat list \<times> nat \<times> nat \<Rightarrow> bool" where
  "wcb_abs s B = (\<lambda>(E, F, p, pos). wp_inv s E F p B \<and> ppos s p = pos)"

lemma partial_ok_payload: "payload v = payload w \<Longrightarrow> partial_ok v = partial_ok w"
  using payload_eqD [of v w] slots_ok_payload [of v w] by (simp add: partial_ok_def)

lemma partial_ok_fresh: "base_ok c \<Longrightarrow> partial_ok (fresh_entity c w)"
  by (simp add: partial_ok_def base_ok_def fresh_entity_def slots_ok_def)

lemma entity_ok_fresh [simp]: "entity_ok (fresh_entity c w) = entity_ok w"
  by (simp add: fresh_entity_def entity_ok_def)

lemma fresh_sel [simp]: "we_pos (fresh_entity c w) = 0" "we_baddr (fresh_entity c w) = c" "we_fill_cnt (fresh_entity c w) = 0"
  by (simp_all add: fresh_entity_def)

lemma pos_appended: "we_pos (appended n slba b w) = we_pos w + of_nat n"
  by (simp add: appended_def copied_def fill_pos)

lemma slots_ok_appended:
  "entity_ok w \<Longrightarrow> partial_ok w \<Longrightarrow> unat (we_pos w) + n \<le> 128 \<Longrightarrow>
   slots_ok (appended n slba b w) (unat (we_pos w) + n)"
  using slots_ok_fill [of w n slba] by (simp add: partial_ok_def appended_def copied_def slots_ok_def)

lemma cross_inv:
  assumes inv: "wp_inv s (x # E) F p B"
  defines "w \<equiv> entities s ! p" and "k \<equiv> 128 - ppos s p"
  assumes m: "m < 128" "k + m \<le> length (bi_pages b)"
    and s': "cache_rep s' E (F @ [p])" "partial_entity (ctl s') = Some x" "next_base B (we_baddr w) B' c"
      "payloads s' (((\<lambda>i. entities s ! i)(p := (appended k l b w)\<lparr>we_fill_cnt := 0\<rparr>))
        (x := appended m l' (bio_skip k b) (fresh_entity c (entities s ! x))))"
      "pool_rep (free_pool (sysm s')) B'" "length (vpctbl (sysm s')) = length (vpctbl (sysm s))"
  shows "wp_inv s' E (F @ [p]) x B'" "ppos s' x = m"
proof -
  note i = wp_invD [OF inv, folded w_def]
  have x: "x < 16" "x \<noteq> p" "x \<notin> set E \<union> set (F @ [p])"
    using i(11) cache_rep_bound [OF i(1), of x] cache_rep_distinct [OF i(1)] by auto
  have pe: "payload (entities s' ! j) = payload ((((\<lambda>i. entities s ! i)(p := (appended k l b w)\<lparr>we_fill_cnt := 0\<rparr>))
      (x := appended m l' (bio_skip k b) (fresh_entity c (entities s ! x)))) j)" if "j < 16" for j
    using s'(4) that by (rule payloadsD)
  have ok0: "entity_ok (entities s ! j)" if "j < 16" for j
    using inv that by (simp add: wp_inv_def)
  have kw: "unat (we_pos w) + k = 128" "k \<le> length (bi_pages b)"
    using i(7) m(2) by (simp_all add: k_def w_def)
  have okp: "entity_ok (appended k l b w)" "slots_ok (appended k l b w) 128"
    using entity_ok_appended [of w k b l] slots_ok_appended [of w k l b] i(5,6) kw by simp_all
  have okx: "entity_ok (appended m l' (bio_skip k b) (fresh_entity c (entities s ! x)))"
    using entity_ok_appended [of "fresh_entity c (entities s ! x)" m "bio_skip k b" l'] ok0 [OF x(1)] m
    by simp
  have cok: "base_ok c"
    using s'(3) i(6) next_base_blk [OF i(10) s'(3)] by (simp add: base_ok_def next_base_def partial_ok_def)
  have px: "partial_ok (appended m l' (bio_skip k b) (fresh_entity c (entities s ! x)))"
    using partial_ok_appended [OF partial_ok_fresh [OF cok], of "entities s ! x" m] ok0 [OF x(1)] m(1)
    by simp
  show "ppos s' x = m"
    using payload_eqD(7) [OF pe [OF x(1)]] m(1)
    by (simp add: pos_appended unsigned_of_nat take_bit_nat_eq_self)
  have "entity_ok (entities s' ! j)" if "j < 16" for j
    unfolding entity_ok_payload [OF pe [OF that]] using okp(1) okx ok0 [OF that] by (simp add: entity_ok_def)
  moreover have "slots_ok (entities s' ! f) 128" if "f \<in> set (F @ [p])" for f
  proof -
    have f: "f < 16" "f \<noteq> x"
      using that x i(1,3) cache_rep_bound [OF i(1), of f] by auto
    show ?thesis
      unfolding slots_ok_payload [OF pe [OF f(1)]] using f(2) okp(2) that inv
      by (auto simp: slots_ok_def wp_inv_def)
  qed
  moreover have "partial_ok (entities s' ! x)"
    unfolding partial_ok_payload [OF pe [OF x(1)]] using px by simp
  ultimately show "wp_inv s' E (F @ [p]) x B'"
    using s' x i(9) by (simp add: wp_inv_def)
qed

lemma links_appended [simp]: "links (appended n slba b w) = links w"
proof -
  have "links (copied q n b v) = links v" for q v
    by (simp add: links_def copied_def)
  then show ?thesis
    by (simp add: appended_def)
qed

lemma write_step_in:
  assumes inv: "wp_inv s E F p B" and b: "bio_ok b" and room: "ppos s p + nppa b < 128" "\<not> abs_full (nppa b) (E, F, p, ppos s p)"
  shows "\<exists>s'. process_write_bio s b = Some (FSCFTL_BIO_COMPLETE, s', bio_skip (nppa b) b) \<and>
    wp_inv s' E F p B \<and> ppos s' p = ppos s p + nppa b \<and>
    entities s' = (entities s)[p := appended (nppa b) (get_bio_slba b) b (entities s ! p)] \<and>
    l2ptbl s' = cached_map (nppa b) (lba0 b) (we_baddr (entities s ! p) + ucast (we_pos (entities s ! p))) (l2ptbl s) \<and>
    same_env s s' \<and>
    (vpc_right (l2ptbl s) (vpctbl (sysm s)) \<longrightarrow> vpc_right (l2ptbl s') (vpctbl (sysm s')))"
proof -
  note i = wp_invD [OF inv]
  let ?w = "entities s ! p" and ?n = "nppa b"
  let ?v = "appended ?n (get_bio_slba b) b ?w" and ?c = "we_baddr ?w + ucast (we_pos ?w)"
  have n: "?n \<le> 64" "?n \<le> length (bi_pages b)"
    using b by (auto simp: bio_ok_def)
  have av: "wcb_available s (int ?n) = Some True"
    using wcb_available_iff [OF inv, of ?n] n(1) room(2) by (simp add: abs_full_def)
  have v: "entity_ok ?v" "partial_ok ?v"
    using entity_ok_appended [of ?w ?n b] partial_ok_appended [of ?w ?n] i(5,6) room(1) n(2) by simp_all
  have wi: "wp_inv (put_entity p ?v s) E F p B"
    by (rule wp_inv_put [OF inv _ v]) simp
  have pos: "unat (we_pos ?v) = ppos s p + ?n"
    unfolding pos_appended using room(1) by (intro unat_add_pos) simp
  obtain vpc where vpc: "process_write_bio s b = Some (FSCFTL_BIO_COMPLETE,
      (put_entity p ?v s)\<lparr>l2ptbl := cached_map ?n (lba0 b) ?c (l2ptbl s), sysm := (sysm s)\<lparr>vpctbl := vpc\<rparr>\<rparr>,
      bio_skip ?n b)" "length vpc = length (vpctbl (sysm s))"
      "vpc_right (l2ptbl s) (vpctbl (sysm s)) \<longrightarrow> vpc_right (cached_map ?n (lba0 b) ?c (l2ptbl s)) vpc"
    using write_in [OF inv b room(1) av] by blast
  let ?s' = "(put_entity p ?v s)\<lparr>l2ptbl := cached_map ?n (lba0 b) ?c (l2ptbl s), sysm := (sysm s)\<lparr>vpctbl := vpc\<rparr>\<rparr>"
  have "wp_inv ?s' E F p B"
    using wi vpc(2) by (simp add: wp_inv_def cache_rep_def)
  moreover have "ppos ?s' p = ppos s p + ?n"
    using pos i(2,3) by simp
  ultimately show ?thesis
    using vpc(1,3) by (intro exI [of _ ?s']) (simp add: same_env_def)
qed

lemma write_step_cross:
  assumes inv: "wp_inv s (x # E) F p B" and b: "bio_ok b" and full: "128 \<le> ppos s p + nppa b"
  defines "w \<equiv> entities s ! p" and "k \<equiv> 128 - ppos s p"
  shows "\<exists>s' c B'. process_write_bio s b = Some (FSCFTL_BIO_COMPLETE, s', bio_skip (nppa b) b) \<and>
    wp_inv s' E (F @ [p]) x B' \<and> ppos s' x = ppos s p + nppa b - 128 \<and> next_base B (we_baddr w) B' c \<and>
    payloads s' (((\<lambda>i. entities s ! i)(p := (appended k (get_bio_slba b) b w)\<lparr>we_fill_cnt := 0\<rparr>))
      (x := appended (nppa b - k) (get_bio_slba b + of_nat k) (bio_skip k b) (fresh_entity c (entities s ! x)))) \<and>
    l2ptbl s' = cached_map (nppa b - k) (lba0 b + of_nat k) c
      (cached_map k (lba0 b) (we_baddr w + ucast (we_pos w)) (l2ptbl s)) \<and> same_env s s' \<and>
    (vpc_right (l2ptbl s) (vpctbl (sysm s)) \<longrightarrow> vpc_right (l2ptbl s') (vpctbl (sysm s')))"
proof -
  have m: "nppa b - k < 128" "k + (nppa b - k) \<le> length (bi_pages b)" "nppa b - k = ppos s p + nppa b - 128"
    using b full wp_invD(7) [OF inv] by (auto simp: bio_ok_def k_def)
  obtain s' c B' where s': "process_write_bio s b = Some (FSCFTL_BIO_COMPLETE, s', bio_skip (nppa b) b)"
      "cache_rep s' E (F @ [p])" "partial_entity (ctl s') = Some x" "next_base B (we_baddr w) B' c"
      "payloads s' (((\<lambda>i. entities s ! i)(p := (appended k (get_bio_slba b) b w)\<lparr>we_fill_cnt := 0\<rparr>))
        (x := appended (nppa b - k) (get_bio_slba b + of_nat k) (bio_skip k b) (fresh_entity c (entities s ! x))))"
      "l2ptbl s' = cached_map (nppa b - k) (lba0 b + of_nat k) c
        (cached_map k (lba0 b) (we_baddr w + ucast (we_pos w)) (l2ptbl s))"
      "pool_rep (free_pool (sysm s')) B'" "same_env s s'" "length (vpctbl (sysm s')) = length (vpctbl (sysm s))"
      "vpc_right (l2ptbl s) (vpctbl (sysm s)) \<longrightarrow> vpc_right (l2ptbl s') (vpctbl (sysm s'))"
    using write_cross [OF inv b full] unfolding w_def k_def by blast
  have "wp_inv s' E (F @ [p]) x B'" "ppos s' x = nppa b - k"
    using cross_inv [OF inv m(1) [unfolded k_def] m(2) [unfolded k_def] s'(2,3) s'(4) [unfolded w_def]
      s'(5) [unfolded w_def k_def] s'(7,9)] by (simp_all add: k_def)
  then show ?thesis
    using s' m(3) by (intro exI [of _ s'] exI [of _ c] exI [of _ B']) simp
qed

end
