(* ===== verification/Wcb_Init.thy ===== *)
theory Wcb_Init
  imports Write_Refine
begin

text \<open>
  Setting the write cache up: what \<open>write_cache_alloc\<close> (\<open>wcb-mngr.c\<close>) and
  \<open>prepare_write_context\<close> (\<open>fscftl-init.c\<close>) leave behind, and the buffers the error path of
  \<open>wcb_lun_mem_alloc\<close> gives back.
\<close>

section \<open>The context of the first write\<close>

definition prepare_write_context :: "ftl \<Rightarrow> ftl option" where
  "prepare_write_context s = do {
     (blk, m) \<leftarrow> get_blk_from_free_list (sysm s);
     let startppa = set_blk blk 0;
     (e, s) \<leftarrow> get_lun_entity (s\<lparr>sysm := m\<rparr>) startppa;
     let s = set_partial e s;
     print_lun_entitys_fifo s;
     Some s
   }"

section \<open>The allocation loop\<close>

definition init_entity :: "nat \<Rightarrow> nat \<Rightarrow> wcb_lun_entity" where
  "init_entity i j = entity_zero\<lparr>we_index := if j < i then of_nat j else 0\<rparr>"

text \<open>After \<open>i\<close> turns the first \<open>i\<close> entities are numbered and queued.\<close>

definition init_inv :: "nat \<Rightarrow> wcb_lun_entity list \<times> fsc_fifo \<Rightarrow> bool" where
  "init_inv i = (\<lambda>(es, f). length es = CB_ENTITYS_CNT \<and>
     el.linked es (fifo_head f) (fifo_tail f) [0..<i] \<and> fifo_size f = of_nat i \<and>
     (\<forall>j < CB_ENTITYS_CNT. payload (es ! j) = payload (init_entity i j)))"

lemma push_entity_nodes_idx:
  assumes "length es = CB_ENTITYS_CNT" "x < CB_ENTITYS_CNT" "we_index (es ! x) = of_nat x"
    and "fifo_tail f \<noteq> 0xffff \<Longrightarrow> unat (fifo_tail f) < CB_ENTITYS_CNT"
  shows "push_lun_entity_to_fifo es f x =
    Some (el.push_nodes es (fifo_tail f) x,
      \<lparr>fifo_head = (if fifo_tail f = 0xffff then of_nat x else fifo_head f),
       fifo_tail = of_nat x, fifo_size = fifo_size f + 1\<rparr>)"
  using assms
  by (cases "fifo_tail f = 0xffff")
    (simp_all add: push_lun_entity_to_fifo_def wcb_lun_entity_idx_def el.push_nodes_def Let_def)

lemma init_step:
  assumes inv: "init_inv i (es, f)" and i: "i < CB_ENTITYS_CNT"
  defines "es1 \<equiv> es[i := (es ! i)\<lparr>we_index := of_nat i, we_next := 0xffff, we_prev := 0xffff\<rparr>]"
  shows "\<exists>es2 f2. push_lun_entity_to_fifo es1 f i = Some (es2, f2) \<and>
    init_inv (Suc i) (es2[i := (es2 ! i)\<lparr>we_fill_cnt := 0\<rparr>], f2)"
proof -
  have len: "length es = CB_ENTITYS_CNT" "length es1 = CB_ENTITYS_CNT" and l: "el.linked es (fifo_head f) (fifo_tail f) [0..<i]"
    and pl: "\<And>j. j < CB_ENTITYS_CNT \<Longrightarrow> payload (es ! j) = payload (init_entity i j)"
    using inv by (auto simp: init_inv_def es1_def)
  have l1: "el.linked es1 (fifo_head f) (fifo_tail f) [0..<i]"
    using l by (rule el.linked_frame) (auto simp: es1_def)
  have t: "unat (fifo_tail f) < CB_ENTITYS_CNT" if "fifo_tail f \<noteq> 0xffff"
    using that l1 el.linked_tail_nil [OF l1] el.linked_bound [OF l1, of "last [0..<i]"] i len
    by (cases i) (auto simp: el.linked_def)
  let ?es2 = "el.push_nodes es1 (fifo_tail f) i"
  have p: "push_lun_entity_to_fifo es1 f i = Some (?es2,
      \<lparr>fifo_head = (if fifo_tail f = 0xffff then of_nat i else fifo_head f),
       fifo_tail = of_nat i, fifo_size = fifo_size f + 1\<rparr>)"
    using push_entity_nodes_idx [OF len(2) i _ t] i len by (simp add: es1_def)
  have l2: "el.linked ?es2 (if fifo_tail f = 0xffff then of_nat i else fifo_head f) (of_nat i) [0..<Suc i]"
    using el.linked_push [OF l1, of i] i len by simp
  have pl2: "payload (?es2 ! j) = payload (es1 ! j)" if "j < CB_ENTITYS_CNT" for j
    using push_nodes_payload [of i es1 "fifo_tail f"] t i len that
    by (intro map_payload_nth) auto
  let ?es3 = "?es2[i := (?es2 ! i)\<lparr>we_fill_cnt := 0\<rparr>]"
  have l3: "el.linked ?es3 (if fifo_tail f = 0xffff then of_nat i else fifo_head f) (of_nat i) [0..<Suc i]"
    using l2 by (rule el.linked_frame) (use i len in \<open>auto simp: nth_list_update\<close>)
  have "payload (?es3 ! j) = payload (init_entity (Suc i) j)" if j: "j < CB_ENTITYS_CNT" for j
  proof (cases "j = i")
    case True
    have "payload (?es3 ! i) = (payload (?es2 ! i))\<lparr>we_fill_cnt := 0\<rparr>"
      using i len by (simp add: payload_def)
    also have "\<dots> = (payload (es ! i))\<lparr>we_index := of_nat i, we_fill_cnt := 0\<rparr>"
      using pl2 [OF i] i len by (simp add: es1_def payload_def)
    finally show ?thesis
      using True pl [OF i] by (simp add: init_entity_def payload_def entity_zero_def)
  next
    case False
    then show ?thesis
      using pl2 [OF j] pl [OF j] by (auto simp: es1_def init_entity_def)
  qed
  then show ?thesis
    using p l3 inv len by (simp add: init_inv_def add.commute)
qed

section \<open>The buffers\<close>

primrec bufs :: "nat \<Rightarrow> (nat \<times> dma_buf) list" where
  "bufs 0 = []"
| "bufs (Suc i) = (i, PpaBuf) # (i, MetaBuf) # (i, DataBuf) # bufs i"

definition dma_ok :: "(nat \<Rightarrow> dma_buf \<Rightarrow> bool) \<Rightarrow> nat \<Rightarrow> bool" where
  "dma_ok dma i \<longleftrightarrow> dma i DataBuf \<and> dma i MetaBuf \<and> dma i PpaBuf"

lemma single_alloc:
  "wcb_single_lun_alloc dma i live =
     (if dma_ok dma i then (0, (i, PpaBuf) # (i, MetaBuf) # (i, DataBuf) # live) else (- ENOMEM, live))"
  by (auto simp: wcb_single_lun_alloc_def dma_ok_def)

lemma single_free [simp]: "wcb_single_lun_free i ((i, PpaBuf) # (i, MetaBuf) # (i, DataBuf) # live) = live"
  by (simp add: wcb_single_lun_free_def)

lemma free_loop_bufs: "0 < i \<Longrightarrow> free_lun_mem_loop i (bufs i) = bufs 1"
proof (induction i)
  case (Suc i)
  then show ?case
    by (cases i) simp_all
qed simp

lemma init_0: "init_inv 0 (replicate CB_ENTITYS_CNT entity_zero, fsc_fifo_init)"
  by (simp add: init_inv_def fsc_fifo_init_def init_entity_def entity_zero_def)

text \<open>The loop from turn \<open>i\<close> on: it runs to the end, or to the first entity without memory.\<close>

lemma alloc_loop_ok:
  assumes "init_inv i (lun_entitys g, empty_lun g)" "i + n = CB_ENTITYS_CNT" "\<forall>j. i \<le> j \<and> j < CB_ENTITYS_CNT \<longrightarrow> dma_ok dma j"
  shows "\<exists>es f. wcb_lun_mem_alloc_loop dma n i g (bufs i) =
      Some (0, g\<lparr>lun_entitys := es, empty_lun := f\<rparr>, bufs CB_ENTITYS_CNT) \<and> init_inv CB_ENTITYS_CNT (es, f)"
  using assms
proof (induction n arbitrary: i g)
  case 0
  then show ?case
    by (intro exI [of _ "lun_entitys g"] exI [of _ "empty_lun g"]) simp
next
  case (Suc n)
  have i: "i < CB_ENTITYS_CNT" and len: "length (lun_entitys g) = CB_ENTITYS_CNT"
    using Suc.prems by (simp_all add: init_inv_def)
  obtain es2 f2 where s: "push_lun_entity_to_fifo ((lun_entitys g)[i := (lun_entitys g ! i)
        \<lparr>we_index := of_nat i, we_next := 0xffff, we_prev := 0xffff\<rparr>]) (empty_lun g) i = Some (es2, f2)"
      "init_inv (Suc i) (es2[i := (es2 ! i)\<lparr>we_fill_cnt := 0\<rparr>], f2)"
    using init_step [OF Suc.prems(1) i] by blast
  let ?g = "g\<lparr>lun_entitys := es2[i := (es2 ! i)\<lparr>we_fill_cnt := 0\<rparr>], empty_lun := f2\<rparr>"
  have "length es2 = CB_ENTITYS_CNT"
    using s(2) by (simp add: init_inv_def)
  then have "wcb_lun_mem_alloc_loop dma (Suc n) i g (bufs i) = wcb_lun_mem_alloc_loop dma n (Suc i) ?g (bufs (Suc i))"
    using s(1) i len Suc.prems(3) by (simp add: single_alloc)
  moreover obtain es f where "wcb_lun_mem_alloc_loop dma n (Suc i) ?g (bufs (Suc i)) =
      Some (0, ?g\<lparr>lun_entitys := es, empty_lun := f\<rparr>, bufs CB_ENTITYS_CNT)" "init_inv CB_ENTITYS_CNT (es, f)"
    using Suc.IH [of "Suc i" ?g] Suc.prems(2,3) s(2) by auto
  ultimately show ?case
    by auto
qed

lemma alloc_loop_fail:
  assumes "init_inv i (lun_entitys g, empty_lun g)" "i + n = CB_ENTITYS_CNT" "i \<le> k" "k < CB_ENTITYS_CNT" "0 < k"
    and "\<forall>j. i \<le> j \<and> j < k \<longrightarrow> dma_ok dma j" "\<not> dma_ok dma k"
  shows "\<exists>g'. wcb_lun_mem_alloc_loop dma n i g (bufs i) = Some (- ENOMEM, g', bufs 1)"
  using assms
proof (induction n arbitrary: i g)
  case (Suc n)
  have i: "i < CB_ENTITYS_CNT" and len: "length (lun_entitys g) = CB_ENTITYS_CNT"
    using Suc.prems by (simp_all add: init_inv_def)
  obtain es2 f2 where s: "push_lun_entity_to_fifo ((lun_entitys g)[i := (lun_entitys g ! i)
        \<lparr>we_index := of_nat i, we_next := 0xffff, we_prev := 0xffff\<rparr>]) (empty_lun g) i = Some (es2, f2)"
      "init_inv (Suc i) (es2[i := (es2 ! i)\<lparr>we_fill_cnt := 0\<rparr>], f2)"
    using init_step [OF Suc.prems(1) i] by blast
  let ?g = "g\<lparr>lun_entitys := es2[i := (es2 ! i)\<lparr>we_fill_cnt := 0\<rparr>], empty_lun := f2\<rparr>"
  have len2: "length es2 = CB_ENTITYS_CNT"
    using s(2) by (simp add: init_inv_def)
  show ?case
  proof (cases "i = k")
    case True
    with s(1) i len len2 Suc.prems(5,7) show ?thesis
      by (simp add: single_alloc free_lun_mem_def free_loop_bufs)
  next
    case False
    then have "wcb_lun_mem_alloc_loop dma (Suc n) i g (bufs i) = wcb_lun_mem_alloc_loop dma n (Suc i) ?g (bufs (Suc i))"
      using s(1) i len len2 Suc.prems(3,6) by (simp add: single_alloc)
    with Suc.IH [of "Suc i" ?g] Suc.prems s(2) False show ?thesis
      by simp
  qed
qed simp

section \<open>The state the first write finds\<close>

definition cache_init :: "wcb_lun_gctl \<Rightarrow> bool" where
  "cache_init g \<longleftrightarrow> init_inv CB_ENTITYS_CNT (lun_entitys g, empty_lun g) \<and> full_lun g = fsc_fifo_init \<and>
     partial_entity g = None \<and> requeue_wr_bios g = [] \<and> outstanding_lun g = 0"

lemma cache_init_rep: "cache_init (ctl s) \<Longrightarrow> cache_rep s [0..<CB_ENTITYS_CNT] []"
proof -
  assume c: "cache_init (ctl s)"
  then have i: "init_inv CB_ENTITYS_CNT (entities s, empty_lun (ctl s))"
    by (simp add: cache_init_def)
  have "we_index (entities s ! j) = of_nat j" if "j < CB_ENTITYS_CNT" for j
    using i that payload_eqD(1) [of "entities s ! j" "init_entity CB_ENTITYS_CNT j"]
    by (simp add: init_inv_def init_entity_def)
  with c i show ?thesis
    by (auto simp: cache_rep_def lun_rep_def entity_array_def init_inv_def cache_init_def fsc_fifo_init_def)
qed

lemma write_cache_alloc_ok:
  assumes "\<forall>j < CB_ENTITYS_CNT. dma_ok dma j"
  shows "\<exists>g. write_cache_alloc True True dma = Some (0, Some g, bufs CB_ENTITYS_CNT) \<and> cache_init g"
proof -
  define g where "g = the (snd (wcb_lun_ctl_init True True))"
  have g: "wcb_lun_ctl_init True True = (0, Some g)"
    by (simp add: g_def wcb_lun_ctl_init_def)
  have "init_inv 0 (lun_entitys g, empty_lun g)"
    using init_0 by (simp add: g_def wcb_lun_ctl_init_def)
  then obtain es f where l: "wcb_lun_mem_alloc_loop dma CB_ENTITYS_CNT 0 g (bufs 0) =
      Some (0, g\<lparr>lun_entitys := es, empty_lun := f\<rparr>, bufs CB_ENTITYS_CNT)" "init_inv CB_ENTITYS_CNT (es, f)"
    using alloc_loop_ok [of 0 g CB_ENTITYS_CNT dma] assms by auto
  have "write_cache_alloc True True dma = Some (0, Some (g\<lparr>lun_entitys := es, empty_lun := f\<rparr>), bufs CB_ENTITYS_CNT)"
    using l(1) by (simp add: write_cache_alloc_def g wcb_lun_mem_alloc_def del: CB_ENTITYS_CNT_def)
  moreover have "cache_init (g\<lparr>lun_entitys := es, empty_lun := f\<rparr>)"
    using l(2) by (simp add: cache_init_def g_def wcb_lun_ctl_init_def)
  ultimately show ?thesis
    by blast
qed

lemma set_blk_base:
  "b < CFG_NAND_BLOCK_NUM \<Longrightarrow> base_ok (set_blk (of_nat b) 0) \<and> ppa_blk (set_blk (of_nat b) 0) = of_nat b \<and>
   stripe (set_blk (of_nat b) 0) = 0 \<and> ppa_ch (set_blk (of_nat b) 0) = 0 \<and> ppa_sec (set_blk (of_nat b) 0) = 0 \<and>
   ppa_pl (set_blk (of_nat b) 0) = 0 \<and> set_pl 0 (set_sec 0 (set_ch 0 (set_blk (of_nat b) 0))) = set_blk (of_nat b) 0"
proof -
  assume b: "b < CFG_NAND_BLOCK_NUM"
  let ?p = "set_blk (of_nat b) 0"
  have f: "ppa_blk ?p = of_nat b" "ppa_ch ?p = 0" "ppa_sec ?p = 0" "ppa_pl ?p = 0" "ppa_lun ?p = 0" "ppa_pg ?p = 0"
      "ppa_in_cache ?p = 0"
    using b by (simp_all add: ppa_defs bf_simps word_unat_eq_iff unsigned_take_bit_eq unsigned_of_nat take_bit_nat_eq_self)
  have low: "\<not> bit ?p i" if "i < 7" for i
    using that by (simp add: set_blk_def bit_bf_set)
  have "lun_aligned ?p"
    unfolding lun_aligned_def by (rule bit_word_eqI) (use low in \<open>auto simp: bit_simps\<close>)
  moreover have "set_pl 0 (set_sec 0 (set_ch 0 ?p)) = ?p"
    by (rule bit_word_eqI) (use low in \<open>auto simp: set_pl_def set_sec_def set_ch_def bit_bf_set\<close>)
  ultimately show ?thesis
    using f b by (simp add: base_ok_def stripe_def unsigned_of_nat take_bit_nat_eq_self)
qed

lemma prepare_at:
  assumes c: "cache_init (ctl s)" and m: "get_blk_from_free_list (sysm s) = Some (of_nat b, m)" "pool_rep (free_pool m) B"
      "vpctbl m = vpctbl (sysm s)" "b < CFG_NAND_BLOCK_NUM"
    and v: "CFG_NAND_BLOCK_NUM \<le> length (vpctbl (sysm s))"
  shows "\<exists>s'. prepare_write_context s = Some s' \<and> wcb_abs s' B ([1..<CB_ENTITYS_CNT], [], 0, 0) \<and>
    we_baddr (entities s' ! 0) = set_blk (of_nat b) 0 \<and> l2ptbl s' = l2ptbl s \<and>
    vpctbl (sysm s') = vpctbl (sysm s) \<and> requeue_wr_bios (ctl s') = [] \<and> outstanding_lun (ctl s') = 0"
proof -
  let ?p = "set_blk (of_nat b) 0" and ?s = "s\<lparr>sysm := m\<rparr>"
  note p = set_blk_base [OF m(4)]
  have split: "[0..<CB_ENTITYS_CNT] = 0 # [1..<CB_ENTITYS_CNT]"
    by (subst upt_conv_Cons) simp_all
  have "cache_rep ?s (0 # [1..<CB_ENTITYS_CNT]) []"
    using cache_init_rep [OF c] unfolding split [symmetric] by (simp add: cache_rep_def)
  then obtain s1 where s1: "pull_empty ?s = Some (Some 0, s1)" "cache_rep s1 [1..<CB_ENTITYS_CNT] []" "same_rest ?s s1"
    using pull_empty_ok by blast
  let ?w = "(entities s1 ! 0)\<lparr>we_baddr := ?p, we_pos := 0, we_cqe_flag := 0\<rparr>"
  let ?s2 = "set_partial (Some 0) (put_entity 0 ?w s1)"
  have len: "length (entities s1) = 16" "length (entities s) = 16"
    using cache_rep_length [OF s1(2)] cache_rep_length [OF cache_init_rep [OF c]] by auto
  have pl: "payload (entities s1 ! j) = payload (init_entity 16 j)" if "j < 16" for j
    using same_rest_nth [OF s1(3), of j] that len c by (simp add: cache_init_def init_inv_def)
  have ok: "entity_ok (entities s1 ! j)" if "j < 16" for j
    using entity_ok_payload [OF pl [OF that]] by (simp add: init_entity_def entity_zero_def entity_ok_def)
  have "prepare_write_context s = Some ?s2"
    using m(1) s1(1) len p
    by (simp add: prepare_write_context_def get_lun_entity_def print_lun_entitys_fifo_def Let_def)
      (simp add: set_partial_def)
  moreover have "cache_rep ?s2 [1..<CB_ENTITYS_CNT] []"
    using cache_rep_put [OF s1(2), of ?w 0] cache_rep_cong [of ?s2 "put_entity 0 ?w s1"] by (simp add: links_def)
  moreover have "partial_ok ?w"
    using payload_eqD(8) [OF pl [of 0]] p m(4)
    by (simp add: partial_ok_def base_ok_def slots_ok_def init_entity_def entity_zero_def
      unsigned_of_nat take_bit_nat_eq_self)
  moreover have "\<forall>j < 16. entity_ok (entities ?s2 ! j)"
    using ok len by (auto simp: nth_list_update entity_ok_def)
  ultimately show ?thesis
    using s1(3) m v len c
    by (intro exI [of _ ?s2]) (simp add: wcb_abs_def wp_inv_def same_rest_def cache_init_def)
qed

lemma prepare_ok:
  assumes "cache_init (ctl s)" and "pool_rep (free_pool (sysm s)) (b # B)" and "CFG_NAND_BLOCK_NUM \<le> length (vpctbl (sysm s))"
  shows "\<exists>s'. prepare_write_context s = Some s' \<and> wcb_abs s' B ([1..<CB_ENTITYS_CNT], [], 0, 0) \<and>
    we_baddr (entities s' ! 0) = set_blk (of_nat b) 0 \<and> l2ptbl s' = l2ptbl s \<and>
    vpctbl (sysm s') = vpctbl (sysm s) \<and> requeue_wr_bios (ctl s') = [] \<and> outstanding_lun (ctl s') = 0"
  using get_blk_from_free_list_Cons [OF assms(2)] prepare_at [OF assms(1) _ _ _ _ assms(3)] by blast

text \<open>With no free block the write path starts on block 0.\<close>

lemma prepare_empty:
  assumes "cache_init (ctl s)" and "pool_rep (free_pool (sysm s)) []" and "CFG_NAND_BLOCK_NUM \<le> length (vpctbl (sysm s))"
  shows "\<exists>s'. prepare_write_context s = Some s' \<and> wcb_abs s' [] ([1..<CB_ENTITYS_CNT], [], 0, 0) \<and>
    we_baddr (entities s' ! 0) = set_blk (of_nat 0) 0 \<and> l2ptbl s' = l2ptbl s"
  using get_blk_from_free_list_nil [OF assms(2)] assms(2) prepare_at [OF assms(1), of 0 "sysm s" "[]"] assms(3) by auto

section \<open>A started FTL\<close>

text \<open>
  The state after a start on an empty drive with the raid blocks 1 and 2 free; the examples of the
  write path run on it.
\<close>

definition boot_ftl :: "ftl option" where
  "boot_ftl = do {
     (_, g, _) \<leftarrow> write_cache_alloc True True (\<lambda>_ _. True);
     g \<leftarrow> g;
     m \<leftarrow> insert_blk_to_free_list sysmeta_initial 1;
     m \<leftarrow> insert_blk_to_free_list m 2;
     prepare_write_context \<lparr>ctl = g, sysm = m, l2ptbl = l2ptbl_initial\<rparr>
   }"

lemma vpc_right_init: "vpc_right l2ptbl_initial vpctbl_initial"
proof -
  have "unat (ppa_blk INVALID_PAGE) = 4095"
    by (simp add: ppa_blk_def bf_get_def INVALID_PAGE_def drop_bit_eq_div take_bit_eq_mod)
  then have "mapped_in l2ptbl_initial b = {}" if "b < 128" for b
    using that by (auto simp: mapped_in_def l2ptbl_initial_def)
  then show ?thesis
    by (simp add: vpc_right_def vpctbl_initial_def zone_defs)
qed

lemma boot_ok: "\<exists>s. boot_ftl = Some s \<and> wcb_abs s [2] ([1..<CB_ENTITYS_CNT], [], 0, 0) \<and>
   vpc_right (l2ptbl s) (vpctbl (sysm s)) \<and> requeue_wr_bios (ctl s) = [] \<and> outstanding_lun (ctl s) = 0 \<and>
   we_baddr (entities s ! 0) = set_blk (of_nat 1) 0 \<and> l2ptbl s = l2ptbl_initial"
proof -
  obtain g where g: "write_cache_alloc True True (\<lambda>_ _. True) = Some (0, Some g, bufs CB_ENTITYS_CNT)" "cache_init g"
    using write_cache_alloc_ok [of "\<lambda>_ _. True"] by (auto simp: dma_ok_def)
  obtain m1 where m1: "insert_blk_to_free_list sysmeta_initial 1 = Some m1" "pool_rep (free_pool m1) [1]"
      "vpctbl m1 = vpctbl_initial"
    using insert_blk_to_free_list_ok [OF pool_rep_init, of 1] by (auto simp: sysmeta_initial_def)
  obtain m2 where m2: "insert_blk_to_free_list m1 2 = Some m2" "pool_rep (free_pool m2) [1, 2]"
      "vpctbl m2 = vpctbl_initial"
    using insert_blk_to_free_list_ok [OF m1(2), of 2] m1(3) by auto
  let ?s = "\<lparr>ctl = g, sysm = m2, l2ptbl = l2ptbl_initial\<rparr>"
  have v: "CFG_NAND_BLOCK_NUM \<le> length (vpctbl (sysm ?s))"
    using m2(3) by (simp add: vpctbl_initial_def zone_defs)
  show ?thesis
    using prepare_ok [of ?s 1 "[2]", OF _ _ v] g(1,2) m1(1) m2 vpc_right_init by (auto simp: boot_ftl_def)
qed

end
