(* ===== verification/Write_Props.thy ===== *)
theory Write_Props
  imports Wcb_Init
begin

text \<open>
  The properties of a single write request on the host FTL: the refinement to the abstract append,
  the data and the mapping it leaves, the valid-page counters, and the set-up of the cache.
\<close>

section \<open>Where a written page can be found\<close>

text \<open>
  The cache holds page \<open>pg\<close> for \<open>l\<close>: the mapping of \<open>l\<close> carries the cache bit and the address
  of a slot, and that slot has the page and the LBA.
\<close>

definition holds_at :: "ftl \<Rightarrow> nat \<Rightarrow> nat \<Rightarrow> u32 \<Rightarrow> page \<Rightarrow> bool" where
  "holds_at s e q l pg \<longleftrightarrow> l2ptbl s l = set_in_cache 1 (we_baddr (entities s ! e) + of_nat q) \<and>
     we_data (entities s ! e) ! q = pg \<and> we_lba (entities s ! e) ! q = l"

definition cache_holds :: "ftl \<Rightarrow> u32 \<Rightarrow> page \<Rightarrow> bool" where
  "cache_holds s l pg \<longleftrightarrow> (\<exists>e < CB_ENTITYS_CNT. \<exists>q < RAID_LUN_SEC_NUM. holds_at s e q l pg)"

lemma cache_holdsI: "holds_at s e q l pg \<Longrightarrow> e < 16 \<Longrightarrow> q < 128 \<Longrightarrow> cache_holds s l pg"
  unfolding cache_holds_def by auto

lemma cached_map_hit: "i < n \<Longrightarrow> unat l + n \<le> 2 ^ 32 \<Longrightarrow>
    cached_map n l b tbl (l + of_nat i) = set_in_cache 1 (b + of_nat i)"
  by (simp add: cached_map_def unat_word_ariths unsigned_of_nat take_bit_nat_eq_self)

lemma cached_map_miss: "\<not> (unat l \<le> unat x \<and> unat x < unat l + n) \<Longrightarrow> cached_map n l b tbl x = tbl x"
  by (auto simp: cached_map_def)

lemma out_of_range: "\<forall>i < n. l \<noteq> l0 + of_nat i \<Longrightarrow> \<not> (unat l0 \<le> unat l \<and> unat l < unat l0 + n)" for l :: u32
proof
  assume a: "\<forall>i < n. l \<noteq> l0 + of_nat i" and r: "unat l0 \<le> unat l \<and> unat l < unat l0 + n"
  have "l = l0 + of_nat (unat l - unat l0)"
    using r by (metis le_add_diff_inverse of_nat_add of_nat_unat ucast_id)
  moreover have "unat l - unat l0 < n"
    using r by linarith
  ultimately show False
    using a by blast
qed

lemma baddr_appended [simp]: "we_baddr (appended n slba b w) = we_baddr w"
  by (simp add: appended_def copied_def)

lemma appended_slot:
  assumes "entity_ok w" "unat (we_pos w) + n \<le> 128" "i < n" "n \<le> length (bi_pages b)"
    and "unat slba + n \<le> Suc MAX_USER_LBA"
  shows "we_baddr (appended n slba b w) + of_nat (unat (we_pos w) + i) = we_baddr w + ucast (we_pos w) + of_nat i"
    and "we_data (appended n slba b w) ! (unat (we_pos w) + i) = bi_pages b ! i"
    and "we_lba (appended n slba b w) ! (unat (we_pos w) + i) = ucast slba + of_nat i"
  using assms appended_data [of w n b i slba] ucast_lba(2) [OF assms(5), of i]
  by (simp_all add: appended_def copied_def fill_nth algebra_simps)

lemma appended_holds:
  assumes "e < 16" "payload (entities s ! e) = payload v" "we_baddr v = we_baddr w"
    "we_data v = we_data (appended n slba b w)" "we_lba v = we_lba (appended n slba b w)"
    and "entity_ok w" "unat (we_pos w) + n \<le> 128" "i < n" "n \<le> length (bi_pages b)"
      "unat slba + n \<le> Suc MAX_USER_LBA"
    and "l2ptbl s (ucast slba + of_nat i) = set_in_cache 1 (we_baddr w + ucast (we_pos w) + of_nat i)"
  shows "holds_at s e (unat (we_pos w) + i) (ucast slba + of_nat i) (bi_pages b ! i)"
proof -
  let ?q = "unat (we_pos w) + i"
  note sl = appended_slot [OF assms(6-10)] and p = payload_eqD [OF assms(2)]
  have "we_baddr w + of_nat ?q = we_baddr w + ucast (we_pos w) + of_nat i"
    by (simp add: algebra_simps)
  then have "l2ptbl s (ucast slba + of_nat i) = set_in_cache 1 (we_baddr (entities s ! e) + of_nat ?q)"
    unfolding p assms(3,11) by (simp only:)
  moreover have "we_data (entities s ! e) ! ?q = bi_pages b ! i" "we_lba (entities s ! e) ! ?q = ucast slba + of_nat i"
    unfolding p assms(4,5) by (fact sl(2,3))+
  ultimately show ?thesis
    unfolding holds_at_def by blast
qed

lemma cached_map_two:
  assumes "unat l + (k + m) \<le> Suc MAX_USER_LBA"
  shows "j < k + m \<Longrightarrow> cached_map m (l + of_nat k) c' (cached_map k l c tbl) (l + of_nat j) =
      set_in_cache 1 (if j < k then c + of_nat j else c' + of_nat (j - k))"
    and "\<forall>j < k + m. x \<noteq> l + of_nat j \<Longrightarrow> cached_map m (l + of_nat k) c' (cached_map k l c tbl) x = tbl x"
proof -
  have u: "unat (l + of_nat j) = unat l + j" if "j \<le> k + m" for j
    using that assms by (simp add: MAX_USER_LBA_eq unat_word_ariths unsigned_of_nat take_bit_nat_eq_self)
  show "cached_map m (l + of_nat k) c' (cached_map k l c tbl) (l + of_nat j) =
      set_in_cache 1 (if j < k then c + of_nat j else c' + of_nat (j - k))" if "j < k + m"
    using that by (auto simp: cached_map_def u)
  show "cached_map m (l + of_nat k) c' (cached_map k l c tbl) x = tbl x" if "\<forall>j < k + m. x \<noteq> l + of_nat j"
    using out_of_range [OF that] by (auto simp: cached_map_def u)
qed

lemma found_in:
  assumes inv: "wp_inv s E F p B" and b: "bio_ok b" and room: "ppos s p + nppa b < 128"
    and nf: "\<not> abs_full (nppa b) (E, F, p, ppos s p)"
  shows "\<exists>s'. process_write_bio s b = Some (FSCFTL_BIO_COMPLETE, s', bio_skip (nppa b) b) \<and>
    (\<forall>i < nppa b. holds_at s' p (ppos s p + i) (lba0 b + of_nat i) (bi_pages b ! i)) \<and>
    (\<forall>l. (\<forall>i < nppa b. l \<noteq> lba0 b + of_nat i) \<longrightarrow> l2ptbl s' l = l2ptbl s l)"
proof -
  note i = wp_invD [OF inv]
  let ?w = "entities s ! p"
  have n: "nppa b \<le> length (bi_pages b)" "unat (get_bio_slba b) + nppa b \<le> Suc MAX_USER_LBA"
    using b by (auto simp: bio_ok_def)
  have l0: "unat (lba0 b) + nppa b \<le> 2 ^ 32"
    using ucast_lba(1) [OF n(2)] n(2) by (simp add: MAX_USER_LBA_eq)
  obtain s' where s': "process_write_bio s b = Some (FSCFTL_BIO_COMPLETE, s', bio_skip (nppa b) b)"
      "entities s' = (entities s)[p := appended (nppa b) (get_bio_slba b) b ?w]"
      "l2ptbl s' = cached_map (nppa b) (lba0 b) (we_baddr ?w + ucast (we_pos ?w)) (l2ptbl s)"
    using write_step_in [OF inv b room nf] by blast
  have pp: "payload (entities s' ! p) = payload (appended (nppa b) (get_bio_slba b) b ?w)"
    using s'(2) i(2,3) by simp
  have "holds_at s' p (ppos s p + j) (lba0 b + of_nat j) (bi_pages b ! j)" if "j < nppa b" for j
    using that room i(5) n l0 s'(3) cached_map_hit [OF that l0]
    by (intro appended_holds [OF i(3) pp]) simp_all
  moreover have "l2ptbl s' l = l2ptbl s l" if "\<forall>j < nppa b. l \<noteq> lba0 b + of_nat j" for l
    unfolding s'(3) using out_of_range [OF that] by (rule cached_map_miss)
  ultimately show ?thesis
    using s'(1) by blast
qed

lemma found_cross:
  assumes inv: "wp_inv s (x # E) F p B" and b: "bio_ok b" and k: "ppos s p + k = 128" "k + m = nppa b"
  shows "\<exists>s'. process_write_bio s b = Some (FSCFTL_BIO_COMPLETE, s', bio_skip (nppa b) b) \<and>
    (\<forall>i < k. holds_at s' p (ppos s p + i) (lba0 b + of_nat i) (bi_pages b ! i)) \<and>
    (\<forall>i < m. holds_at s' x i (lba0 b + of_nat (k + i)) (bi_pages b ! (k + i))) \<and>
    (\<forall>l. (\<forall>i < nppa b. l \<noteq> lba0 b + of_nat i) \<longrightarrow> l2ptbl s' l = l2ptbl s l)"
proof -
  note i = wp_invD [OF inv]
  let ?w = "entities s ! p" and ?l = "get_bio_slba b"
  have n: "nppa b \<le> length (bi_pages b)" "unat ?l + (k + m) \<le> Suc MAX_USER_LBA" "k + m \<le> 64"
    using b k(2) by (auto simp: bio_ok_def)
  have l: "unat (lba0 b) + (k + m) \<le> Suc MAX_USER_LBA" "(ucast (?l + of_nat k) :: u32) = lba0 b + of_nat k"
      "unat (?l + of_nat k) = unat ?l + k"
    using ucast_lba [OF n(2)] n(2) by simp_all
  have km: "128 - ppos s p = k" "nppa b - k = m" "128 \<le> ppos s p + nppa b"
    using k by simp_all
  obtain s' c where s': "process_write_bio s b = Some (FSCFTL_BIO_COMPLETE, s', bio_skip (nppa b) b)"
      "payloads s' (((\<lambda>i. entities s ! i)(p := (appended k ?l b ?w)\<lparr>we_fill_cnt := 0\<rparr>))
        (x := appended m (?l + of_nat k) (bio_skip k b) (fresh_entity c (entities s ! x))))"
      "l2ptbl s' = cached_map m (lba0 b + of_nat k) c
        (cached_map k (lba0 b) (we_baddr ?w + ucast (we_pos ?w)) (l2ptbl s))"
    using write_step_cross [OF inv b km(3)] unfolding km(1,2) by blast
  have x: "x < 16" "x \<noteq> p" "entity_ok (entities s ! x)"
    using i(1,11) cache_rep_bound [OF i(1), of x] inv by (auto simp: wp_inv_def)
  have pp: "payload (entities s' ! p) = payload ((appended k ?l b ?w)\<lparr>we_fill_cnt := 0\<rparr>)"
    and px: "payload (entities s' ! x) = payload (appended m (?l + of_nat k) (bio_skip k b) (fresh_entity c (entities s ! x)))"
    using payloadsD [OF s'(2) i(3)] payloadsD [OF s'(2) x(1)] x(2) by simp_all
  note hit = cached_map_two(1) [OF l(1), of _ c "we_baddr ?w + ucast (we_pos ?w)" "l2ptbl s", folded s'(3)]
  have "holds_at s' p (ppos s p + j) (lba0 b + of_nat j) (bi_pages b ! j)" if "j < k" for j
    using that k n i(5) hit [of j] by (intro appended_holds [OF i(3) pp, where n = k and w = ?w]) simp_all
  moreover have "holds_at s' x (unat (we_pos (fresh_entity c (entities s ! x))) + j)
      (ucast (?l + of_nat k) + of_nat j) (bi_pages (bio_skip k b) ! j)" if "j < m" for j
    using that x(3) n hit [of "k + j"] l k(2)
    by (intro appended_holds [OF x(1) px, where n = m and w = "fresh_entity c (entities s ! x)"])
      (simp_all add: add.assoc)
  then have "holds_at s' x j (lba0 b + of_nat (k + j)) (bi_pages b ! (k + j))" if "j < m" for j
    using that n k(2) by (fastforce simp: l(2) add.assoc)
  ultimately show ?thesis
    using s'(1) cached_map_two(2) [OF l(1), of _ c _ "l2ptbl s"] s'(3) k(2) by auto
qed

lemma write_resubmit:
  assumes inv: "wp_inv s E F p B" and b: "bio_ok b" and full: "abs_full (nppa b) (E, F, p, ppos s p)"
  shows "process_write_bio s b = Some (FSCFTL_BIO_RESUBMIT, s, b)"
proof -
  have "wcb_available s (sint (get_bio_nppa b)) = Some False"
    using wcb_available_iff [OF inv, of "nppa b"] sint_nppa [OF b] b full by (simp add: abs_full_def bio_ok_def)
  with wp_invD [OF inv] show ?thesis
    by (simp add: process_write_bio_def print_lun_entitys_fifo_def Let_def)
qed

section \<open>Properties of a request\<close>

text \<open>C6: A write request refines the abstract append. With the cache in a state that stands for
  empty entities, full entities, a partial entity and its fill level, a well-formed request is sent
  back unchanged exactly when no empty entity is left and the partial one may not have room (the
  code's estimate); otherwise it completes, consumes its pages and leaves the cache in the state the
  abstract append prescribes, the full entity queued for the back end included.\<close>

theorem write_refines:
  assumes "wcb_abs s B a" and "bio_ok b"
  shows "if abs_full (nppa b) a then process_write_bio s b = Some (FSCFTL_BIO_RESUBMIT, s, b)
    else \<exists>s' B'. process_write_bio s b = Some (FSCFTL_BIO_COMPLETE, s', bio_skip (nppa b) b) \<and>
      wcb_abs s' B' (abs_write (nppa b) a)"
proof -
  obtain E F p pos where a: "a = (E, F, p, pos)" by (cases a)
  have inv: "wp_inv s E F p B" and pos: "ppos s p = pos"
    using assms(1) by (auto simp: wcb_abs_def a)
  show ?thesis
  proof (cases "abs_full (nppa b) a")
    case True
    with write_resubmit [OF inv assms(2)] show ?thesis
      by (simp add: a pos)
  next
    case False
    show ?thesis
    proof (cases "pos + nppa b < 128")
      case True
      with write_step_in [OF inv assms(2)] pos False show ?thesis
        by (auto simp: wcb_abs_def abs_write_def a)
    next
      case full: False
      with False obtain x E' where E: "E = x # E'"
        by (cases E) (auto simp: abs_full_def a)
      with write_step_cross [OF inv [unfolded E] assms(2)] full pos False show ?thesis
        by (auto simp: wcb_abs_def abs_write_def a)
    qed
  qed
qed

text \<open>A request of two pages at LBA 5.\<close>

definition wbio :: bio where
  "wbio = \<lparr>bi_sector = 40, bi_size = 8192, bi_pages = [[1], [2]]\<rparr>"

lemma wbio_eval: "nppa wbio = 2" "get_bio_slba wbio = 5" "bio_ok wbio" "bi_pages wbio = [[1], [2]]"
  by (simp_all add: wbio_def get_bio_nppa_def get_bio_slba_def bio_ok_def MAX_USER_LBA_eq)

lemma wbio_room: "\<not> abs_full 2 ([1..<CB_ENTITYS_CNT], [], 0, 0)"
    "abs_write 2 ([1..<CB_ENTITYS_CNT], [], 0, 0) = ([1..<16], [], 0, 2)"
  by (simp_all add: abs_full_def abs_write_def)

theorem write_refines_witness:
  "\<exists>s s' B'. boot_ftl = Some s \<and> process_write_bio s wbio = Some (FSCFTL_BIO_COMPLETE, s', bio_skip 2 wbio) \<and>
     wcb_abs s' B' ([1..<16], [], 0, 2)"
proof -
  obtain s where s: "boot_ftl = Some s" "wcb_abs s [2] ([1..<CB_ENTITYS_CNT], [], 0, 0)"
    using boot_ok by blast
  show ?thesis
    using write_refines [OF s(2) wbio_eval(3), unfolded wbio_eval(1)] wbio_room s(1) by auto
qed

text \<open>C7: A completed write can be found and disturbs nothing else. After a request that the
  cache accepts, every page of the request is held by the cache under its LBA (the mapping points to
  the slot with the page), and the mapping of every LBA outside the request is unchanged.\<close>

theorem write_found:
  assumes "wcb_abs s B a" and "bio_ok b" and "\<not> abs_full (nppa b) a"
  shows "\<exists>s'. process_write_bio s b = Some (FSCFTL_BIO_COMPLETE, s', bio_skip (nppa b) b) \<and>
    (\<forall>i < nppa b. cache_holds s' (lba0 b + of_nat i) (bi_pages b ! i)) \<and>
    (\<forall>l. (\<forall>i < nppa b. l \<noteq> lba0 b + of_nat i) \<longrightarrow> l2ptbl s' l = l2ptbl s l)"
proof -
  obtain E F p pos where a: "a = (E, F, p, pos)" by (cases a)
  have inv: "wp_inv s E F p B" and pos: "ppos s p = pos"
    using assms(1) by (auto simp: wcb_abs_def a)
  show ?thesis
  proof (cases "ppos s p + nppa b < 128")
    case True
    with found_in [OF inv assms(2)] assms(3) a pos
    obtain s' where s': "process_write_bio s b = Some (FSCFTL_BIO_COMPLETE, s', bio_skip (nppa b) b)"
        "\<forall>i < nppa b. holds_at s' p (ppos s p + i) (lba0 b + of_nat i) (bi_pages b ! i)"
        "\<forall>l. (\<forall>i < nppa b. l \<noteq> lba0 b + of_nat i) \<longrightarrow> l2ptbl s' l = l2ptbl s l"
      by blast
    have "cache_holds s' (lba0 b + of_nat i) (bi_pages b ! i)" if "i < nppa b" for i
      using s'(2) that True wp_invD(3) [OF inv] by (intro cache_holdsI [of s' p "ppos s p + i"]) simp_all
    with s' show ?thesis by blast
  next
    case False
    with assms(3) obtain x E' where E: "E = x # E'"
      by (cases E) (auto simp: abs_full_def a pos)
    define k m where "k = 128 - ppos s p" and "m = nppa b - k"
    have k: "ppos s p + k = 128" "k + m = nppa b" "m < 128"
      using False wp_invD(7) [OF inv] assms(2) by (auto simp: k_def m_def bio_ok_def)
    obtain s' where s': "process_write_bio s b = Some (FSCFTL_BIO_COMPLETE, s', bio_skip (nppa b) b)"
        "\<forall>i < k. holds_at s' p (ppos s p + i) (lba0 b + of_nat i) (bi_pages b ! i)"
        "\<forall>i < m. holds_at s' x i (lba0 b + of_nat (k + i)) (bi_pages b ! (k + i))"
        "\<forall>l. (\<forall>i < nppa b. l \<noteq> lba0 b + of_nat i) \<longrightarrow> l2ptbl s' l = l2ptbl s l"
      using found_cross [OF inv [unfolded E] assms(2) k(1,2)] by blast
    have x: "x < 16" "p < 16"
      using wp_invD(1,3) [OF inv] cache_rep_bound [of s E F x] E by auto
    have "cache_holds s' (lba0 b + of_nat i) (bi_pages b ! i)" if "i < nppa b" for i
    proof (cases "i < k")
      case True
      with s'(2) k(1) x show ?thesis
        by (intro cache_holdsI [of s' p "ppos s p + i"]) simp_all
    next
      case False
      with s'(3) [rule_format, of "i - k"] that k x show ?thesis
        by (intro cache_holdsI [of s' x "i - k"]) simp_all
    qed
    with s' show ?thesis by blast
  qed
qed

theorem write_found_witness:
  "\<exists>s s'. boot_ftl = Some s \<and> process_write_bio s wbio = Some (FSCFTL_BIO_COMPLETE, s', bio_skip 2 wbio) \<and>
     cache_holds s' 5 [1] \<and> cache_holds s' 6 [2] \<and> l2ptbl s' 7 = INVALID_PAGE"
proof -
  obtain s where s: "boot_ftl = Some s" "wcb_abs s [2] ([1..<CB_ENTITYS_CNT], [], 0, 0)" "l2ptbl s = l2ptbl_initial"
    using boot_ok by blast
  obtain s' where s': "process_write_bio s wbio = Some (FSCFTL_BIO_COMPLETE, s', bio_skip 2 wbio)"
      "\<forall>i < 2. cache_holds s' (5 + of_nat i) (bi_pages wbio ! i)"
      "\<forall>l. (\<forall>i < 2. l \<noteq> 5 + of_nat i) \<longrightarrow> l2ptbl s' l = l2ptbl s l"
    using write_found [OF s(2) wbio_eval(3)] wbio_room by (auto simp: wbio_eval)
  have "\<forall>i < 2. (7 :: u32) \<noteq> 5 + of_nat i"
    by (auto simp: less_2_cases_iff)
  then have "cache_holds s' 5 [1]" "cache_holds s' 6 [2]" "l2ptbl s' 7 = INVALID_PAGE"
    using s'(2) [rule_format, of 0] s'(2) [rule_format, of 1] s'(3) [rule_format, of 7] s(3)
    by (simp_all add: wbio_eval l2ptbl_initial_def)
  with s(1) s'(1) show ?thesis by blast
qed

text \<open>C8: Writes keep the valid-page counters exact. If every raid block's counter is the number
  of user LBAs mapped into the block, it still is after any well-formed request, whether the request
  overwrites LBAs, moves to a new entity or is sent back.\<close>

theorem write_vpc:
  assumes "wcb_abs s B a" and "bio_ok b" and "vpc_right (l2ptbl s) (vpctbl (sysm s))"
  shows "\<exists>r s' b'. process_write_bio s b = Some (r, s', b') \<and> vpc_right (l2ptbl s') (vpctbl (sysm s'))"
proof -
  obtain E F p pos where a: "a = (E, F, p, pos)" by (cases a)
  have inv: "wp_inv s E F p B" and pos: "ppos s p = pos"
    using assms(1) by (auto simp: wcb_abs_def a)
  show ?thesis
  proof (cases "abs_full (nppa b) a")
    case True
    with write_resubmit [OF inv assms(2)] assms(3) show ?thesis
      by (simp add: a pos)
  next
    case nf: False
    show ?thesis
    proof (cases "ppos s p + nppa b < 128")
      case True
      with write_step_in [OF inv assms(2)] nf a pos assms(3) show ?thesis by blast
    next
      case False
      with nf obtain x E' where E: "E = x # E'"
        by (cases E) (auto simp: abs_full_def a pos)
      with write_step_cross [OF inv [unfolded E] assms(2)] False assms(3) show ?thesis
        by (metis not_less)
    qed
  qed
qed

theorem write_vpc_witness:
  "\<exists>s r s' b'. boot_ftl = Some s \<and> process_write_bio s wbio = Some (r, s', b') \<and>
     vpc_right (l2ptbl s') (vpctbl (sysm s'))"
proof -
  obtain s where "boot_ftl = Some s" "wcb_abs s [2] ([1..<CB_ENTITYS_CNT], [], 0, 0)"
      "vpc_right (l2ptbl s) (vpctbl (sysm s))"
    using boot_ok by blast
  with write_vpc [of s "[2]" _ wbio] wbio_eval(3) show ?thesis by blast
qed

section \<open>Properties of the set-up\<close>

text \<open>C12: Start-up establishes the state the write path needs. When every allocation of the cache
  succeeds and the pool has a free raid block, building the cache and preparing the write context
  leave entity 0 as the empty partial entity at the first address of the first free block, the other
  15 entities in the empty FIFO in order, and nothing in flight.\<close>

theorem startup_establishes:
  assumes "\<forall>j < CB_ENTITYS_CNT. dma_ok dma j" and "pool_rep (free_pool m) (b # B)"
    and "CFG_NAND_BLOCK_NUM \<le> length (vpctbl m)"
  shows "\<exists>g s'. write_cache_alloc True True dma = Some (0, Some g, bufs CB_ENTITYS_CNT) \<and>
    prepare_write_context \<lparr>ctl = g, sysm = m, l2ptbl = tbl\<rparr> = Some s' \<and>
    wcb_abs s' B ([1..<CB_ENTITYS_CNT], [], 0, 0) \<and> we_baddr (entities s' ! 0) = set_blk (of_nat b) 0 \<and>
    l2ptbl s' = tbl \<and> requeue_wr_bios (ctl s') = [] \<and> outstanding_lun (ctl s') = 0"
proof -
  obtain g where g: "write_cache_alloc True True dma = Some (0, Some g, bufs CB_ENTITYS_CNT)" "cache_init g"
    using write_cache_alloc_ok [OF assms(1)] by blast
  with prepare_ok [of "\<lparr>ctl = g, sysm = m, l2ptbl = tbl\<rparr>" b B] assms(2,3) show ?thesis
    by fastforce
qed

theorem startup_establishes_witness:
  "\<exists>m g s'. insert_blk_to_free_list sysmeta_initial 3 = Some m \<and>
     write_cache_alloc True True (\<lambda>_ _. True) = Some (0, Some g, bufs CB_ENTITYS_CNT) \<and>
     prepare_write_context \<lparr>ctl = g, sysm = m, l2ptbl = l2ptbl_initial\<rparr> = Some s' \<and>
     wcb_abs s' [] ([1..<CB_ENTITYS_CNT], [], 0, 0)"
proof -
  obtain m where m: "insert_blk_to_free_list sysmeta_initial 3 = Some m" "pool_rep (free_pool m) [3]"
      "vpctbl m = vpctbl_initial"
    using insert_blk_to_free_list_ok [OF pool_rep_init, of 3] by (auto simp: sysmeta_initial_def)
  have "CFG_NAND_BLOCK_NUM \<le> length (vpctbl m)"
    using m(3) by (simp add: vpctbl_initial_def zone_defs)
  moreover have "\<forall>j < CB_ENTITYS_CNT. dma_ok (\<lambda>_ _. True) j"
    by (simp add: dma_ok_def)
  ultimately show ?thesis
    using startup_establishes [of "\<lambda>_ _. True" m 3 "[]" l2ptbl_initial] m by blast
qed

text \<open>C18: The error path of the cache allocation loses memory. When entity \<open>k > 0\<close> is the first
  whose DMA buffers cannot be had, \<open>write_cache_alloc\<close> reports \<open>-ENOMEM\<close> and the three buffers of
  entity 0 stay allocated: the clean-up loop \<open>while (--i)\<close> stops before it.\<close>

theorem alloc_error_leaks:
  assumes "0 < k" and "k < CB_ENTITYS_CNT" and "\<forall>j < k. dma_ok dma j" and "\<not> dma_ok dma k"
  shows "write_cache_alloc True True dma =
    Some (- ENOMEM, None, [(0, PpaBuf), (0, MetaBuf), (0, DataBuf)])"
proof -
  define g where "g = the (snd (wcb_lun_ctl_init True True))"
  have g: "wcb_lun_ctl_init True True = (0, Some g)" "init_inv 0 (lun_entitys g, empty_lun g)"
    using init_0 by (simp_all add: g_def wcb_lun_ctl_init_def)
  obtain g' where "wcb_lun_mem_alloc dma g = Some (- ENOMEM, g', bufs 1)"
    using alloc_loop_fail [OF g(2), of CB_ENTITYS_CNT k dma] assms by (auto simp: wcb_lun_mem_alloc_def)
  then show ?thesis
    by (simp add: write_cache_alloc_def g(1))
qed

theorem alloc_error_leaks_witness:
  "write_cache_alloc True True (\<lambda>i b. i < 2) = Some (- ENOMEM, None, [(0, PpaBuf), (0, MetaBuf), (0, DataBuf)])"
  using alloc_error_leaks [of 2 "\<lambda>i b. i < 2"] by (simp add: dma_ok_def)

end
