(* ===== verification/Write_System.thy ===== *)
theory Write_System
  imports Write_Props
begin

text \<open>
  The write path as a system of steps: requests arriving at \<open>fscftl_make_rq\<close>, the writer thread
  calling \<open>submit_write_backend\<close>, the device completing program commands line by line
  (\<open>wrppa_lun_completion\<close>), and the requeue thread retrying waiting requests
  (\<open>resubmit_wr_bios_list\<close>), in any order. The state adds to the FTL the commands in flight, what
  the flash holds, and the last acknowledged page of every LBA. Requests are processed one after the
  other.
\<close>

section \<open>The effect of a request\<close>

definition slot_limit :: "ftl \<Rightarrow> nat \<Rightarrow> nat \<Rightarrow> nat" where
  "slot_limit s p e = (if e = p then ppos s p else RAID_LUN_SEC_NUM)"

definition written :: "ftl \<Rightarrow> bio \<Rightarrow> nat \<Rightarrow> nat \<Rightarrow> nat \<Rightarrow> bool" where
  "written s b i p p' \<longleftrightarrow> (\<exists>e \<in> {p, p'}. \<exists>q < slot_limit s p' e. holds_at s e q (lba0 b + of_nat i) (bi_pages b ! i))"

lemma writtenI: "holds_at s e q (lba0 b + of_nat i) (bi_pages b ! i) \<Longrightarrow> e \<in> {p, p'} \<Longrightarrow>
    q < slot_limit s p' e \<Longrightarrow> written s b i p p'"
  unfolding written_def by blast

definition effect :: "ftl \<Rightarrow> bio \<Rightarrow> ftl \<Rightarrow> nat \<Rightarrow> nat list \<Rightarrow> nat \<Rightarrow> nat list \<Rightarrow> bool" where
  "effect s b s' p B p' B' \<longleftrightarrow> same_env s s' \<and>
     (if p' = p then B' = B \<and> we_baddr (entities s' ! p) = we_baddr (entities s ! p)
      else next_base B (we_baddr (entities s ! p)) B' (we_baddr (entities s' ! p'))) \<and>
     we_baddr (entities s' ! p) = we_baddr (entities s ! p) \<and>
     (\<forall>e < 16. e \<noteq> p \<and> e \<noteq> p' \<longrightarrow> payload (entities s' ! e) = payload (entities s ! e)) \<and>
     (\<forall>q < ppos s p. we_data (entities s' ! p) ! q = we_data (entities s ! p) ! q) \<and>
     ppos s p \<le> slot_limit s' p' p \<and>
     (\<forall>i < nppa b. written s' b i p p') \<and>
     (\<forall>l. (\<forall>i < nppa b. l \<noteq> lba0 b + of_nat i) \<longrightarrow> l2ptbl s' l = l2ptbl s l)"

lemma appended_old_data:
  assumes "entity_ok w" "unat (we_pos w) + n \<le> 128" "n \<le> length (bi_pages b)" "q < unat (we_pos w)"
  shows "we_data (appended n slba b w) ! q = we_data w ! q"
  using assms by (simp add: appended_def copied_def entity_ok_def nth_overwrite)

lemma effect_in:
  assumes inv: "wp_inv s E F p B" and b: "bio_ok b" and room: "ppos s p + nppa b < 128"
    and nf: "\<not> abs_full (nppa b) (E, F, p, ppos s p)"
  shows "\<exists>s'. process_write_bio s b = Some (FSCFTL_BIO_COMPLETE, s', bio_skip (nppa b) b) \<and>
    wp_inv s' E F p B \<and> effect s b s' p B p B"
proof -
  note i = wp_invD [OF inv]
  obtain s' where s': "process_write_bio s b = Some (FSCFTL_BIO_COMPLETE, s', bio_skip (nppa b) b)"
      "wp_inv s' E F p B" "ppos s' p = ppos s p + nppa b" "same_env s s'"
      "entities s' = (entities s)[p := appended (nppa b) (get_bio_slba b) b (entities s ! p)]"
    using write_step_in [OF inv b room nf] by blast
  have f: "\<forall>i < nppa b. holds_at s' p (ppos s p + i) (lba0 b + of_nat i) (bi_pages b ! i)"
      "\<forall>l. (\<forall>i < nppa b. l \<noteq> lba0 b + of_nat i) \<longrightarrow> l2ptbl s' l = l2ptbl s l"
    using found_in [OF inv b room nf] s'(1) by auto
  have w: "written s' b j p p" if "j < nppa b" for j
    using f(1) that s'(3) by (intro writtenI [of s' p "ppos s p + j"]) (auto simp: slot_limit_def)
  have d: "we_data (entities s' ! p) ! q = we_data (entities s ! p) ! q" if "q < ppos s p" for q
    using appended_old_data [of "entities s ! p" "nppa b" b q] that i room b s'(5) by (simp add: bio_ok_def)
  have "we_baddr (entities s' ! p) = we_baddr (entities s ! p)"
    using s'(5) i(2,3) by simp
  then have "effect s b s' p B p B"
    unfolding effect_def using s'(3-5) f(2) w d by (simp add: slot_limit_def)
  with s'(1,2) show ?thesis
    by blast
qed

lemma effect_cross:
  assumes inv: "wp_inv s (x # E) F p B" and b: "bio_ok b" and full: "128 \<le> ppos s p + nppa b"
  shows "\<exists>s' B'. process_write_bio s b = Some (FSCFTL_BIO_COMPLETE, s', bio_skip (nppa b) b) \<and>
    wp_inv s' E (F @ [p]) x B' \<and> effect s b s' p B x B'"
proof -
  note i = wp_invD [OF inv]
  define k m where "k = 128 - ppos s p" and "m = nppa b - k"
  have k: "ppos s p + k = 128" "k + m = nppa b" "m = ppos s p + nppa b - 128"
    using full i(7) by (auto simp: k_def m_def)
  obtain s' c B' where s': "process_write_bio s b = Some (FSCFTL_BIO_COMPLETE, s', bio_skip (nppa b) b)"
      "wp_inv s' E (F @ [p]) x B'" "ppos s' x = m" "next_base B (we_baddr (entities s ! p)) B' c"
      "payloads s' (((\<lambda>i. entities s ! i)(p := (appended k (get_bio_slba b) b (entities s ! p))\<lparr>we_fill_cnt := 0\<rparr>))
        (x := appended m (get_bio_slba b + of_nat k) (bio_skip k b) (fresh_entity c (entities s ! x))))"
      "same_env s s'"
    using write_step_cross [OF inv b full] unfolding k_def [symmetric] m_def [symmetric] k(3) [symmetric] by blast
  have f: "\<forall>i < k. holds_at s' p (ppos s p + i) (lba0 b + of_nat i) (bi_pages b ! i)"
      "\<forall>i < m. holds_at s' x i (lba0 b + of_nat (k + i)) (bi_pages b ! (k + i))"
      "\<forall>l. (\<forall>i < nppa b. l \<noteq> lba0 b + of_nat i) \<longrightarrow> l2ptbl s' l = l2ptbl s l"
    using found_cross [OF inv b k(1,2)] s'(1) by auto
  have x: "x < 16" "x \<noteq> p"
    using i(1,11) cache_rep_bound [OF i(1), of x] by auto
  have pe: "payload (entities s' ! e) = payload ((((\<lambda>i. entities s ! i)
      (p := (appended k (get_bio_slba b) b (entities s ! p))\<lparr>we_fill_cnt := 0\<rparr>))
        (x := appended m (get_bio_slba b + of_nat k) (bio_skip k b) (fresh_entity c (entities s ! x)))) e)" if "e < 16" for e
    using s'(5) that by (rule payloadsD)
  have w: "written s' b j p x" if j: "j < nppa b" for j
  proof (cases "j < k")
    case True
    with f(1) x(2) k(1) show ?thesis
      by (intro writtenI [of s' p "ppos s p + j"]) (auto simp: slot_limit_def)
  next
    case False
    then have "holds_at s' x (j - k) (lba0 b + of_nat j) (bi_pages b ! j)"
      using f(2) [rule_format, of "j - k"] j k(2) by simp
    with False j k(2) s'(3) show ?thesis
      by (intro writtenI [of s' x "j - k"]) (auto simp: slot_limit_def)
  qed
  have ba: "we_baddr (entities s' ! p) = we_baddr (entities s ! p)" "we_baddr (entities s' ! x) = c"
    using payload_eqD(2) [OF pe [OF i(3)]] payload_eqD(2) [OF pe [OF x(1)]] x(2) by simp_all
  have kb: "k \<le> length (bi_pages b)"
    using b k by (simp add: bio_ok_def)
  have d: "we_data (entities s' ! p) ! q = we_data (entities s ! p) ! q" if "q < ppos s p" for q
    using payload_eqD(3) [OF pe [OF i(3)]] x(2) appended_old_data [of "entities s ! p" k b q] that i(5) k(1) kb by simp
  have o: "payload (entities s' ! e) = payload (entities s ! e)" if "e < 16" "e \<noteq> p" "e \<noteq> x" for e
    using pe [OF that(1)] that by simp
  have "effect s b s' p B x B'"
    unfolding effect_def using x(2) s'(4,6) f(3) w d ba o i(7) by (simp add: slot_limit_def)
  with s'(1,2) show ?thesis
    by blast
qed

section \<open>Spent addresses\<close>

text \<open>
  A base address that has been handed out: its block is not on the free list, and in the block in
  use it is not ahead of the current one.
\<close>

definition spent :: "geo_ppa \<Rightarrow> nat list \<Rightarrow> geo_ppa \<Rightarrow> bool" where
  "spent cur B c \<longleftrightarrow> unat (ppa_blk c) \<notin> set B \<and> (ppa_blk c = ppa_blk cur \<longrightarrow> stripe c \<le> stripe cur)"

lemma spent_next:
  assumes "next_base B cur B' c'" "B \<noteq> []" "distinct B" "unat (ppa_blk cur) \<notin> set B"
  shows "distinct B'" "unat (ppa_blk c') \<notin> set B'" "spent c' B' c'"
    and "spent cur B c \<Longrightarrow> spent c' B' c \<and> c \<noteq> c'"
proof -
  have l: "hd B \<in> set B" "hd B \<notin> set (tl B)" "set (tl B) \<subseteq> set B" "distinct (tl B)"
    using assms(2,3) by (cases B; auto)+
  show "distinct B'" "unat (ppa_blk c') \<notin> set B'" "spent c' B' c'"
    using assms l by (auto simp: next_base_def spent_def split: if_splits)
  show "spent c' B' c \<and> c \<noteq> c'" if "spent cur B c"
    using assms that l by (auto simp: next_base_def spent_def split: if_splits)
qed

lemma base_add_inject:
  assumes "base_ok c" "base_ok c'" "q < 128" "q' < 128" "c + of_nat q = c' + of_nat q'"
  shows "c = c' \<and> q = q'"
proof -
  have u: "unat (of_nat j :: u32) = j" if "j < 128" for j
    using that by (simp add: unsigned_of_nat take_bit_nat_eq_self)
  have "(of_nat q :: u32) = of_nat q'"
    using lun_aligned_add_fields(4) [of c "of_nat q"] lun_aligned_add_fields(4) [of c' "of_nat q'"] assms u
    by (simp add: base_ok_def)
  then have "q = q'"
    using u assms(3,4) by metis
  with assms(5) show ?thesis
    by simp
qed

section \<open>The system\<close>

record wsys =
  wftl :: ftl
  wcmds :: "line_cmd list"
  wnand :: "u64 \<rightharpoonup> page"
  wmem :: "u32 \<rightharpoonup> page"

text \<open>What a completed program command leaves on the flash, and what an acknowledged request
  promises.\<close>

definition program :: "line_cmd \<Rightarrow> (u64 \<rightharpoonup> page) \<Rightarrow> (u64 \<rightharpoonup> page)" where
  "program c nand = nand ++ map_of (zip (lc_ppas c) (lc_data c))"

definition ack :: "bio \<Rightarrow> (u32 \<rightharpoonup> page) \<Rightarrow> (u32 \<rightharpoonup> page)" where
  "ack b mem = (\<lambda>l. if unat (lba0 b) \<le> unat l \<and> unat l < unat (lba0 b) + nppa b
     then Some (bi_pages b ! (unat l - unat (lba0 b))) else mem l)"

definition has_free :: "ftl \<Rightarrow> bool" where
  "has_free s \<longleftrightarrow> fifo_size (free_blk_pool (statetbl (sysm s))) \<noteq> 0"

text \<open>
  The steps. A request arrives while a free raid block remains; the writer thread submits; the
  device finishes one of the commands in flight; the requeue thread takes one turn of its loop.
\<close>

inductive wstep :: "wsys \<Rightarrow> wsys \<Rightarrow> bool" where
  request: "bio_ok b \<Longrightarrow> has_free (wftl w) \<Longrightarrow> fscftl_make_rq (wftl w) WRITE_DIR b = Some (ended, s') \<Longrightarrow>
    wstep w (w\<lparr>wftl := s', wmem := (if ended then ack b (wmem w) else wmem w)\<rparr>)"
| submit: "submit_write_backend (wftl w) = Some (r, cs, s') \<Longrightarrow>
    wstep w (w\<lparr>wftl := s', wcmds := wcmds w @ cs\<rparr>)"
| complete: "c \<in> set (wcmds w) \<Longrightarrow> wrppa_lun_completion (wftl w) c = Some (wake, s') \<Longrightarrow>
    wstep w (w\<lparr>wftl := s', wcmds := remove1 c (wcmds w), wnand := program c (wnand w)\<rparr>)"
| retry: "requeue_wr_bios (ctl (wftl w)) = b # bs \<Longrightarrow> has_free (wftl w) \<Longrightarrow>
    process_write_bio (set_requeue bs (wftl w)) b = Some (ret, s', b') \<Longrightarrow>
    wstep w (if ret = FSCFTL_BIO_COMPLETE then w\<lparr>wftl := s', wmem := ack b (wmem w)\<rparr>
      else w\<lparr>wftl := set_requeue (b' # requeue_wr_bios (ctl s')) s'\<rparr>)"

definition winit :: "ftl \<Rightarrow> wsys" where
  "winit s = \<lparr>wftl = s, wcmds = [], wnand = Map.empty, wmem = Map.empty\<rparr>"

inductive wreach :: "ftl \<Rightarrow> wsys \<Rightarrow> bool" for s where
  start: "wreach s (winit s)"
| step: "wreach s w \<Longrightarrow> wstep w w' \<Longrightarrow> wreach s w'"

text \<open>A freshly started FTL, as \<open>prepare_write_context\<close> leaves it, whatever requests already wait.\<close>

definition started :: "ftl \<Rightarrow> bool" where
  "started s \<longleftrightarrow> (\<exists>B. wcb_abs s B ([1..<CB_ENTITYS_CNT], [], 0, 0) \<and>
     unat (ppa_blk (we_baddr (entities s ! 0))) \<notin> set B) \<and>
     (\<forall>b \<in> set (requeue_wr_bios (ctl s)). bio_ok b) \<and> outstanding_lun (ctl s) = 0"

section \<open>The invariant\<close>

abbreviation baddr :: "ftl \<Rightarrow> nat \<Rightarrow> geo_ppa" where
  "baddr s e \<equiv> we_baddr (entities s ! e)"

definition live_ok :: "ftl \<Rightarrow> nat set \<Rightarrow> geo_ppa \<Rightarrow> nat list \<Rightarrow> bool" where
  "live_ok s L cur B \<longleftrightarrow> (\<forall>e \<in> L. base_ok (baddr s e) \<and> spent cur B (baddr s e)) \<and> inj_on (baddr s) L"

text \<open>The page of \<open>l\<close> is in a live entity or, its entity recycled, on the flash.\<close>

definition held :: "ftl \<Rightarrow> (u64 \<rightharpoonup> page) \<Rightarrow> nat set \<Rightarrow> nat \<Rightarrow> nat list \<Rightarrow> u32 \<Rightarrow> page \<Rightarrow> bool" where
  "held s nand L p B l pg \<longleftrightarrow> (\<exists>c q. base_ok c \<and> q < RAID_LUN_SEC_NUM \<and> spent (baddr s p) B c \<and>
     l2ptbl s l = set_in_cache 1 (c + of_nat q) \<and>
     ((\<exists>e \<in> L. baddr s e = c \<and> q < slot_limit s p e \<and> we_data (entities s ! e) ! q = pg) \<or>
      ((\<forall>e \<in> L. baddr s e \<noteq> c) \<and> nand (ucast (c + of_nat q)) = Some pg)))"

text \<open>An entity in flight: each line is either done, its pages on the flash, or its command waits.\<close>

definition line_done :: "wcb_lun_entity \<Rightarrow> (u64 \<rightharpoonup> page) \<Rightarrow> nat \<Rightarrow> bool" where
  "line_done w nand l \<longleftrightarrow> (\<forall>q. 16 * l \<le> q \<and> q < 16 * l + 16 \<longrightarrow> nand (we_ppa w ! q) = Some (we_data w ! q))"

definition in_flight :: "wcb_lun_entity \<Rightarrow> nat \<Rightarrow> line_cmd list \<Rightarrow> (u64 \<rightharpoonup> page) \<Rightarrow> bool" where
  "in_flight w e cmds nand \<longleftrightarrow> slots_ok w RAID_LUN_SEC_NUM \<and>
     (\<forall>l < CFG_DRIVE_LINE_NUM. if bit (we_cqe_flag w) l then line_done w nand l else line_cmd_of e w l \<in> set cmds) \<and>
     (\<forall>l. bit (we_cqe_flag w) l \<longrightarrow> l < CFG_DRIVE_LINE_NUM) \<and>
     (\<exists>l < CFG_DRIVE_LINE_NUM. \<not> bit (we_cqe_flag w) l)"

definition cmds_ok :: "ftl \<Rightarrow> nat set \<Rightarrow> line_cmd list \<Rightarrow> bool" where
  "cmds_ok s I cmds \<longleftrightarrow> distinct cmds \<and> (\<forall>c \<in> set cmds. \<exists>e \<in> I. \<exists>l < CFG_DRIVE_LINE_NUM.
     c = line_cmd_of e (entities s ! e) l \<and> \<not> bit (we_cqe_flag (entities s ! e)) l)"

definition live :: "nat list \<Rightarrow> nat \<Rightarrow> nat list \<Rightarrow> nat set" where
  "live F p I = set F \<union> {p} \<union> set I"

definition wsys_inv :: "wsys \<Rightarrow> nat list \<Rightarrow> nat list \<Rightarrow> nat \<Rightarrow> nat list \<Rightarrow> nat list \<Rightarrow> bool" where
  "wsys_inv w E F p B I \<longleftrightarrow> (let s = wftl w in
     wp_inv s E F p B \<and> distinct (E @ F @ p # I) \<and> set (E @ F @ p # I) = {..<CB_ENTITYS_CNT} \<and>
     distinct B \<and> unat (ppa_blk (baddr s p)) \<notin> set B \<and>
     live_ok s (live F p I) (baddr s p) B \<and>
     (\<forall>e \<in> set I. in_flight (entities s ! e) e (wcmds w) (wnand w)) \<and> cmds_ok s (set I) (wcmds w) \<and>
     outstanding_lun (ctl s) = of_nat (length I) \<and> (\<forall>b \<in> set (requeue_wr_bios (ctl s)). bio_ok b) \<and>
     (\<forall>l pg. wmem w l = Some pg \<longrightarrow> held s (wnand w) (live F p I) p B l pg))"

section \<open>Requests keep the invariant\<close>

lemma set_requeue_sel [simp]:
  "entities (set_requeue bs s) = entities s" "sysm (set_requeue bs s) = sysm s" "l2ptbl (set_requeue bs s) = l2ptbl s"
  "empty_lun (ctl (set_requeue bs s)) = empty_lun (ctl s)" "full_lun (ctl (set_requeue bs s)) = full_lun (ctl s)"
  "partial_entity (ctl (set_requeue bs s)) = partial_entity (ctl s)"
  "outstanding_lun (ctl (set_requeue bs s)) = outstanding_lun (ctl s)"
  "requeue_wr_bios (ctl (set_requeue bs s)) = bs"
  by (simp_all add: set_requeue_def)

lemma requeue_preds [simp]:
  "held (set_requeue bs s) nand L p B l pg = held s nand L p B l pg"
  "live_ok (set_requeue bs s) L cur B = live_ok s L cur B"
  "cmds_ok (set_requeue bs s) J cmds = cmds_ok s J cmds"
  "wp_inv (set_requeue bs s) E F p B = wp_inv s E F p B"
  by (simp_all only: held_def slot_limit_def live_ok_def cmds_ok_def wp_inv_def cache_rep_def set_requeue_sel)

lemma inv_requeue:
  "wsys_inv w E F p B I \<Longrightarrow> \<forall>b \<in> set bs. bio_ok b \<Longrightarrow> wsys_inv (w\<lparr>wftl := set_requeue bs (wftl w)\<rparr>) E F p B I"
  by (simp add: wsys_inv_def Let_def)

lemma has_free_pool: "pool_rep (free_pool (sysm s)) B \<Longrightarrow> has_free s \<Longrightarrow> B \<noteq> []"
  by (auto simp: has_free_def pool_rep_def)

lemma in_flight_payload:
  assumes "payload v = payload w"
  shows "line_cmd_of e v l = line_cmd_of e w l" "in_flight v e cmds nand = in_flight w e cmds nand"
  using payload_eqD [OF assms]
  by (simp_all add: in_flight_def line_cmd_of_def line_done_def slots_ok_def)

lemma effectD:
  assumes "effect s b s' p B p' B'"
  shows "same_env s s'"
    and "e < 16 \<Longrightarrow> e \<noteq> p \<Longrightarrow> e \<noteq> p' \<Longrightarrow> payload (entities s' ! e) = payload (entities s ! e)"
    and "q < ppos s p \<Longrightarrow> we_data (entities s' ! p) ! q = we_data (entities s ! p) ! q"
    and "ppos s p \<le> slot_limit s' p' p" and "i < nppa b \<Longrightarrow> written s' b i p p'"
    and "\<forall>i < nppa b. l \<noteq> lba0 b + of_nat i \<Longrightarrow> l2ptbl s' l = l2ptbl s l"
  using assms by (simp_all add: effect_def)

lemma effect_baddr:
  assumes "effect s b s' p B p' B'" "e < 16" "e \<noteq> p' \<or> p' = p"
  shows "baddr s' e = baddr s e"
  using assms payload_eqD(2) [of "entities s' ! e" "entities s ! e"]
  by (cases "e = p") (auto simp: effect_def split: if_splits)

lemma write_live:
  assumes live: "live_ok s L (baddr s p) B" and eff: "effect s b s' p B p' B'" and p': "p' \<notin> L \<or> p' = p"
    and B: "B \<noteq> []" "distinct B" "unat (ppa_blk (baddr s p)) \<notin> set B" and L: "\<forall>e \<in> L. e < 16" "p \<in> L"
    and base: "base_ok (baddr s' p')"
  shows "live_ok s' (insert p' L) (baddr s' p') B' \<and> distinct B' \<and> unat (ppa_blk (baddr s' p')) \<notin> set B' \<and>
    (\<forall>c. spent (baddr s p) B c \<longrightarrow> spent (baddr s' p') B' c \<and> (p' \<noteq> p \<longrightarrow> c \<noteq> baddr s' p'))"
proof (cases "p' = p")
  case True
  then have same: "B' = B" "\<And>e. e \<in> L \<Longrightarrow> baddr s' e = baddr s e"
    using eff L(1) effect_baddr [OF eff] by (auto simp: effect_def)
  then have "inj_on (baddr s') L" "baddr s' p = baddr s p"
    using live L(2) by (auto simp: live_ok_def inj_on_def)
  with True same live B L(2) show ?thesis
    by (auto simp: live_ok_def insert_absorb)
next
  case False
  then have p'L: "p' \<notin> L" and nb: "next_base B (baddr s p) B' (baddr s' p')"
    using p' eff by (auto simp: effect_def)
  have same: "baddr s' e = baddr s e" if "e \<in> L" for e
    using effect_baddr [OF eff] that L(1) p'L by auto
  note n = spent_next [OF nb B]
  have ne: "baddr s e \<noteq> baddr s' p'" if "e \<in> L" for e
    using live n(4) that by (auto simp: live_ok_def)
  have "inj_on (baddr s') L"
    using live same by (auto simp: live_ok_def inj_on_def)
  moreover have "baddr s' p' \<notin> baddr s' ` (L - {p'})"
    using ne same by fastforce
  ultimately have "inj_on (baddr s') (insert p' L)"
    by simp
  moreover have "\<forall>e \<in> insert p' L. base_ok (baddr s' e) \<and> spent (baddr s' p') B' (baddr s' e)"
    using base live n(3,4) same by (auto simp: live_ok_def)
  ultimately show ?thesis
    using n(1,2,4) by (simp add: live_ok_def)
qed

lemma write_held:
  assumes held: "held s nand L p B l pg" and l: "l2ptbl s' l = l2ptbl s l"
    and eff: "effect s b s' p B p' B'" and p': "p' \<notin> L \<or> p' = p" and L: "\<forall>e \<in> L. e < 16" "p \<in> L"
    and sp: "\<forall>c. spent (baddr s p) B c \<longrightarrow> spent (baddr s' p') B' c \<and> (p' \<noteq> p \<longrightarrow> c \<noteq> baddr s' p')"
  shows "held s' nand (insert p' L) p' B' l pg"
proof -
  obtain c q where c: "base_ok c" "q < RAID_LUN_SEC_NUM" "spent (baddr s p) B c" "l2ptbl s l = set_in_cache 1 (c + of_nat q)"
      "(\<exists>e \<in> L. baddr s e = c \<and> q < slot_limit s p e \<and> we_data (entities s ! e) ! q = pg) \<or>
       ((\<forall>e \<in> L. baddr s e \<noteq> c) \<and> nand (ucast (c + of_nat q)) = Some pg)"
    using held unfolding held_def by blast
  have same: "baddr s' e = baddr s e" if "e \<in> L" for e
    using effect_baddr [OF eff] that L(1) p' by auto
  have keep: "q < slot_limit s' p' e \<and> we_data (entities s' ! e) ! q = pg"
    if e: "e \<in> L" "q < slot_limit s p e" "we_data (entities s ! e) ! q = pg" for e
  proof (cases "e = p")
    case True
    then have "q < ppos s p"
      using e(2) by (simp add: slot_limit_def)
    from effectD(3) [OF eff this] less_le_trans [OF this effectD(4) [OF eff]] show ?thesis
      using True e(3) by simp
  next
    case False
    then have "e \<noteq> p'"
      using p' e(1) by auto
    moreover have "we_data (entities s' ! e) = we_data (entities s ! e)"
      by (rule payload_eqD(3), rule effectD(2) [OF eff]) (use False e(1) L(1) calculation in auto)
    ultimately show ?thesis
      using e(3) c(2) by (simp add: slot_limit_def)
  qed
  have "(\<exists>e \<in> insert p' L. baddr s' e = c \<and> q < slot_limit s' p' e \<and> we_data (entities s' ! e) ! q = pg) \<or>
       ((\<forall>e \<in> insert p' L. baddr s' e \<noteq> c) \<and> nand (ucast (c + of_nat q)) = Some pg)"
    using c(5)
  proof
    assume "\<exists>e \<in> L. baddr s e = c \<and> q < slot_limit s p e \<and> we_data (entities s ! e) ! q = pg"
    then obtain e where e: "e \<in> L" "baddr s e = c" "q < slot_limit s p e" "we_data (entities s ! e) ! q = pg"
      by blast
    with keep [OF e(1,3,4)] same [OF e(1)] show ?thesis
      by (intro disjI1 bexI [of _ e]) simp_all
  next
    assume "(\<forall>e \<in> L. baddr s e \<noteq> c) \<and> nand (ucast (c + of_nat q)) = Some pg"
    moreover have "baddr s' p' \<noteq> c"
      using sp c(3) calculation same [OF L(2)] L(2) by (cases "p' = p") auto
    ultimately show ?thesis
      using same by simp
  qed
  with c(1-4) l sp show ?thesis
    unfolding held_def by (intro exI [of _ c] exI [of _ q]) simp
qed

lemma wsys_invD:
  assumes "wsys_inv w E F p B I"
  shows "wp_inv (wftl w) E F p B" "distinct (E @ F @ p # I)" "set (E @ F @ p # I) = {..<16}"
    "distinct B" "unat (ppa_blk (baddr (wftl w) p)) \<notin> set B" "live_ok (wftl w) (live F p I) (baddr (wftl w) p) B"
    "e \<in> set I \<Longrightarrow> in_flight (entities (wftl w) ! e) e (wcmds w) (wnand w)" "cmds_ok (wftl w) (set I) (wcmds w)"
    "outstanding_lun (ctl (wftl w)) = of_nat (length I)" "\<forall>b \<in> set (requeue_wr_bios (ctl (wftl w))). bio_ok b"
    "wmem w l = Some pg \<Longrightarrow> held (wftl w) (wnand w) (live F p I) p B l pg"
  using assms by (simp_all add: wsys_inv_def Let_def)

lemma cmds_ok_same:
  assumes "cmds_ok s J cmds" "\<And>e. e \<in> J \<Longrightarrow> payload (entities s' ! e) = payload (entities s ! e)"
  shows "cmds_ok s' J cmds"
proof -
  have "line_cmd_of e (entities s' ! e) l = line_cmd_of e (entities s ! e) l"
      "we_cqe_flag (entities s' ! e) = we_cqe_flag (entities s ! e)" if "e \<in> J" for e l
    using in_flight_payload(1) [OF assms(2) [OF that]] payload_eqD(6) [OF assms(2) [OF that]] by auto
  with assms(1) show ?thesis
    by (simp add: cmds_ok_def)
qed

lemma written_held:
  assumes w: "written s' b i p p'" and L: "p \<in> L" "p' \<in> L" and live: "live_ok s' L (baddr s' p') B'"
    and p': "ppos s' p' < 128"
  shows "held s' nand L p' B' (lba0 b + of_nat i) (bi_pages b ! i)"
proof -
  obtain e q where e: "e \<in> {p, p'}" "q < slot_limit s' p' e"
      "holds_at s' e q (lba0 b + of_nat i) (bi_pages b ! i)"
    using w unfolding written_def by blast
  have "e \<in> L" "q < RAID_LUN_SEC_NUM"
    using e(1,2) L p' by (auto simp: slot_limit_def split: if_splits)
  with e(2,3) live show ?thesis
    unfolding held_def holds_at_def live_ok_def by (intro exI [of _ "baddr s' e"] exI [of _ q]) auto
qed

lemma ack_cases:
  assumes "ack b mem l = Some pg" and b: "bio_ok b"
  obtains i where "i < nppa b" "l = lba0 b + of_nat i" "pg = bi_pages b ! i"
  | "\<forall>i < nppa b. l \<noteq> lba0 b + of_nat i" "mem l = Some pg"
proof (cases "unat (lba0 b) \<le> unat l \<and> unat l < unat (lba0 b) + nppa b")
  case True
  have "l = lba0 b + of_nat (unat l - unat (lba0 b))"
    using True by (metis le_add_diff_inverse of_nat_add of_nat_unat ucast_id)
  moreover have "unat l - unat (lba0 b) < nppa b" "pg = bi_pages b ! (unat l - unat (lba0 b))"
    using True assms(1) by (auto simp: ack_def)
  ultimately show ?thesis
    using that(1) by blast
next
  case False
  with assms(1) have "mem l = Some pg"
    by (auto simp: ack_def)
  moreover have "l \<noteq> lba0 b + of_nat i" if "i < nppa b" for i
  proof -
    have r: "unat (get_bio_slba b) + nppa b \<le> Suc MAX_USER_LBA"
      using b by (simp add: bio_ok_def)
    then have "unat (lba0 b + of_nat i) = unat (lba0 b) + i"
      using that ucast_lba(1) [OF r]
      by (simp add: MAX_USER_LBA_eq unat_word_ariths unsigned_of_nat take_bit_nat_eq_self)
    with False that show ?thesis by auto
  qed
  ultimately show ?thesis
    using that(2) by blast
qed

lemma write_inv:
  assumes inv: "wsys_inv w E F p B I" and wp: "wp_inv s' E' F' p' B'" and eff: "effect (wftl w) b s' p B p' B'"
    and shape: "p' = p \<and> E' = E \<and> F' = F \<or> E = p' # E' \<and> F' = F @ [p]" and B: "B \<noteq> []" and b: "bio_ok b"
  shows "wsys_inv (w\<lparr>wftl := s', wmem := ack b (wmem w)\<rparr>) E' F' p' B' I"
proof -
  note i = wsys_invD [OF inv]
  let ?L = "live F p I"
  have L: "live F' p' I = insert p' ?L" "p \<in> ?L" "p' \<notin> ?L \<or> p' = p"
    using shape i(2) by (auto simp: live_def)
  have L16: "\<forall>e \<in> ?L. e < 16"
    using i(3) by (auto simp: live_def)
  have base: "base_ok (baddr s' p')" "ppos s' p' < 128"
    using wp_invD(6,7) [OF wp] by (simp_all add: partial_ok_base)
  have lv: "live_ok s' (insert p' ?L) (baddr s' p') B'" "distinct B'" "unat (ppa_blk (baddr s' p')) \<notin> set B'"
      "\<forall>c. spent (baddr (wftl w) p) B c \<longrightarrow> spent (baddr s' p') B' c \<and> (p' \<noteq> p \<longrightarrow> c \<noteq> baddr s' p')"
    using write_live [OF i(6) eff L(3) B i(4,5) L16 L(2) base(1)] by blast+
  have same: "payload (entities s' ! e) = payload (entities (wftl w) ! e)" if "e \<in> set I" for e
    using that L(3) i(2) L16 by (intro effectD(2) [OF eff]) (auto simp: live_def)
  have fl: "in_flight (entities s' ! e) e (wcmds w) (wnand w)" if "e \<in> set I" for e
    using i(7) [OF that] in_flight_payload(2) [OF same [OF that]] by simp
  have held: "held s' (wnand w) (insert p' ?L) p' B' l pg" if "ack b (wmem w) l = Some pg" for l pg
    using that b
  proof (cases rule: ack_cases)
    case (1 j)
    with written_held [OF effectD(5) [OF eff 1(1)] _ _ lv(1) base(2)] L(2) show ?thesis by simp
  next
    case 2
    from write_held [OF i(11) [OF 2(2)] effectD(6) [OF eff 2(1)] eff L(3) L16 L(2) lv(4)] show ?thesis .
  qed
  have d: "distinct (E' @ F' @ p' # I)"
    using shape i(2) by auto
  have "set (E' @ F' @ p' # I) = set (E @ F @ p # I)"
    using shape by auto
  then have st: "set (E' @ F' @ p' # I) = {..<16}"
    unfolding i(3) .
  show ?thesis
    using wp d st lv(1-3) cmds_ok_same [OF i(8) same] fl held effectD(1) [OF eff] i(9,10)
    by (simp add: wsys_inv_def Let_def L(1) same_env_def)
qed

lemma process_inv:
  assumes inv: "wsys_inv w E F p B I" and b: "bio_ok b" and f: "has_free (wftl w)"
  shows "process_write_bio (wftl w) b = Some (FSCFTL_BIO_RESUBMIT, wftl w, b) \<or>
    (\<exists>s' E' F' p' B'. process_write_bio (wftl w) b = Some (FSCFTL_BIO_COMPLETE, s', bio_skip (nppa b) b) \<and>
      requeue_wr_bios (ctl s') = requeue_wr_bios (ctl (wftl w)) \<and> length B \<le> Suc (length B') \<and>
      wsys_inv (w\<lparr>wftl := s', wmem := ack b (wmem w)\<rparr>) E' F' p' B' I)"
proof -
  let ?s = "wftl w"
  have wp: "wp_inv ?s E F p B"
    by (rule wsys_invD(1) [OF inv])
  have B: "B \<noteq> []"
    using has_free_pool [OF wp_invD(10) [OF wp] f] .
  have "E \<noteq> []" if "\<not> abs_full (nppa b) (E, F, p, ppos ?s p)" "\<not> ppos ?s p + nppa b < 128"
    using that by (auto simp: abs_full_def)
  then consider "abs_full (nppa b) (E, F, p, ppos ?s p)"
    | "\<not> abs_full (nppa b) (E, F, p, ppos ?s p)" "ppos ?s p + nppa b < 128"
    | x E' where "E = x # E'" "128 \<le> ppos ?s p + nppa b"
    by (metis neq_Nil_conv not_less)
  then show ?thesis
  proof cases
    case 1
    from write_resubmit [OF wp b 1] show ?thesis by simp
  next
    case 2
    obtain s' where s': "process_write_bio ?s b = Some (FSCFTL_BIO_COMPLETE, s', bio_skip (nppa b) b)"
        "wp_inv s' E F p B" "effect ?s b s' p B p B"
      using effect_in [OF wp b 2(2,1)] by blast
    moreover have "length B \<le> Suc (length B)"
      by simp
    ultimately show ?thesis
      using write_inv [OF inv s'(2,3) _ B b] effectD(1) [OF s'(3)] unfolding same_env_def by blast
  next
    case (3 x E')
    obtain s' B' where s': "process_write_bio ?s b = Some (FSCFTL_BIO_COMPLETE, s', bio_skip (nppa b) b)"
        "wp_inv s' E' (F @ [p]) x B'" "effect ?s b s' p B x B'"
      using effect_cross [OF wp [unfolded 3(1)] b 3(2)] by blast
    moreover have "length B \<le> Suc (length B')"
      using s'(3) by (auto simp: effect_def next_base_def split: if_splits)
    ultimately show ?thesis
      using write_inv [OF inv s'(2,3) _ B b] 3(1) effectD(1) [OF s'(3)] s'(1) unfolding same_env_def by blast
  qed
qed

section \<open>The back end keeps the invariant\<close>

lemma line_cmd_inject:
  "line_cmd_of e v l = line_cmd_of e' w l' \<Longrightarrow> e = e' \<and> l = l'"
  by (simp add: line_cmd_of_def)

lemma line_cmd_flag [simp]: "line_cmd_of e (w\<lparr>we_cqe_flag := f\<rparr>) l = line_cmd_of e w l"
  by (simp add: line_cmd_of_def)

text \<open>Changing links and completion flags disturbs neither the live addresses nor the pages.\<close>

definition quiet :: "ftl \<Rightarrow> ftl \<Rightarrow> bool" where
  "quiet s s' \<longleftrightarrow> l2ptbl s' = l2ptbl s \<and> (\<forall>e < 16. baddr s' e = baddr s e \<and>
     we_data (entities s' ! e) = we_data (entities s ! e) \<and> we_ppa (entities s' ! e) = we_ppa (entities s ! e) \<and>
     we_pos (entities s' ! e) = we_pos (entities s ! e) \<and> we_lba (entities s' ! e) = we_lba (entities s ! e))"

lemma quiet_live:
  assumes "quiet s s'" "live_ok s L (baddr s p) B" "\<forall>e \<in> L. e < 16" "p < 16"
  shows "live_ok s' L (baddr s' p) B"
  using assms unfolding quiet_def live_ok_def inj_on_def by simp

lemma quiet_held:
  assumes "quiet s s'" "held s nand L p B l pg" "\<forall>e \<in> L. e < 16" "p < 16"
  shows "held s' nand L p B l pg"
proof -
  have e: "baddr s' e = baddr s e" "we_data (entities s' ! e) = we_data (entities s ! e)"
      "slot_limit s' p e = slot_limit s p e" if "e \<in> insert p L" for e
    using that assms(1,3,4) by (auto simp: quiet_def slot_limit_def)
  have l: "l2ptbl s' = l2ptbl s"
    using assms(1) by (simp add: quiet_def)
  from assms(2) show ?thesis
    unfolding held_def l using e by (simp cong: bex_cong ball_cong)
qed

lemma wp_inv_frame:
  assumes inv: "wp_inv s E F p B" and c: "cache_rep s' E' F'" "p \<notin> set E' \<union> set F'" "set F' \<subseteq> set F"
    and k: "partial_entity (ctl s') = partial_entity (ctl s)" "sysm s' = sysm s"
    and p: "payload (entities s' ! p) = payload (entities s ! p)"
    and e: "\<And>i. i < 16 \<Longrightarrow> entity_ok (entities s' ! i) = entity_ok (entities s ! i)"
      "\<And>i. i \<in> set F' \<Longrightarrow> slots_ok (entities s' ! i) 128 = slots_ok (entities s ! i) 128"
  shows "wp_inv s' E' F' p B"
  using assms partial_ok_payload [OF p] by (auto simp: wp_inv_def)

lemma payload_cqe: "payload (w\<lparr>we_cqe_flag := f\<rparr>) = (payload w)\<lparr>we_cqe_flag := f\<rparr>"
  by (simp add: payload_def)

lemma payload_cqe_self: "(payload w)\<lparr>we_cqe_flag := we_cqe_flag w\<rparr> = payload w"
  by (cases w) (simp add: payload_def)

lemma cqe_payload:
  assumes "payload v = (payload w)\<lparr>we_cqe_flag := f\<rparr>"
  shows "we_baddr v = we_baddr w" "we_data v = we_data w" "we_ppa v = we_ppa w" "we_pos v = we_pos w"
    "we_lba v = we_lba w" "we_cqe_flag v = f"
  using assms by (cases v; cases w; simp add: payload_def)+

lemma in_flight_mono: "in_flight w e cmds nand \<Longrightarrow> set cmds \<subseteq> set cmds' \<Longrightarrow> in_flight w e cmds' nand"
  unfolding in_flight_def by (auto split: if_splits)

lemma submit_effect:
  assumes inv: "wp_inv s E (e # F) p B"
  shows "\<exists>s'. submit_write_backend s = Some (1, map (line_cmd_of e (entities s ! e)) [0..<CFG_DRIVE_LINE_NUM], s') \<and>
    wp_inv s' E F p B \<and> quiet s s' \<and> requeue_wr_bios (ctl s') = requeue_wr_bios (ctl s) \<and>
    outstanding_lun (ctl s') = outstanding_lun (ctl s) + 1 \<and> e < 16 \<and>
    (\<forall>i < 16. payload (entities s' ! i) = (if i = e then (payload (entities s ! e))\<lparr>we_cqe_flag := 0\<rparr> else payload (entities s ! i)))"
proof -
  note i = wp_invD [OF inv]
  obtain s1 where s1: "pull_full s = Some (Some e, s1)" "cache_rep s1 E F" "same_rest s s1" "e < 16"
    using pull_full_ok [OF i(1)] by blast
  let ?w = "(entities s1 ! e)\<lparr>we_cqe_flag := 0\<rparr>"
  let ?s2 = "put_entity e ?w (s1\<lparr>ctl := (ctl s1)\<lparr>outstanding_lun := outstanding_lun (ctl s1) + 1\<rparr>\<rparr>)"
  have len: "length (entities s1) = 16"
    using cache_rep_length [OF s1(2)] .
  have p1: "payload (entities s1 ! j) = payload (entities s ! j)" if "j < 16" for j
    using same_rest_nth [OF s1(3)] that i(2) by simp
  have p2: "\<forall>j < 16. payload (entities ?s2 ! j) =
      (if j = e then (payload (entities s ! e))\<lparr>we_cqe_flag := 0\<rparr> else payload (entities s ! j))"
    using p1 len s1(4) by (simp add: nth_list_update payload_cqe)
  have q: "quiet s ?s2"
    unfolding quiet_def
  proof (intro conjI allI impI)
    fix j :: nat assume "j < 16"
    then have pj: "payload (entities ?s2 ! j) = (payload (entities s ! j))\<lparr>we_cqe_flag := we_cqe_flag (entities ?s2 ! j)\<rparr>"
      using p2 p1 [OF \<open>j < 16\<close>] payload_eqD(6) [OF p1 [OF \<open>j < 16\<close>]] len s1(4)
      by (simp add: nth_list_update payload_cqe_self)
    show "baddr ?s2 j = baddr s j" "we_data (entities ?s2 ! j) = we_data (entities s ! j)"
      "we_ppa (entities ?s2 ! j) = we_ppa (entities s ! j)" "we_pos (entities ?s2 ! j) = we_pos (entities s ! j)"
      "we_lba (entities ?s2 ! j) = we_lba (entities s ! j)"
      using cqe_payload [OF pj] by simp_all
  qed (use s1(3) in \<open>simp add: same_rest_def\<close>)
  have "cache_rep (s1\<lparr>ctl := (ctl s1)\<lparr>outstanding_lun := outstanding_lun (ctl s1) + 1\<rparr>\<rparr>) E F"
    using s1(2) by (simp add: cache_rep_def)
  then have c2: "cache_rep ?s2 E F"
    by (rule cache_rep_put) (simp add: links_def)
  have pe: "p \<noteq> e" "p < 16"
    using i(3,11) by auto
  have "wp_inv ?s2 E F p B"
  proof (rule wp_inv_frame [OF inv c2])
    show "payload (entities ?s2 ! p) = payload (entities s ! p)"
      using p1 [OF pe(2)] pe(1) by simp
    show "entity_ok (entities ?s2 ! j) = entity_ok (entities s ! j)" if "j < 16" for j
      using q that by (simp add: quiet_def entity_ok_def)
    show "slots_ok (entities ?s2 ! j) 128 = slots_ok (entities s ! j) 128" if "j \<in> set F" for j
      using q that cache_rep_bound [OF i(1), of j] by (simp add: quiet_def slots_ok_def)
  qed (use i(11) s1(3) in \<open>auto simp: same_rest_def\<close>)
  moreover have "submit_write_backend s = Some (1, map (line_cmd_of e (entities s ! e)) [0..<CFG_DRIVE_LINE_NUM], ?s2)"
    using s1(1,4) len in_flight_payload(1) [OF p1 [OF s1(4)]]
    by (simp add: submit_write_backend_def nvme_wrppa_lun_def Let_def del: upt_Suc)
  ultimately show ?thesis
    using q p2 s1(3,4) by (intro exI [of _ ?s2]) (simp add: same_rest_def)
qed

lemma submit_inv:
  assumes inv: "wsys_inv w E (e # F) p B I"
  shows "\<exists>cs s'. submit_write_backend (wftl w) = Some (1, cs, s') \<and> length cs = CFG_DRIVE_LINE_NUM \<and>
    requeue_wr_bios (ctl s') = requeue_wr_bios (ctl (wftl w)) \<and>
    wsys_inv (w\<lparr>wftl := s', wcmds := wcmds w @ cs\<rparr>) E F p B (I @ [e])"
proof -
  note i = wsys_invD [OF inv]
  let ?s = "wftl w" and ?cs = "map (line_cmd_of e (entities (wftl w) ! e)) [0..<CFG_DRIVE_LINE_NUM]"
  obtain s' where s': "submit_write_backend ?s = Some (1, ?cs, s')" "wp_inv s' E F p B" "quiet ?s s'"
      "requeue_wr_bios (ctl s') = requeue_wr_bios (ctl ?s)" "outstanding_lun (ctl s') = outstanding_lun (ctl ?s) + 1" "e < 16"
      "\<forall>j < 16. payload (entities s' ! j) =
        (if j = e then (payload (entities ?s ! e))\<lparr>we_cqe_flag := 0\<rparr> else payload (entities ?s ! j))"
    using submit_effect [OF i(1)] by blast
  have L: "live F p (I @ [e]) = live (e # F) p I" "\<forall>j \<in> live (e # F) p I. j < 16" "p < 16"
    using i(3) by (auto simp: live_def)
  have I: "e \<notin> set I" "\<And>j. j \<in> set I \<Longrightarrow> j < 16"
    using i(2,3) by auto
  have ee: "we_cqe_flag (entities s' ! e) = 0" "we_ppa (entities s' ! e) = we_ppa (entities ?s ! e)"
      "we_data (entities s' ! e) = we_data (entities ?s ! e)" "baddr s' e = baddr ?s e"
    using cqe_payload [of "entities s' ! e" 0 "entities ?s ! e"] s'(6,7) by simp_all
  have cmd: "line_cmd_of e (entities s' ! e) l = line_cmd_of e (entities ?s ! e) l" for l
    using ee by (simp add: line_cmd_of_def)
  have pI: "payload (entities s' ! j) = payload (entities ?s ! j)" if "j \<in> set I" for j
    using s'(7) I that by auto
  have fl: "in_flight (entities s' ! j) j (wcmds w @ ?cs) (wnand w)" if "j \<in> set (I @ [e])" for j
  proof (cases "j = e")
    case True
    have "slots_ok (entities ?s ! e) 128"
      using i(1) by (simp add: wp_inv_def)
    then have "slots_ok (entities s' ! e) 128"
      using ee by (simp add: slots_ok_def)
    moreover have "\<exists>l < (8::nat). \<not> bit (we_cqe_flag (entities s' ! e)) l"
      using ee(1) by (intro exI [of _ 0]) simp
    ultimately show ?thesis
      using True cmd ee(1) by (simp add: in_flight_def)
  next
    case False
    then have "j \<in> set I" using that by simp
    with in_flight_payload(2) [OF pI [OF this]] i(7) [OF this] show ?thesis
      by (auto intro: in_flight_mono)
  qed
  have cm: "cmds_ok s' (set (I @ [e])) (wcmds w @ ?cs)"
  proof -
    have old: "cmds_ok s' (set I) (wcmds w)"
      by (rule cmds_ok_same [OF i(8) pI])
    have "c \<notin> set ?cs" if "c \<in> set (wcmds w)" for c
      using i(8) that I(1) by (auto simp: cmds_ok_def dest: line_cmd_inject)
    moreover have "distinct ?cs"
      by (auto simp: distinct_map inj_on_def simp del: upt_Suc dest: line_cmd_inject)
    ultimately show ?thesis
      using old cmd ee(1) by (auto simp: cmds_ok_def simp del: upt_Suc)
  qed
  have d: "distinct (E @ F @ p # I @ [e])"
    using i(2) by auto
  have "set (E @ F @ p # I @ [e]) = set (E @ (e # F) @ p # I)"
    by auto
  then have st: "set (E @ F @ p # I @ [e]) = {..<16}"
    unfolding i(3) .
  have ba: "baddr s' p = baddr ?s p"
    using s'(3) L(3) by (simp add: quiet_def)
  show ?thesis
    using s'(1,2,4,5) d st i(4,5,9,10) ba quiet_live [OF s'(3) i(6) L(2,3)] fl cm quiet_held [OF s'(3) i(11) L(2,3)]
    by (simp add: wsys_inv_def Let_def L(1) add.commute del: upt_Suc)
qed

end
