(* ===== verification/Write_Durable.thy ===== *)
theory Write_Durable
  imports Write_System
begin

text \<open>
  Completions of program commands, and the properties of the whole write system: no entity is lost,
  no operation stops the machine, and no acknowledged page is lost between cache and flash.
\<close>

section \<open>What a completed command leaves on the flash\<close>

lemma BIT2MASK_8: "f = BIT2MASK 8 \<longleftrightarrow> (\<forall>l. bit f l \<longleftrightarrow> l < 8)" for f :: u16
proof
  assume "f = BIT2MASK 8"
  then show "\<forall>l. bit f l \<longleftrightarrow> l < 8"
    by (auto simp: BIT2MASK_mask bit_mask_iff)
next
  assume b: "\<forall>l. bit f l \<longleftrightarrow> l < 8"
  show "f = BIT2MASK 8"
    by (rule bit_word_eqI) (simp add: b BIT2MASK_mask bit_mask_iff)
qed

lemma ucast_ppa_inject: "(ucast (a :: u32) :: u64) = ucast b \<longleftrightarrow> a = b"
  by (metis ucast_ppa_back)

lemma distinct_ppas:
  assumes "slots_ok w 128" "entity_ok w" "base_ok (we_baddr w)"
  shows "distinct (we_ppa w)"
  unfolding distinct_conv_nth
proof (intro allI impI)
  fix i j assume "i < length (we_ppa w)" "j < length (we_ppa w)" "i \<noteq> j"
  with assms base_add_inject [of "we_baddr w" "we_baddr w" i j] show "we_ppa w ! i \<noteq> we_ppa w ! j"
    by (auto simp: slots_ok_def entity_ok_def ucast_ppa_inject)
qed

definition in_line :: "nat \<Rightarrow> nat \<Rightarrow> bool" where
  "in_line l q \<longleftrightarrow> 16 * l \<le> q \<and> q < 16 * l + 16"

lemma program_hit:
  assumes "slots_ok w 128" "entity_ok w" "base_ok (we_baddr w)" "l < 8" "in_line l q"
  shows "program (line_cmd_of e w l) nand (we_ppa w ! q) = Some (we_data w ! q)"
proof -
  let ?xs = "take 16 (drop (l * 16) (we_ppa w))" and ?ys = "take 16 (drop (l * 16) (we_data w))"
  have len: "length ?xs = 16" "length ?ys = 16" "distinct ?xs"
    using assms(2,4) distinct_ppas [OF assms(1-3)] by (auto simp: entity_ok_def)
  have q: "q - 16 * l < 16" "16 * l + (q - 16 * l) = q"
    using assms(5) by (auto simp: in_line_def)
  then have "?xs ! (q - 16 * l) = we_ppa w ! q" "?ys ! (q - 16 * l) = we_data w ! q"
    using assms(2,4) by (simp_all add: entity_ok_def mult.commute)
  moreover have "map_of (zip ?xs ?ys) (?xs ! (q - 16 * l)) = Some (?ys ! (q - 16 * l))"
    using len q(1) by (intro map_of_zip_nth) simp_all
  ultimately show ?thesis
    by (simp add: program_def line_cmd_of_def)
qed

lemma program_miss:
  assumes "entity_ok w" "l < 8" "\<And>q. in_line l q \<Longrightarrow> we_ppa w ! q \<noteq> a"
  shows "program (line_cmd_of e w l) nand a = nand a"
proof -
  let ?xs = "take 16 (drop (l * 16) (we_ppa w))" and ?ys = "take 16 (drop (l * 16) (we_data w))"
  have "a \<notin> set ?xs"
  proof
    assume "a \<in> set ?xs"
    then obtain j where "j < 16" "a = we_ppa w ! (l * 16 + j)"
      using assms(1,2) by (auto simp: in_set_conv_nth entity_ok_def)
    with assms(3) [of "l * 16 + j"] show False
      by (auto simp: in_line_def)
  qed
  moreover have "length ?xs = length ?ys"
    using assms(1) by (simp add: entity_ok_def)
  ultimately have "map_of (zip ?xs ?ys) a = None"
    by (simp add: map_of_zip_is_None)
  then show ?thesis
    by (simp add: program_def line_cmd_of_def map_add_def)
qed

lemma in_line_bound: "l < 8 \<Longrightarrow> in_line l q \<Longrightarrow> q < 128"
  by (simp add: in_line_def)

text \<open>Addresses outside the entity's raid LUN, and its other lines, are left alone.\<close>

lemma program_other_base:
  assumes "slots_ok w 128" "entity_ok w" "base_ok (we_baddr w)" "l < 8" "base_ok c" "c \<noteq> we_baddr w" "q < 128"
  shows "program (line_cmd_of e w l) nand (ucast (c + of_nat q)) = nand (ucast (c + of_nat q))"
proof (rule program_miss [OF assms(2,4)])
  fix q' assume "in_line l q'"
  then have "q' < 128" by (rule in_line_bound [OF assms(4)])
  with assms base_add_inject [of "we_baddr w" c q' q] show "we_ppa w ! q' \<noteq> ucast (c + of_nat q)"
    by (auto simp: slots_ok_def ucast_ppa_inject)
qed

lemma program_other_line:
  assumes "slots_ok w 128" "entity_ok w" "base_ok (we_baddr w)" "l < 8" "l' < 8" "l' \<noteq> l" "line_done w nand l'"
  shows "line_done w (program (line_cmd_of e w l) nand) l'"
  unfolding line_done_def
proof (intro allI impI)
  fix q assume "16 * l' \<le> q \<and> q < 16 * l' + 16"
  then have q: "in_line l' q" by (simp add: in_line_def)
  have "program (line_cmd_of e w l) nand (we_ppa w ! q) = nand (we_ppa w ! q)"
  proof (rule program_miss [OF assms(2,4)])
    fix r assume r: "in_line l r"
    then have "r \<noteq> q" using q assms(6) by (auto simp: in_line_def)
    with distinct_ppas [OF assms(1-3)] in_line_bound [OF assms(4) r] in_line_bound [OF assms(5) q] assms(2)
    show "we_ppa w ! r \<noteq> we_ppa w ! q"
      by (simp add: nth_eq_iff_index_eq entity_ok_def)
  qed
  with assms(7) q show "program (line_cmd_of e w l) nand (we_ppa w ! q) = Some (we_data w ! q)"
    by (simp add: line_done_def in_line_def)
qed

section \<open>One completion\<close>

lemma flight_other:
  assumes fl: "in_flight v e' cmds nand" and v: "base_ok (we_baddr v)" "we_baddr v \<noteq> we_baddr w" "e' \<noteq> e"
    and w: "slots_ok w 128" "entity_ok w" "base_ok (we_baddr w)" "l < 8"
  shows "in_flight v e' (remove1 (line_cmd_of e w l) cmds) (program (line_cmd_of e w l) nand)"
proof -
  have sl: "slots_ok v 128" using fl by (simp add: in_flight_def)
  have "line_done v (program (line_cmd_of e w l) nand) l'" if "line_done v nand l'" "l' < 8" for l'
    unfolding line_done_def
  proof (intro allI impI)
    fix q assume q: "16 * l' \<le> q \<and> q < 16 * l' + 16"
    then have "q < 128" using that(2) by simp
    with sl have ppa: "we_ppa v ! q = ucast (we_baddr v + of_nat q)"
      by (simp add: slots_ok_def)
    have "nand (we_ppa v ! q) = Some (we_data v ! q)"
      using that(1) q by (simp add: line_done_def)
    then show "program (line_cmd_of e w l) nand (we_ppa v ! q) = Some (we_data v ! q)"
      using program_other_base [OF w v(1,2) \<open>q < 128\<close>, of e nand] by (simp add: ppa)
  qed
  moreover have "line_cmd_of e' v l' \<noteq> line_cmd_of e w l" for l'
    using v(3) by (auto dest: line_cmd_inject)
  ultimately show ?thesis
    using fl by (auto simp: in_flight_def split: if_splits)
qed

lemma flight_lines:
  assumes fl: "in_flight w e cmds nand" and w: "entity_ok w" "base_ok (we_baddr w)" "l < 8"
    and l': "l' < 8" "bit (we_cqe_flag w) l' \<or> l' = l"
  shows "line_done w (program (line_cmd_of e w l) nand) l'"
proof (cases "l' = l")
  case True
  with fl w show ?thesis
    by (auto simp: line_done_def in_flight_def in_line_def intro!: program_hit)
next
  case False
  with fl w l' show ?thesis
    by (intro program_other_line) (auto simp: in_flight_def split: if_splits)
qed

lemma flight_self:
  assumes fl: "in_flight w e cmds nand" and w: "entity_ok w" "base_ok (we_baddr w)" "l < 8"
    and f: "BIT_SET (we_cqe_flag w) l \<noteq> BIT2MASK 8"
  shows "in_flight (w\<lparr>we_cqe_flag := BIT_SET (we_cqe_flag w) l\<rparr>) e (remove1 (line_cmd_of e w l) cmds)
    (program (line_cmd_of e w l) nand)"
proof -
  have b: "bit (BIT_SET (we_cqe_flag w) l) l' \<longleftrightarrow> bit (we_cqe_flag w) l' \<or> l' = l" for l'
    using w(3) by (auto simp: bit_BIT_SET)
  have "\<exists>l' < 8. \<not> bit (BIT_SET (we_cqe_flag w) l) l'"
    using f fl w(3) unfolding BIT2MASK_8 b by (auto simp: in_flight_def)
  moreover have "line_done (w\<lparr>we_cqe_flag := BIT_SET (we_cqe_flag w) l\<rparr>) (program (line_cmd_of e w l) nand) l'"
    if "l' < 8" "bit (BIT_SET (we_cqe_flag w) l) l'" for l'
    using flight_lines [OF fl w that(1)] that(2) unfolding b by (simp add: line_done_def)
  moreover have "line_cmd_of e w l' \<in> set (remove1 (line_cmd_of e w l) cmds)"
    if "l' < 8" "\<not> bit (BIT_SET (we_cqe_flag w) l) l'" for l'
  proof -
    have "line_cmd_of e w l' \<in> set cmds" "line_cmd_of e w l' \<noteq> line_cmd_of e w l"
      using fl that unfolding b by (auto simp: in_flight_def split: if_splits dest: line_cmd_inject)
    then show ?thesis by simp
  qed
  ultimately show ?thesis
    using fl w(3) by (auto simp: in_flight_def slots_ok_def b)
qed

lemma flight_all_done:
  assumes fl: "in_flight w e cmds nand" and w: "entity_ok w" "base_ok (we_baddr w)" "l < 8"
    and f: "BIT_SET (we_cqe_flag w) l = BIT2MASK 8" and q: "q < 128"
  shows "program (line_cmd_of e w l) nand (ucast (we_baddr w + of_nat q)) = Some (we_data w ! q)"
proof -
  have "bit (BIT_SET (we_cqe_flag w) l) (q div 16)"
    using f q unfolding BIT2MASK_8 by auto
  then have "bit (we_cqe_flag w) (q div 16) \<or> q div 16 = l"
    by (auto simp: bit_BIT_SET)
  then have "line_done w (program (line_cmd_of e w l) nand) (q div 16)"
    using flight_lines [OF fl w, of "q div 16"] q by auto
  moreover have "we_ppa w ! q = ucast (we_baddr w + of_nat q)"
    using fl q by (simp add: in_flight_def slots_ok_def)
  moreover have "16 * (q div 16) \<le> q \<and> q < 16 * (q div 16) + 16"
    using div_mult_mod_eq [of q 16] mod_less_divisor [of 16 q] by (simp add: mult.commute)
  ultimately show ?thesis
    unfolding line_done_def by metis
qed

lemma held_program:
  assumes h: "held s nand L p B a pg" and e: "e \<in> L"
    and w: "slots_ok (entities s ! e) 128" "entity_ok (entities s ! e)" "base_ok (baddr s e)" "l < 8"
  shows "held s (program (line_cmd_of e (entities s ! e) l) nand) L p B a pg"
proof -
  obtain c q where c: "base_ok c" "q < RAID_LUN_SEC_NUM" "spent (baddr s p) B c" "l2ptbl s a = set_in_cache 1 (c + of_nat q)"
      "(\<exists>e \<in> L. baddr s e = c \<and> q < slot_limit s p e \<and> we_data (entities s ! e) ! q = pg) \<or>
       ((\<forall>e \<in> L. baddr s e \<noteq> c) \<and> nand (ucast (c + of_nat q)) = Some pg)"
    using h unfolding held_def by blast
  have "program (line_cmd_of e (entities s ! e) l) nand (ucast (c + of_nat q)) = nand (ucast (c + of_nat q))"
    if "\<forall>e \<in> L. baddr s e \<noteq> c"
    using program_other_base [OF w c(1), of q] that e c(2) by auto
  with c show ?thesis
    unfolding held_def by (intro exI [of _ c] exI [of _ q]) auto
qed

lemma held_drop:
  assumes h: "held s nand L p B a pg" and e: "e \<in> L" "e \<noteq> p" "inj_on (baddr s) L"
    and d: "\<And>q. q < 128 \<Longrightarrow> nand (ucast (baddr s e + of_nat q)) = Some (we_data (entities s ! e) ! q)"
  shows "held s nand (L - {e}) p B a pg"
proof -
  obtain c q where c: "base_ok c" "q < RAID_LUN_SEC_NUM" "spent (baddr s p) B c" "l2ptbl s a = set_in_cache 1 (c + of_nat q)"
      "(\<exists>e \<in> L. baddr s e = c \<and> q < slot_limit s p e \<and> we_data (entities s ! e) ! q = pg) \<or>
       ((\<forall>e \<in> L. baddr s e \<noteq> c) \<and> nand (ucast (c + of_nat q)) = Some pg)"
    using h unfolding held_def by blast
  have "(\<exists>e' \<in> L - {e}. baddr s e' = c \<and> q < slot_limit s p e' \<and> we_data (entities s ! e') ! q = pg) \<or>
       ((\<forall>e' \<in> L - {e}. baddr s e' \<noteq> c) \<and> nand (ucast (c + of_nat q)) = Some pg)"
    using c(5)
  proof
    assume "\<exists>e \<in> L. baddr s e = c \<and> q < slot_limit s p e \<and> we_data (entities s ! e) ! q = pg"
    then obtain e' where e': "e' \<in> L" "baddr s e' = c" "q < slot_limit s p e'" "we_data (entities s ! e') ! q = pg"
      by blast
    show ?thesis
    proof (cases "e' = e")
      case True
      have "baddr s e'' \<noteq> c" if "e'' \<in> L - {e}" for e''
        using that e(1,3) e'(2) True by (auto simp: inj_on_def)
      with True e' d [of q] c(2) show ?thesis by auto
    next
      case False
      with e' show ?thesis by blast
    qed
  next
    assume "(\<forall>e \<in> L. baddr s e \<noteq> c) \<and> nand (ucast (c + of_nat q)) = Some pg"
    then show ?thesis by simp
  qed
  with c(1-4) show ?thesis
    unfolding held_def by blast
qed

lemma flag_effect:
  fixes f :: u16
  assumes inv: "wp_inv s E F p B" and e: "e < 16" "e \<notin> set E \<union> set F" "e \<noteq> p"
  defines "s' \<equiv> put_entity e ((entities s ! e)\<lparr>we_cqe_flag := f\<rparr>) s"
  shows "wp_inv s' E F p B" "quiet s s'"
    and "\<And>i. i < 16 \<Longrightarrow> i \<noteq> e \<Longrightarrow> entities s' ! i = entities s ! i"
    and "entities s' ! e = (entities s ! e)\<lparr>we_cqe_flag := f\<rparr>"
proof -
  note i = wp_invD [OF inv]
  show o: "entities s' ! j = entities s ! j" if "j < 16" "j \<noteq> e" for j
    using that by (simp add: s'_def)
  show w: "entities s' ! e = (entities s ! e)\<lparr>we_cqe_flag := f\<rparr>"
    using e(1) i(2) by (simp add: s'_def)
  show q: "quiet s s'"
    unfolding quiet_def
  proof (intro conjI allI impI)
    show "l2ptbl s' = l2ptbl s" by (simp add: s'_def)
    fix j :: nat assume "j < 16"
    then show "baddr s' j = baddr s j" "we_data (entities s' ! j) = we_data (entities s ! j)"
      "we_ppa (entities s' ! j) = we_ppa (entities s ! j)" "we_pos (entities s' ! j) = we_pos (entities s ! j)"
      "we_lba (entities s' ! j) = we_lba (entities s ! j)"
      using o [of j] w by (cases "j = e"; simp)+
  qed
  show "wp_inv s' E F p B"
  proof (rule wp_inv_frame [OF inv])
    show "cache_rep s' E F"
      unfolding s'_def by (rule cache_rep_put [OF i(1)]) (simp add: links_def)
    show "payload (entities s' ! p) = payload (entities s ! p)"
      using o [OF i(3)] e(3) by simp
    show "entity_ok (entities s' ! j) = entity_ok (entities s ! j)" if "j < 16" for j
      using q that by (simp add: quiet_def entity_ok_def)
    show "slots_ok (entities s' ! j) 128 = slots_ok (entities s ! j) 128" if "j \<in> set F" for j
      using q that cache_rep_bound [OF i(1), of j] by (simp add: quiet_def slots_ok_def)
  qed (use i(11) in \<open>simp_all add: s'_def\<close>)
qed

lemma same_rest_quiet:
  assumes "same_rest s s'" "length (entities s) = 16"
  shows "quiet s s'"
  using assms payload_eqD [OF same_rest_nth [OF assms(1)]] by (simp add: quiet_def same_rest_def)

lemma recycle_effect:
  assumes inv: "wp_inv s E F p B" and e: "e < 16" "e \<notin> set E \<union> set F" "e \<noteq> p"
  shows "\<exists>s'. push_empty s e = Some s' \<and> wp_inv s' (E @ [e]) F p B \<and> quiet s s' \<and> same_rest s s'"
proof -
  note i = wp_invD [OF inv]
  obtain s' where s': "push_empty s e = Some s'" "cache_rep s' (E @ [e]) F" "same_rest s s'"
    using push_empty_ok [OF i(1) e(1,2)] by blast
  have q: "quiet s s'"
    by (rule same_rest_quiet [OF s'(3) i(2)])
  have "wp_inv s' (E @ [e]) F p B"
  proof (rule wp_inv_frame [OF inv s'(2)])
    show "payload (entities s' ! p) = payload (entities s ! p)"
      using same_rest_nth [OF s'(3)] i(2,3) by simp
    show "entity_ok (entities s' ! j) = entity_ok (entities s ! j)" if "j < 16" for j
      using q that by (simp add: quiet_def entity_ok_def)
    show "slots_ok (entities s' ! j) 128 = slots_ok (entities s ! j) 128" if "j \<in> set F" for j
      using q that cache_rep_bound [OF i(1), of j] by (simp add: quiet_def slots_ok_def)
  qed (use i(11) e(3) s'(3) in \<open>auto simp: same_rest_def\<close>)
  with s' q show ?thesis by blast
qed

text \<open>What the invariant says of a command in flight.\<close>

lemma cmd_entity:
  assumes inv: "wsys_inv w E F p B I" and c: "c \<in> set (wcmds w)"
  shows "\<exists>e l. e \<in> set I \<and> l < 8 \<and> c = line_cmd_of e (entities (wftl w) ! e) l \<and>
    \<not> bit (we_cqe_flag (entities (wftl w) ! e)) l \<and> e < 16 \<and> e \<notin> set E \<union> set F \<and> e \<noteq> p \<and>
    entity_ok (entities (wftl w) ! e) \<and> base_ok (baddr (wftl w) e) \<and>
    in_flight (entities (wftl w) ! e) e (wcmds w) (wnand w) \<and> slots_ok (entities (wftl w) ! e) 128"
proof -
  note i = wsys_invD [OF inv]
  obtain e l where el: "e \<in> set I" "l < 8" "c = line_cmd_of e (entities (wftl w) ! e) l"
      "\<not> bit (we_cqe_flag (entities (wftl w) ! e)) l"
    using i(8) c by (auto simp: cmds_ok_def)
  have e: "e \<notin> set E \<union> set F" "e \<noteq> p"
    using i(2) el(1) by auto
  have "e \<in> set (E @ F @ p # I)"
    using el(1) by simp
  then have e16: "e < 16"
    unfolding i(3) by simp
  have "base_ok (baddr (wftl w) e)"
    using i(6) el(1) by (simp add: live_ok_def live_def)
  moreover have "entity_ok (entities (wftl w) ! e)"
    using i(1) e16 by (simp add: wp_inv_def)
  ultimately show ?thesis
    using el e e16 i(7) [OF el(1)] by (intro exI [of _ e] exI [of _ l]) (simp add: in_flight_def)
qed

lemma cmds_ok_remove:
  assumes ok: "cmds_ok s J cmds" and c: "c = line_cmd_of e (entities s ! e) l"
    and s': "\<And>i. i \<in> J \<Longrightarrow> i \<noteq> e \<Longrightarrow> payload (entities s' ! i) = payload (entities s ! i)"
    and e: "e \<in> J' \<Longrightarrow> payload (entities s' ! e) = (payload (entities s ! e))\<lparr>we_cqe_flag := BIT_SET (we_cqe_flag (entities s ! e)) l\<rparr>"
    and J': "J - {e} \<subseteq> J'" "e \<in> J' \<or> (\<forall>k < 8. k \<noteq> l \<longrightarrow> bit (we_cqe_flag (entities s ! e)) k)"
  shows "cmds_ok s' J' (remove1 c cmds)"
proof -
  have "\<exists>i \<in> J'. \<exists>k < 8. d = line_cmd_of i (entities s' ! i) k \<and> \<not> bit (we_cqe_flag (entities s' ! i)) k"
    if d: "d \<in> set cmds" "d \<noteq> c" for d
  proof -
    obtain i k where ik: "i \<in> J" "k < 8" "d = line_cmd_of i (entities s ! i) k" "\<not> bit (we_cqe_flag (entities s ! i)) k"
      using ok d(1) by (auto simp: cmds_ok_def)
    show ?thesis
    proof (cases "i = e")
      case True
      then have k: "k \<noteq> l" using d(2) ik(3) c by auto
      with J'(2) ik(2,4) True have eJ: "e \<in> J'" by auto
      note q = cqe_payload [OF e [OF eJ]]
      have "line_cmd_of e (entities s' ! e) k = d"
        using ik(3) True q by (simp add: line_cmd_of_def)
      moreover have "\<not> bit (we_cqe_flag (entities s' ! e)) k"
        using ik(4) True k by (simp add: q(6) bit_BIT_SET)
      ultimately show ?thesis
        using eJ ik(2) by blast
    next
      case False
      note p = s' [OF ik(1) False]
      have "d = line_cmd_of i (entities s' ! i) k" "\<not> bit (we_cqe_flag (entities s' ! i)) k"
        using ik(3,4) in_flight_payload(1) [OF p] payload_eqD(6) [OF p] by simp_all
      with False ik(1,2) J'(1) show ?thesis by blast
    qed
  qed
  with ok show ?thesis
    by (simp add: cmds_ok_def)
qed

lemma complete_part:
  assumes inv: "wsys_inv w E F p B I" and e: "e \<in> set I" "l < 8" "c = line_cmd_of e (entities (wftl w) ! e) l"
      "e < 16" "e \<notin> set E \<union> set F" "e \<noteq> p" "entity_ok (entities (wftl w) ! e)" "base_ok (baddr (wftl w) e)"
      "in_flight (entities (wftl w) ! e) e (wcmds w) (wnand w)" "slots_ok (entities (wftl w) ! e) 128"
    and f: "f = BIT_SET (we_cqe_flag (entities (wftl w) ! e)) l" "f \<noteq> BIT2MASK 8"
    and s': "s' = put_entity e ((entities (wftl w) ! e)\<lparr>we_cqe_flag := f\<rparr>) (wftl w)"
  shows "wsys_inv (w\<lparr>wftl := s', wcmds := remove1 c (wcmds w), wnand := program c (wnand w)\<rparr>) E F p B I"
proof -
  note i = wsys_invD [OF inv]
  let ?s = "wftl w"
  note s = flag_effect [OF i(1) e(4-6), where f = f, folded s']
  have L: "\<forall>j \<in> live F p I. j < 16" "p < 16" "e \<in> live F p I" "set I \<subseteq> live F p I"
    using i(3) e(1) by (auto simp: live_def)
  have fl: "in_flight (entities s' ! j) j (remove1 c (wcmds w)) (program c (wnand w))" if j: "j \<in> set I" for j
  proof (cases "j = e")
    case True
    show ?thesis
      using flight_self [OF e(9,7,8,2)] f unfolding True s(4) e(3) by simp
  next
    case False
    have "j \<in> live F p I" using L(4) j by auto
    then have b: "base_ok (baddr ?s j)" "baddr ?s j \<noteq> baddr ?s e" "j < 16"
      using i(6) L(1,3) False by (auto simp: live_ok_def inj_on_def)
    show ?thesis
      using flight_other [OF i(7) [OF j] b(1,2) False e(10,7,8,2)] s(3) [OF b(3) False] by (simp add: e(3))
  qed
  have cm: "cmds_ok s' (set I) (remove1 c (wcmds w))"
  proof (rule cmds_ok_remove [OF i(8) e(3)])
    show "payload (entities s' ! j) = payload (entities ?s ! j)" if "j \<in> set I" "j \<noteq> e" for j
      using s(3) [of j] that L by auto
  qed (use e(1) s(4) f(1) in \<open>auto simp: payload_cqe\<close>)
  have h: "held s' (program c (wnand w)) (live F p I) p B a pg" if "wmem w a = Some pg" for a pg
    using quiet_held [OF s(2) held_program [OF i(11) [OF that] L(3) e(10,7,8,2)] L(1,2)] by (simp add: e(3))
  have ba: "baddr s' p = baddr ?s p"
    using s(3) [OF L(2)] e(6) by simp
  have ct: "outstanding_lun (ctl s') = outstanding_lun (ctl ?s)" "requeue_wr_bios (ctl s') = requeue_wr_bios (ctl ?s)"
    by (simp_all add: s')
  show ?thesis
    using s(1) i(2-5,9,10) ba quiet_live [OF s(2) i(6) L(1,2)] fl cm h ct
    by (simp add: wsys_inv_def Let_def)
qed

lemma complete_last:
  assumes inv: "wsys_inv w E F p B I" and e: "e \<in> set I" "l < 8" "c = line_cmd_of e (entities (wftl w) ! e) l"
      "e < 16" "e \<notin> set E \<union> set F" "e \<noteq> p" "entity_ok (entities (wftl w) ! e)" "base_ok (baddr (wftl w) e)"
      "in_flight (entities (wftl w) ! e) e (wcmds w) (wnand w)" "slots_ok (entities (wftl w) ! e) 128"
    and f: "f = BIT_SET (we_cqe_flag (entities (wftl w) ! e)) l" "f = BIT2MASK 8"
    and t: "t = put_entity e ((entities (wftl w) ! e)\<lparr>we_cqe_flag := f\<rparr>) (wftl w)"
    and u: "push_empty t e = Some u" "wp_inv u (E @ [e]) F p B" "quiet t u" "same_rest t u"
    and s': "s' = u\<lparr>ctl := (ctl u)\<lparr>outstanding_lun := outstanding_lun (ctl u) - 1\<rparr>\<rparr>"
  shows "wsys_inv (w\<lparr>wftl := s', wcmds := remove1 c (wcmds w), wnand := program c (wnand w)\<rparr>) (E @ [e]) F p B (remove1 e I)"
proof -
  note i = wsys_invD [OF inv]
  let ?s = "wftl w" and ?I = "remove1 e I"
  note s = flag_effect [OF i(1) e(4-6), where f = f, folded t]
  have len: "length (entities t) = 16"
    by (rule wp_invD(2) [OF s(1)])
  have dI: "distinct I" "set ?I = set I - {e}"
    using i(2) by auto
  have L: "\<forall>j \<in> live F p I. j < 16" "p < 16" "e \<in> live F p I" "live F p ?I = live F p I - {e}" "set I \<subseteq> live F p I"
    using i(3) e(1,5,6) dI by (auto simp: live_def)
  have L': "\<forall>j \<in> live F p ?I. j < 16"
    using L(1,4) by auto
  have pay: "payload (entities s' ! j) = payload (entities ?s ! j)" if "j < 16" "j \<noteq> e" for j
    using same_rest_nth [OF u(4), of j] len s(3) [OF that] that(1) by (simp add: s')
  have q: "quiet ?s s'"
    using s(2) u(3) by (simp add: quiet_def s')
  have fl: "in_flight (entities s' ! j) j (remove1 c (wcmds w)) (program c (wnand w))" if "j \<in> set ?I" for j
  proof -
    have j: "j \<in> set I" "j \<noteq> e" using that dI by auto
    then have "j \<in> live F p I" using L(5) by auto
    then have b: "base_ok (baddr ?s j)" "baddr ?s j \<noteq> baddr ?s e" "j < 16"
      using i(6) L(1,3) j(2) by (auto simp: live_ok_def inj_on_def)
    show ?thesis
      using flight_other [OF i(7) [OF j(1)] b(1,2) j(2) e(10,7,8,2)] in_flight_payload(2) [OF pay [OF b(3) j(2)]] by (simp add: e(3))
  qed
  have bits: "bit (we_cqe_flag (entities ?s ! e)) k" if "k < 8" "k \<noteq> l" for k
    using f that unfolding BIT2MASK_8 by (metis bit_BIT_SET)
  have cm: "cmds_ok s' (set ?I) (remove1 c (wcmds w))"
    by (rule cmds_ok_remove [OF i(8) e(3)]) (use pay L dI bits in auto)
  have inj: "inj_on (baddr ?s) (live F p I)"
    using i(6) by (simp add: live_ok_def)
  have h: "held s' (program c (wnand w)) (live F p ?I) p B a pg" if "wmem w a = Some pg" for a pg
  proof -
    have "held ?s (program c (wnand w)) (live F p I) p B a pg"
      using held_program [OF i(11) [OF that] L(3) e(10,7,8,2)] by (simp add: e(3))
    then have "held ?s (program c (wnand w)) (live F p ?I) p B a pg"
      unfolding L(4) by (rule held_drop [OF _ L(3) e(6) inj]) (use flight_all_done [OF e(9,7,8,2)] f e(3) in simp)
    then show ?thesis
      by (rule quiet_held [OF q _ L' L(2)])
  qed
  have lv: "live_ok s' (live F p ?I) (baddr s' p) B"
    by (rule quiet_live [OF q _ L' L(2)]) (use i(6) L(4) in \<open>auto simp: live_ok_def inj_on_def\<close>)
  have ba: "baddr s' p = baddr ?s p"
    using q L(2) by (simp add: quiet_def)
  obtain n where n: "length I = Suc n"
    using e(1) by (cases I) auto
  then have "outstanding_lun (ctl u) = of_nat (Suc n)"
    using u(4) i(9) by (simp add: same_rest_def t)
  then have ct: "outstanding_lun (ctl s') = of_nat (length ?I)"
    using n e(1) by (simp add: s' length_remove1)
  have rq: "requeue_wr_bios (ctl s') = requeue_wr_bios (ctl ?s)"
    using u(4) by (simp add: s' same_rest_def t)
  have wp: "wp_inv s' (E @ [e]) F p B"
    using u(2) by (simp add: wp_inv_def cache_rep_def s')
  have d: "distinct ((E @ [e]) @ F @ p # ?I)"
    using i(2) e(5,6) by auto
  have "set ((E @ [e]) @ F @ p # ?I) = set (E @ F @ p # I)"
    using dI(2) e(1) by auto
  then have "set ((E @ [e]) @ F @ p # ?I) = {..<16}"
    unfolding i(3) .
  then show ?thesis
    using wp d i(4,5,10) ba lv fl cm h ct rq by (simp add: wsys_inv_def Let_def)
qed

lemma complete_inv:
  assumes inv: "wsys_inv w E F p B I" and c: "c \<in> set (wcmds w)"
  shows "\<exists>wake s' E' I'. wrppa_lun_completion (wftl w) c = Some (wake, s') \<and>
    requeue_wr_bios (ctl s') = requeue_wr_bios (ctl (wftl w)) \<and>
    wsys_inv (w\<lparr>wftl := s', wcmds := remove1 c (wcmds w), wnand := program c (wnand w)\<rparr>) E' F p B I'"
proof -
  note i = wsys_invD [OF inv]
  obtain e l where e: "e \<in> set I" "l < 8" "c = line_cmd_of e (entities (wftl w) ! e) l" "e < 16"
      "e \<notin> set E \<union> set F" "e \<noteq> p" "entity_ok (entities (wftl w) ! e)" "base_ok (baddr (wftl w) e)"
      "in_flight (entities (wftl w) ! e) e (wcmds w) (wnand w)" "slots_ok (entities (wftl w) ! e) 128"
      and nb: "\<not> bit (we_cqe_flag (entities (wftl w) ! e)) l"
    using cmd_entity [OF inv c] by blast
  let ?f = "BIT_SET (we_cqe_flag (entities (wftl w) ! e)) l"
  let ?t = "put_entity e ((entities (wftl w) ! e)\<lparr>we_cqe_flag := ?f\<rparr>) (wftl w)"
  have lc: "lc_entity c = e" "lc_idx c = l"
    by (simp_all add: e(3) line_cmd_of_def)
  have ag: "aget (entities (wftl w)) e = Some (entities (wftl w) ! e)"
    using e(4) wp_invD(2) [OF i(1)] by simp
  have nt: "\<not> BIT_TEST (we_cqe_flag (entities (wftl w) ! e)) l"
    using nb by (simp add: BIT_TEST_iff)
  show ?thesis
  proof (cases "?f = BIT2MASK 8")
    case False
    then have "wrppa_lun_completion (wftl w) c = Some (False, ?t)"
      by (simp add: wrppa_lun_completion_def Let_def lc ag nt)
    moreover have "requeue_wr_bios (ctl ?t) = requeue_wr_bios (ctl (wftl w))"
      by simp
    ultimately show ?thesis
      using complete_part [OF inv e refl False refl] by blast
  next
    case True
    obtain u where u: "push_empty ?t e = Some u" "wp_inv u (E @ [e]) F p B" "quiet ?t u" "same_rest ?t u"
      using recycle_effect [OF flag_effect(1) [OF i(1) e(4-6)] e(4-6)] by blast
    let ?u = "u\<lparr>ctl := (ctl u)\<lparr>outstanding_lun := outstanding_lun (ctl u) - 1\<rparr>\<rparr>"
    have "\<exists>wake. wrppa_lun_completion (wftl w) c = Some (wake, ?u)"
      using u(1) True by (simp add: wrppa_lun_completion_def Let_def lc ag nt)
    moreover have "requeue_wr_bios (ctl ?u) = requeue_wr_bios (ctl (wftl w))"
      using u(4) by (simp add: same_rest_def)
    ultimately show ?thesis
      using complete_last [OF inv e refl True refl u refl] by blast
  qed
qed

end
