(* ===== verification/Write_Reach.thy ===== *)
theory Write_Reach
  imports Write_Durable
begin

text \<open>
  Reachable states of the write path: requests, submissions, completions and retries in any order
  keep the invariant of \<open>Write_System\<close>, so no operation of a reachable state stops the machine,
  acknowledged pages are never lost, and waiting requests can always be finished.
\<close>

section \<open>Every step keeps the invariant\<close>

definition wsys_ok :: "wsys \<Rightarrow> bool" where
  "wsys_ok w \<longleftrightarrow> (\<exists>E F p B I. wsys_inv w E F p B I)"

lemma wsys_okI: "wsys_inv w E F p B I \<Longrightarrow> wsys_ok w"
  unfolding wsys_ok_def by blast

lemma wsys_okE:
  assumes "wsys_ok w"
  obtains E F p B I where "wsys_inv w E F p B I"
  using assms unfolding wsys_ok_def by blast

lemma started_ok:
  assumes "started s"
  shows "wsys_ok (winit s)"
proof -
  obtain B where B: "wp_inv s [1..<16] [] 0 B" "unat (ppa_blk (baddr s 0)) \<notin> set B"
      and r: "\<forall>b \<in> set (requeue_wr_bios (ctl s)). bio_ok b" "outstanding_lun (ctl s) = 0"
    using assms by (auto simp: started_def wcb_abs_def simp del: upt_Suc)
  have "distinct B"
    using wp_invD(10) [OF B(1)] by (auto simp: pool_rep_def bl.linked_def split: prod.splits)
  moreover have "base_ok (baddr s 0)"
    using wp_invD(6) [OF B(1)] by (simp add: partial_ok_def base_ok_def)
  moreover have "set ([1..<16] @ [] @ 0 # []) = {..<16::nat}"
    by auto
  ultimately have "wsys_inv (winit s) [1..<16] [] 0 B []"
    using B r by (simp add: wsys_inv_def winit_def Let_def live_ok_def live_def spent_def cmds_ok_def del: upt_Suc)
  then show ?thesis
    by (rule wsys_okI)
qed

lemma submit_nil:
  assumes "wsys_inv w E [] p B I"
  shows "submit_write_backend (wftl w) = Some (0, [], wftl w)"
  using pull_full_nil [OF wp_invD(1) [OF wsys_invD(1) [OF assms]]] by (simp add: submit_write_backend_def)

lemma submit_ok:
  assumes "wsys_ok w"
  shows "\<exists>r cs s'. submit_write_backend (wftl w) = Some (r, cs, s') \<and> wsys_ok (w\<lparr>wftl := s', wcmds := wcmds w @ cs\<rparr>)"
proof -
  obtain E F p B I where inv: "wsys_inv w E F p B I"
    using assms by (rule wsys_okE)
  show ?thesis
  proof (cases F)
    case Nil
    with inv submit_nil [of w E p B I] show ?thesis
      by (auto intro: wsys_okI)
  next
    case (Cons e F')
    with submit_inv [of w E e F' p B I] inv show ?thesis
      by (blast intro: wsys_okI)
  qed
qed

lemma complete_ok:
  assumes "wsys_ok w" "c \<in> set (wcmds w)"
  shows "\<exists>wake s'. wrppa_lun_completion (wftl w) c = Some (wake, s') \<and>
    wsys_ok (w\<lparr>wftl := s', wcmds := remove1 c (wcmds w), wnand := program c (wnand w)\<rparr>)"
proof -
  obtain E F p B I where "wsys_inv w E F p B I"
    using assms(1) by (rule wsys_okE)
  from complete_inv [OF this assms(2)] show ?thesis
    by (blast intro: wsys_okI)
qed

lemma requeue_ok:
  assumes "wsys_ok w" "\<forall>b \<in> set bs. bio_ok b"
  shows "wsys_ok (w\<lparr>wftl := set_requeue bs (wftl w)\<rparr>)"
  using assms(1) by (rule wsys_okE) (rule wsys_okI [OF inv_requeue [OF _ assms(2)]])

lemma waiting_ok: "wsys_ok w \<Longrightarrow> b \<in> set (requeue_wr_bios (ctl (wftl w))) \<Longrightarrow> bio_ok b"
  by (erule wsys_okE) (blast dest: wsys_invD(10))

lemma process_ok:
  assumes "wsys_ok w" "bio_ok b" "has_free (wftl w)"
  shows "process_write_bio (wftl w) b = Some (FSCFTL_BIO_RESUBMIT, wftl w, b) \<or>
    (\<exists>s'. process_write_bio (wftl w) b = Some (FSCFTL_BIO_COMPLETE, s', bio_skip (nppa b) b) \<and>
      requeue_wr_bios (ctl s') = requeue_wr_bios (ctl (wftl w)) \<and> wsys_ok (w\<lparr>wftl := s', wmem := ack b (wmem w)\<rparr>))"
proof -
  obtain E F p B I where "wsys_inv w E F p B I"
    using assms(1) by (rule wsys_okE)
  from process_inv [OF this assms(2,3)] show ?thesis
    by (blast intro: wsys_okI)
qed

lemma request_ok:
  assumes ok: "wsys_ok w" and b: "bio_ok b" and f: "has_free (wftl w)"
  shows "\<exists>ended s'. fscftl_make_rq (wftl w) WRITE_DIR b = Some (ended, s') \<and>
    wsys_ok (w\<lparr>wftl := s', wmem := (if ended then ack b (wmem w) else wmem w)\<rparr>)"
proof (cases "requeue_wr_bios (ctl (wftl w)) = []")
  case True
  have rq: "wsys_ok (w\<lparr>wftl := set_requeue [b] (wftl w)\<rparr>)"
    by (rule requeue_ok [OF ok]) (simp add: b)
  from process_ok [OF ok b f] show ?thesis
  proof
    assume "process_write_bio (wftl w) b = Some (FSCFTL_BIO_RESUBMIT, wftl w, b)"
    with True rq show ?thesis
      by (intro exI [of _ False]) (simp add: fscftl_make_rq_def)
  next
    assume "\<exists>s'. process_write_bio (wftl w) b = Some (FSCFTL_BIO_COMPLETE, s', bio_skip (nppa b) b) \<and>
      requeue_wr_bios (ctl s') = requeue_wr_bios (ctl (wftl w)) \<and> wsys_ok (w\<lparr>wftl := s', wmem := ack b (wmem w)\<rparr>)"
    with True show ?thesis
      by (auto simp: fscftl_make_rq_def)
  qed
next
  case False
  with requeue_ok [OF ok, of "requeue_wr_bios (ctl (wftl w)) @ [b]"] b waiting_ok [OF ok] show ?thesis
    by (auto simp: fscftl_make_rq_def)
qed

lemma retry_ok:
  assumes ok: "wsys_ok w" and rq: "requeue_wr_bios (ctl (wftl w)) = b # bs" and f: "has_free (wftl w)"
  shows "process_write_bio (set_requeue bs (wftl w)) b = Some (FSCFTL_BIO_RESUBMIT, set_requeue bs (wftl w), b) \<or>
    (\<exists>s'. process_write_bio (set_requeue bs (wftl w)) b = Some (FSCFTL_BIO_COMPLETE, s', bio_skip (nppa b) b) \<and>
      requeue_wr_bios (ctl s') = bs \<and> wsys_ok (w\<lparr>wftl := s', wmem := ack b (wmem w)\<rparr>))"
proof -
  have w: "wsys_ok (w\<lparr>wftl := set_requeue bs (wftl w)\<rparr>)" "bio_ok b" "has_free (set_requeue bs (wftl w))"
    using requeue_ok [OF ok, of bs] waiting_ok [OF ok] rq f by (simp_all add: has_free_def)
  then show ?thesis
    using process_ok [of "w\<lparr>wftl := set_requeue bs (wftl w)\<rparr>" b] by simp
qed

lemma set_requeue_twice [simp]: "set_requeue cs (set_requeue bs s) = set_requeue cs s"
  by (simp add: set_requeue_def)

lemma set_requeue_same [simp]: "set_requeue (requeue_wr_bios (ctl s)) s = s"
  by (simp add: set_requeue_def)

lemma step_ok:
  assumes "wstep w w'" "wsys_ok w"
  shows "wsys_ok w'"
  using assms
proof cases
  case (request b ended s')
  with request_ok [OF assms(2)] show ?thesis by fastforce
next
  case (submit r cs s')
  with submit_ok [OF assms(2)] show ?thesis by fastforce
next
  case (complete c wake s')
  with complete_ok [OF assms(2)] show ?thesis by fastforce
next
  case (retry b bs ret s' b')
  with retry_ok [OF assms(2) retry(2,3)] set_requeue_same [of "wftl w"] assms(2) show ?thesis
    by (auto simp: retry(2))
qed

lemma reach_ok: "wreach s w \<Longrightarrow> started s \<Longrightarrow> wsys_ok w"
  by (induction rule: wreach.induct) (auto intro: started_ok step_ok)

section \<open>Draining the cache\<close>

lemma cmds_drained:
  assumes "wsys_inv w E F p B I" "wcmds w = []"
  shows "I = []"
proof (rule ccontr)
  assume "I \<noteq> []"
  then obtain e where "e \<in> set I" by (cases I) auto
  from wsys_invD(7) [OF assms(1) this] assms(2) show False
    by (auto simp: in_flight_def split: if_splits)
qed

text \<open>The steps of the back end: submissions and completions.\<close>

inductive backstep :: "wsys \<Rightarrow> wsys \<Rightarrow> bool" where
  submit: "submit_write_backend (wftl w) = Some (r, cs, s') \<Longrightarrow>
    backstep w (w\<lparr>wftl := s', wcmds := wcmds w @ cs\<rparr>)"
| complete: "c \<in> set (wcmds w) \<Longrightarrow> wrppa_lun_completion (wftl w) c = Some (wake, s') \<Longrightarrow>
    backstep w (w\<lparr>wftl := s', wcmds := remove1 c (wcmds w), wnand := program c (wnand w)\<rparr>)"

lemma backstep_wstep: "backstep w w' \<Longrightarrow> wstep w w'"
  by (auto elim!: backstep.cases intro: wstep.submit wstep.complete)

lemma back_drain:
  assumes "wsys_inv w E F p B I"
  shows "\<exists>w' E'. backstep\<^sup>*\<^sup>* w w' \<and> wsys_inv w' E' [] p B [] \<and> wcmds w' = [] \<and> wmem w' = wmem w \<and>
    requeue_wr_bios (ctl (wftl w')) = requeue_wr_bios (ctl (wftl w))"
  using assms
proof (induction "9 * length F + length (wcmds w)" arbitrary: w E F I rule: less_induct)
  case less
  have go: ?case if "backstep w v" "wsys_inv v E' F' p B I'" "9 * length F' + length (wcmds v) < 9 * length F + length (wcmds w)"
      "wmem v = wmem w" "requeue_wr_bios (ctl (wftl v)) = requeue_wr_bios (ctl (wftl w))" for v E' F' I'
    using less(1) [OF that(3,2)] that(1,4,5) by (metis converse_rtranclp_into_rtranclp)
  show ?case
  proof (cases F)
    case (Cons e F')
    obtain cs s' where s': "submit_write_backend (wftl w) = Some (1, cs, s')" "length cs = 8"
        "requeue_wr_bios (ctl s') = requeue_wr_bios (ctl (wftl w))"
        "wsys_inv (w\<lparr>wftl := s', wcmds := wcmds w @ cs\<rparr>) E F' p B (I @ [e])"
      using submit_inv [OF less(2) [unfolded Cons]] by auto
    show ?thesis
      by (rule go [OF backstep.submit [OF s'(1)] s'(4)]) (use s' Cons in auto)
  next
    case Nil
    show ?thesis
    proof (cases "wcmds w")
      case Nil': Nil
      with Nil less(2) cmds_drained [OF less(2)] show ?thesis by blast
    next
      case (Cons c cs)
      then have c: "c \<in> set (wcmds w)" by simp
      obtain wake s' E' I' where s': "wrppa_lun_completion (wftl w) c = Some (wake, s')"
          "requeue_wr_bios (ctl s') = requeue_wr_bios (ctl (wftl w))"
          "wsys_inv (w\<lparr>wftl := s', wcmds := remove1 c (wcmds w), wnand := program c (wnand w)\<rparr>) E' F p B I'"
        using complete_inv [OF less(2) c] by blast
      show ?thesis
        by (rule go [OF backstep.complete [OF c s'(1)] s'(3)]) (use s' Cons in auto)
    qed
  qed
qed

lemma drain:
  assumes "wsys_inv w E F p B I"
  shows "\<exists>w' E'. wstep\<^sup>*\<^sup>* w w' \<and> wsys_inv w' E' [] p B [] \<and> wcmds w' = [] \<and> wmem w' = wmem w \<and>
    requeue_wr_bios (ctl (wftl w')) = requeue_wr_bios (ctl (wftl w))"
  using back_drain [OF assms] rtranclp_mono [of backstep wstep] backstep_wstep by blast

lemma not_resubmit:
  assumes "wp_inv s E F p B" "bio_ok b" "E \<noteq> []"
  shows "process_write_bio s b \<noteq> Some (FSCFTL_BIO_RESUBMIT, t, b')"
proof -
  have "wcb_available s (sint (get_bio_nppa b)) = Some True"
    using wcb_available_iff [OF assms(1), of "nppa b"] sint_nppa [OF assms(2)] assms(2,3) by (simp add: bio_ok_def)
  then show ?thesis
    by (auto simp: process_write_bio_def Let_def bind_eq_Some_conv)
qed

lemma pool_size:
  assumes "pool_rep (tbl, f) xs"
  shows "unat (fifo_size f) = length xs"
proof -
  have "distinct xs" "set xs \<subseteq> {..<CFG_NAND_BLOCK_NUM}"
    using assms by (auto simp: pool_rep_def bl.linked_def)
  then have "length xs \<le> CFG_NAND_BLOCK_NUM"
    using card_mono [of "{..<CFG_NAND_BLOCK_NUM}" "set xs"] by (simp add: distinct_card)
  then show ?thesis
    using assms by (simp add: pool_rep_def unsigned_of_nat take_bit_nat_eq_self)
qed

lemma pool_has_free: "B \<noteq> [] \<Longrightarrow> pool_rep (free_pool (sysm s)) B \<Longrightarrow> has_free s"
  using pool_size [of _ "free_blk_pool (statetbl (sysm s))" B] by (auto simp: has_free_def)

section \<open>The requeue thread\<close>

lemma resubmit_ok:
  assumes "wsys_inv w E F p B I" "length (requeue_wr_bios (ctl (wftl w))) \<le> length B"
  shows "\<exists>done s'. resubmit_wr_bios_list (wftl w) = Some (done, s') \<and>
    requeue_wr_bios (ctl (wftl w)) = done @ requeue_wr_bios (ctl s') \<and>
    wsys_ok (w\<lparr>wftl := s', wmem := fold ack done (wmem w)\<rparr>)"
  using assms
proof (induction "requeue_wr_bios (ctl (wftl w))" arbitrary: w E F p B)
  case Nil
  then show ?case
    by (auto simp: resubmit_wr_bios_list.simps [of "wftl w"] intro: wsys_okI)
next
  case (Cons b bs)
  have rq: "requeue_wr_bios (ctl (wftl w)) = b # bs" using Cons(2) by simp
  let ?s = "set_requeue bs (wftl w)"
  have inv: "wsys_inv (w\<lparr>wftl := ?s\<rparr>) E F p B I" and b: "bio_ok b"
    using inv_requeue [OF Cons(3), of bs] wsys_invD(10) [OF Cons(3)] rq by simp_all
  have "B \<noteq> []"
    using Cons(4) rq by auto
  then have f: "has_free ?s"
    using pool_has_free [of B ?s] wp_invD(10) [OF wsys_invD(1) [OF Cons(3)]] by simp
  from process_inv [OF inv b] f show ?case
  proof (simp, elim disjE exE conjE)
    assume "process_write_bio ?s b = Some (FSCFTL_BIO_RESUBMIT, ?s, b)"
    then have "resubmit_wr_bios_list (wftl w) = Some ([], wftl w)"
      using rq set_requeue_same [of "wftl w"] by (simp add: resubmit_wr_bios_list.simps [of "wftl w"])
    with Cons(3) show ?thesis
      by (auto intro: wsys_okI)
  next
    fix s' E' F' p' B'
    assume s': "process_write_bio ?s b = Some (FSCFTL_BIO_COMPLETE, s', bio_skip (nppa b) b)"
      "requeue_wr_bios (ctl s') = bs" "length B \<le> Suc (length B')"
      "wsys_inv (w\<lparr>wftl := s', wmem := ack b (wmem w)\<rparr>) E' F' p' B' I"
    obtain d t where d: "resubmit_wr_bios_list s' = Some (d, t)" "bs = d @ requeue_wr_bios (ctl t)"
        "wsys_ok (w\<lparr>wftl := t, wmem := fold ack d (ack b (wmem w))\<rparr>)"
      using Cons(1) [OF _ s'(4)] s'(2,3) rq Cons(4) by auto
    have "resubmit_wr_bios_list (wftl w) = Some (b # d, t)"
      using rq s'(1) d(1) by (simp add: resubmit_wr_bios_list.simps [of "wftl w"])
    with d(2,3) rq show ?thesis
      by (intro exI [of _ "b # d"] exI [of _ t]) simp
  qed
qed

section \<open>Properties\<close>

text \<open>The state of the examples: the drive of \<open>boot_ftl\<close>, with one request waiting.\<close>

definition waiting_ftl :: "ftl option" where
  "waiting_ftl = map_option (set_requeue [wbio]) boot_ftl"

lemma started_requeue: "started s \<Longrightarrow> \<forall>b \<in> set bs. bio_ok b \<Longrightarrow> started (set_requeue bs s)"
  by (simp add: started_def wcb_abs_def)

lemma has_free_requeue [simp]: "has_free (set_requeue bs s) = has_free s"
  by (simp add: has_free_def)

lemma boot_started: "\<exists>s. boot_ftl = Some s \<and> started s \<and> has_free s"
proof -
  obtain s where s: "boot_ftl = Some s" "wcb_abs s [2] ([1..<CB_ENTITYS_CNT], [], 0, 0)" "requeue_wr_bios (ctl s) = []"
      "outstanding_lun (ctl s) = 0" "baddr s 0 = set_blk (of_nat 1) 0"
    using boot_ok by blast
  have "unat (ppa_blk (baddr s 0)) = 1"
    unfolding s(5) using set_blk_base [of 1] by simp
  with s have "started s"
    unfolding started_def by (intro conjI exI [of _ "[2]"]) simp_all
  moreover have "has_free s"
    using s(2) by (simp add: wcb_abs_def wp_inv_def has_free_def pool_rep_def del: upt_Suc)
  ultimately show ?thesis
    using s(1) by blast
qed

lemma waiting_started:
  "\<exists>s. waiting_ftl = Some s \<and> started s \<and> has_free s \<and> requeue_wr_bios (ctl s) = [wbio]"
  using boot_started started_requeue [of _ "[wbio]"] wbio_eval(3) by (auto simp: waiting_ftl_def)

lemma boot_write: "\<exists>s w. boot_ftl = Some s \<and> started s \<and> wreach s w \<and> wmem w 5 = Some [1]"
proof -
  obtain s where s: "boot_ftl = Some s" "started s" "has_free s" "wcb_abs s [2] ([1..<CB_ENTITYS_CNT], [], 0, 0)"
      "requeue_wr_bios (ctl s) = []"
    using boot_started boot_ok by (metis option.inject)
  have "process_write_bio s wbio \<noteq> Some (FSCFTL_BIO_RESUBMIT, s, wbio)"
    by (rule not_resubmit [OF _ wbio_eval(3), of s "[1..<16]" "[]" 0 "[2]"]) (use s(4) in \<open>simp_all add: wcb_abs_def del: upt_Suc\<close>)
  then obtain s' b' where "process_write_bio s wbio = Some (FSCFTL_BIO_COMPLETE, s', b')"
    using process_ok [OF started_ok [OF s(2)] wbio_eval(3)] s(3) by (auto simp: winit_def)
  then have "fscftl_make_rq (wftl (winit s)) WRITE_DIR wbio = Some (True, s')"
    using s(5) by (simp add: fscftl_make_rq_def winit_def)
  from wreach.step [OF wreach.start wstep.request [OF wbio_eval(3) _ this]] s(3)
  have "wreach s (winit s\<lparr>wftl := s', wmem := ack wbio (wmem (winit s))\<rparr>)"
    by (simp add: winit_def)
  moreover have "ack wbio (wmem (winit s)) 5 = Some [1]"
    using wbio_eval(1,2,4) by (simp add: ack_def)
  ultimately show ?thesis
    using s(1,2) by (intro exI [of _ s] exI [of _ "winit s\<lparr>wftl := s', wmem := ack wbio (wmem (winit s))\<rparr>"]) simp
qed











text \<open>C11: The requeue thread ends. When there are at least as many free raid blocks as waiting
  requests, the loop of \<open>resubmit_wr_bios_list\<close> returns; the requests it completed followed by those
  still waiting are the old queue, so requests finish in the order they arrived, and the system is
  again in a state from which every acknowledged page can be had.\<close>

theorem resubmit_returns:
  assumes "started s" and "wreach s w"
    and "length (requeue_wr_bios (ctl (wftl w))) \<le> unat (fifo_size (free_blk_pool (statetbl (sysm (wftl w)))))"
  shows "\<exists>done s'. resubmit_wr_bios_list (wftl w) = Some (done, s') \<and>
    requeue_wr_bios (ctl (wftl w)) = done @ requeue_wr_bios (ctl s') \<and>
    wsys_ok (w\<lparr>wftl := s', wmem := fold ack done (wmem w)\<rparr>)"
proof -
  obtain E F p B I where inv: "wsys_inv w E F p B I"
    using reach_ok [OF assms(2,1)] by (rule wsys_okE)
  have "unat (fifo_size (free_blk_pool (statetbl (sysm (wftl w))))) = length B"
    using pool_size wp_invD(10) [OF wsys_invD(1) [OF inv]] by blast
  then show ?thesis
    using resubmit_ok [OF inv] assms(3) by simp
qed

theorem resubmit_returns_witness:
  "\<exists>s d s'. waiting_ftl = Some s \<and> resubmit_wr_bios_list s = Some (d, s') \<and> [wbio] = d @ requeue_wr_bios (ctl s')"
proof -
  obtain s where s: "waiting_ftl = Some s" "started s" "has_free s" "requeue_wr_bios (ctl s) = [wbio]"
    using waiting_started by blast
  have "0 < unat (fifo_size (free_blk_pool (statetbl (sysm s))))"
    using s(3) unat_gt_0 by (auto simp: has_free_def)
  then show ?thesis
    using resubmit_returns [OF s(2) wreach.start] s(1,4) by (fastforce simp: winit_def)
qed

end
