(* ===== verification/Ppa_Cmd.thy ===== *)
theory Ppa_Cmd
  imports Sys_Meta
begin

text \<open>
  Submission of physical-address commands: \<open>core.c\<close>, \<open>datapath/ppa-ops.c\<close>, the command
  structures of \<open>fscftl.h\<close> and the request descriptor \<open>nvm_rq\<close> of \<open>lightnvm.h\<close>.

  The kernel and the device are outside the sources. Their answers are arguments: the record \<open>kenv\<close>
  says which allocation succeeds, at which bus address a DMA page lies, what mapping a buffer
  returns and how the device answers a command. The state \<open>kst\<close> holds what is allocated. Releasing
  an object that is not allocated, and every access outside a DMA page, stops the machine.
\<close>

section \<open>Commands\<close>

record nvme_ppa_command =
  pc_opcode :: u8
  pc_nsid :: u32
  pc_metadata :: u64
  pc_ppalist :: u64
  pc_nlb :: u16
  pc_control :: u16
  pc_dsmgmt :: u32

definition ppa_command_zero :: nvme_ppa_command where
  "ppa_command_zero = \<lparr>pc_opcode = 0, pc_nsid = 0, pc_metadata = 0, pc_ppalist = 0, pc_nlb = 0,
     pc_control = 0, pc_dsmgmt = 0\<rparr>"

definition NVM_OP_WRPPA :: u8 where "NVM_OP_WRPPA = 0x91"
definition NVM_OP_RDPPA :: u8 where "NVM_OP_RDPPA = 0x92"
definition NVM_OP_ESPPA :: u8 where "NVM_OP_ESPPA = 0x90"
definition NVM_OP_WRRAW :: u8 where "NVM_OP_WRRAW = 0x95"
definition NVM_OP_RDRAW :: u8 where "NVM_OP_RDRAW = 0x96"
definition NVM_OP_ERASE :: u8 where "NVM_OP_ERASE = 0x90"

definition NVM_IO_SNGL_ACCESS :: u16 where "NVM_IO_SNGL_ACCESS = 0"
definition NVM_IO_DUAL_ACCESS :: u16 where "NVM_IO_DUAL_ACCESS = 1"
definition NVM_IO_QUAD_ACCESS :: u16 where "NVM_IO_QUAD_ACCESS = 2"
definition NVM_IO_SCRAMBLE_ENABLE :: u16 where "NVM_IO_SCRAMBLE_ENABLE = 0x200"

definition EFAULT :: int where "EFAULT = 14"
definition EINVAL :: int where "EINVAL = 22"
definition ENODEV :: int where "ENODEV = 19"
definition ENOTTY :: int where "ENOTTY = 25"

text \<open>Bios and requests, with the fields the sources set.\<close>

record blk_bio =
  bb_prio :: u16
  bb_size :: u32
  bb_has_data :: bool
  bb_segments :: u16

text \<open>\<open>ppa_addr\<close> and \<open>dma_ppa_list\<close> share one word of the descriptor.\<close>

record nvm_rq =
  rqd_bio :: "blk_bio option"
  rqd_ppa_addr :: u64
  rqd_ppa_list :: "nat option"
  rqd_dma_meta_list :: u64
  rqd_opcode :: u8
  rqd_nr_ppas :: u16
  rqd_flags :: u16
  rqd_ppa_status :: u64
  rqd_error :: int

definition nvm_rq_zero :: nvm_rq where
  "nvm_rq_zero = \<lparr>rqd_bio = None, rqd_ppa_addr = 0, rqd_ppa_list = None, rqd_dma_meta_list = 0, rqd_opcode = 0,
     rqd_nr_ppas = 0, rqd_flags = 0, rqd_ppa_status = 0, rqd_error = 0\<rparr>"

record request =
  rq_id :: nat
  rq_cmd :: nat
  rq_ioprio :: u16
  rq_data_len :: u32
  rq_nr_segs :: u16

section \<open>Kernel and device\<close>

datatype kres = KCmd nat | KPage nat | KReq nat | KMap nat | KBdev nat

record kenv =
  grant :: "nat \<Rightarrow> bool"
  ptr_err :: "nat \<Rightarrow> int"
  bus :: "nat \<Rightarrow> u64"
  map_kern :: "nat \<Rightarrow> int"
  device :: "nat \<Rightarrow> nvme_ppa_command \<Rightarrow> u64 list \<Rightarrow> int \<times> u64"

record kst =
  k_n :: nat
  k_live :: "kres list"
  k_page :: "nat \<Rightarrow> u64 list"
  k_sqes :: "(nvme_ppa_command \<times> u64 list) list"

text \<open>The next allocation: its outcome, and the object named by its serial number.\<close>

definition k_alloc :: "kenv \<Rightarrow> (nat \<Rightarrow> kres) \<Rightarrow> kst \<Rightarrow> nat option \<times> kst" where
  "k_alloc env C k = (let n = k_n k; k = k\<lparr>k_n := Suc n\<rparr> in
     if grant env n then (Some n, k\<lparr>k_live := C n # k_live k\<rparr>) else (None, k))"

definition k_free :: "kres \<Rightarrow> kst \<Rightarrow> kst option" where
  "k_free r k = do {
     guard (r \<in> set (k_live k));
     Some (k\<lparr>k_live := remove1 r (k_live k)\<rparr>)
   }"

text \<open>
  The addresses a command names, as the device reads them: the word itself for a single address,
  otherwise the words of the DMA page at that bus address.
\<close>

definition page_at :: "kenv \<Rightarrow> kst \<Rightarrow> u64 \<Rightarrow> u64 list option" where
  "page_at env k a = map_option (\<lambda>r. case r of KPage n \<Rightarrow> k_page k n | _ \<Rightarrow> [])
     (find (\<lambda>r. case r of KPage n \<Rightarrow> bus env n = a | _ \<Rightarrow> False) (k_live k))"

definition sqe_ppas :: "kenv \<Rightarrow> kst \<Rightarrow> nvme_ppa_command \<Rightarrow> u64 list" where
  "sqe_ppas env k c = (if pc_nlb c = 0 then [pc_ppalist c]
     else case page_at env k (pc_ppalist c) of
       None \<Rightarrow> []
     | Some pg \<Rightarrow> take (unat (pc_nlb c) + 1) pg)"

definition k_execute :: "kenv \<Rightarrow> nvme_ppa_command \<Rightarrow> kst \<Rightarrow> (int \<times> u64) \<times> kst" where
  "k_execute env c k = (let ppas = sqe_ppas env k c in
     (device env (length (k_sqes k)) c ppas, k\<lparr>k_sqes := k_sqes k @ [(c, ppas)]\<rparr>))"

section \<open>DMA pages\<close>

text \<open>\<open>memset\<close> runs before any test of the pointer: a failed allocation stops the machine.\<close>

definition PAGE_WORDS :: nat where [simp]: "PAGE_WORDS = 512"

definition dma_pool_page_zalloc :: "kenv \<Rightarrow> kst \<Rightarrow> (nat option \<times> kst) option" where
  "dma_pool_page_zalloc env k = (case k_alloc env KPage k of
     (None, k) \<Rightarrow> None
   | (Some n, k) \<Rightarrow> Some (Some n, k\<lparr>k_page := (k_page k)(n := replicate PAGE_WORDS 0)\<rparr>))"

definition dma_pool_page_free :: "nat \<Rightarrow> kst \<Rightarrow> kst option" where
  "dma_pool_page_free n k = k_free (KPage n) k"

definition k_write :: "nat \<Rightarrow> nat \<Rightarrow> u64 \<Rightarrow> kst \<Rightarrow> kst option" where
  "k_write n i v k = do {
     pg \<leftarrow> aset (k_page k n) i v;
     Some (k\<lparr>k_page := (k_page k)(n := pg)\<rparr>)
   }"

fun copy_ppas :: "nat \<Rightarrow> u64 list \<Rightarrow> nat list \<Rightarrow> kst \<Rightarrow> kst option" where
  "copy_ppas n ppas [] k = Some k"
| "copy_ppas n ppas (i # is) k = do {
     p \<leftarrow> aget ppas i;
     k \<leftarrow> k_write n i p k;
     copy_ppas n ppas is k
   }"

section \<open>The LightNVM way\<close>

definition set_rqd_nand_ppalist :: "kenv \<Rightarrow> nvm_rq \<Rightarrow> u64 list \<Rightarrow> nat \<Rightarrow> kst \<Rightarrow> (int \<times> nvm_rq \<times> kst) option" where
  "set_rqd_nand_ppalist env rqd ppas nr_ppas k = (let rqd = rqd\<lparr>rqd_nr_ppas := of_nat nr_ppas\<rparr> in
     if nr_ppas = 1 then do {
       p \<leftarrow> aget ppas 0;
       Some (0, rqd\<lparr>rqd_ppa_addr := p\<rparr>, k)
     } else do {
       (ptr, k) \<leftarrow> dma_pool_page_zalloc env k;
       (case ptr of
          None \<Rightarrow> Some (- ENOMEM, rqd\<lparr>rqd_ppa_list := None\<rparr>, k)
        | Some n \<Rightarrow> do {
            k \<leftarrow> copy_ppas n ppas [0..<nr_ppas] k;
            Some (0, rqd\<lparr>rqd_ppa_list := Some n, rqd_ppa_addr := bus env n\<rparr>, k)
          })
     })"

definition free_rqd_nand_ppalist :: "nvm_rq \<Rightarrow> kst \<Rightarrow> kst option" where
  "free_rqd_nand_ppalist rqd k = (case rqd_ppa_list rqd of None \<Rightarrow> Some k | Some n \<Rightarrow> dma_pool_page_free n k)"

definition nvm_rqd_to_ppacmd :: "nvm_rq \<Rightarrow> u32 \<Rightarrow> nvme_ppa_command \<Rightarrow> nvme_ppa_command" where
  "nvm_rqd_to_ppacmd rqd inst c =
     c\<lparr>pc_opcode := rqd_opcode rqd, pc_nsid := inst, pc_ppalist := rqd_ppa_addr rqd,
       pc_metadata := rqd_dma_meta_list rqd, pc_control := rqd_flags rqd, pc_nlb := rqd_nr_ppas rqd - 1\<rparr>"

definition IOPRIO_BE_NORM :: u16 where "IOPRIO_BE_NORM = push_bit 13 2 OR 4"

text \<open>
  \<open>nvm_submit_ppa\<close> hands the request to the block layer and returns. The result carries the request
  and what its completion will be called with; the caller of \<open>nvm_ppa_end_io\<close> is the block layer.
\<close>

definition nvm_submit_ppa ::
    "kenv \<Rightarrow> u32 \<Rightarrow> nvm_rq \<Rightarrow> kst \<Rightarrow> (int \<times> (request \<times> int \<times> u64) option \<times> kst) option" where
  "nvm_submit_ppa env inst rqd k = (case k_alloc env KCmd k of
     (None, k) \<Rightarrow> Some (- ENOMEM, None, k)
   | (Some cmd, k) \<Rightarrow> (case k_alloc env KReq k of
       (None, k) \<Rightarrow> do {
         k \<leftarrow> k_free (KCmd cmd) k;
         Some (- ENOMEM, None, k)
       }
     | (Some req, k) \<Rightarrow>
       (let rq = (case rqd_bio rqd of
             Some b \<Rightarrow> \<lparr>rq_id = req, rq_cmd = cmd, rq_ioprio = bb_prio b, rq_data_len = bb_size b,
               rq_nr_segs = (if bb_has_data b then bb_segments b else 0)\<rparr>
           | None \<Rightarrow> \<lparr>rq_id = req, rq_cmd = cmd, rq_ioprio = IOPRIO_BE_NORM, rq_data_len = 0, rq_nr_segs = 0\<rparr>);
            c = nvm_rqd_to_ppacmd rqd inst ppa_command_zero;
            ((error, result), k) = k_execute env c k
        in Some (0, Some (rq, error, result), k))))"

definition nvm_ppa_end_io :: "request \<Rightarrow> int \<Rightarrow> u64 \<Rightarrow> nvm_rq \<Rightarrow> kst \<Rightarrow> (nvm_rq \<times> kst) option" where
  "nvm_ppa_end_io rq error result rqd k = do {
     let rqd = rqd\<lparr>rqd_ppa_status := result, rqd_error := error\<rparr>;
     k \<leftarrow> k_free (KCmd (rq_cmd rq)) k;
     k \<leftarrow> k_free (KReq (rq_id rq)) k;
     Some (rqd, k)
   }"

text \<open>The caller waits for the completion; its result is the descriptor the callback filled.\<close>

definition nvm_ersppa_sync :: "kenv \<Rightarrow> u32 \<Rightarrow> u64 list \<Rightarrow> nat \<Rightarrow> kst \<Rightarrow> (int \<times> nvm_rq \<times> kst) option" where
  "nvm_ersppa_sync env inst ppas nr_ppas k = do {
     let rqd = nvm_rq_zero\<lparr>rqd_opcode := NVM_OP_ERASE, rqd_flags := NVM_IO_SNGL_ACCESS\<rparr>;
     (ret, rqd, k) \<leftarrow> set_rqd_nand_ppalist env rqd ppas nr_ppas k;
     if ret \<noteq> 0 then Some (ret, rqd, k)
     else do {
       (ret, pending, k) \<leftarrow> nvm_submit_ppa env inst rqd k;
       (rqd, k) \<leftarrow> (case pending of
           None \<Rightarrow> Some (rqd, k)
         | Some (rq, error, result) \<Rightarrow> nvm_ppa_end_io rq error result rqd k);
       k \<leftarrow> free_rqd_nand_ppalist rqd k;
       Some (ret, rqd, k)
     }
   }"

section \<open>The NVMe way\<close>

text \<open>
  \<open>__nvme_submit_ppa_cmd\<close>. Its caller owns the command; on success the request stays allocated until
  the completion callback frees it. The result carries the request and the completion's arguments.
\<close>

definition nvme_submit_ppa_cmd_core ::
    "kenv \<Rightarrow> nvme_ppa_command \<Rightarrow> bool \<Rightarrow> nat \<Rightarrow> kst \<Rightarrow> (int \<times> (nat \<times> int \<times> u64) option \<times> kst) option" where
  "nvme_submit_ppa_cmd_core env c buffer bufflen k = (let n = k_n k in case k_alloc env KReq k of
     (None, k) \<Rightarrow> Some (ptr_err env n, None, k)
   | (Some req, k) \<Rightarrow> (let ret = (if buffer \<and> bufflen \<noteq> 0 then map_kern env n else 0) in
       if ret \<noteq> 0 then do {
         k \<leftarrow> k_free (KReq req) k;
         Some (ret, None, k)
       } else (let ((error, result), k) = k_execute env c k in Some (0, Some (req, error, result), k))))"

definition nvme_submit_ppa_cmd ::
    "kenv \<Rightarrow> nvme_ppa_command \<Rightarrow> bool \<Rightarrow> nat \<Rightarrow> kst \<Rightarrow> (int \<times> (nat \<times> int \<times> u64) option \<times> kst) option" where
  "nvme_submit_ppa_cmd env c buffer bufflen k = nvme_submit_ppa_cmd_core env c buffer bufflen k"

definition nvme_submit_ppa_cmd_sync :: "kenv \<Rightarrow> nvme_ppa_command \<Rightarrow> bool \<Rightarrow> nat \<Rightarrow> kst \<Rightarrow> (int \<times> kst) option" where
  "nvme_submit_ppa_cmd_sync env c buffer bufflen k = (let n = k_n k in case k_alloc env KReq k of
     (None, k) \<Rightarrow> Some (ptr_err env n, k)
   | (Some req, k) \<Rightarrow> (let ret = (if buffer \<and> bufflen \<noteq> 0 then map_kern env n else 0);
       (ret, k) = (if ret \<noteq> 0 then (ret, k)
         else (let ((error, _), k) = k_execute env c k in (error, k)))
     in do {
       k \<leftarrow> k_free (KReq req) k;
       Some (ret, k)
     }))"

text \<open>
  \<open>nvme_submit_sync_cmd\<close> of the NVMe host driver (\<open>nvme/host/core.c\<close>): \<open>blk_execute_rq\<close> waits for the
  command; the result word is stored when the caller asks for it.
\<close>

definition nvme_submit_sync_cmd_core ::
    "kenv \<Rightarrow> nvme_ppa_command \<Rightarrow> bool \<Rightarrow> bool \<Rightarrow> nat \<Rightarrow> kst \<Rightarrow> (int \<times> u64 option \<times> kst) option" where
  "nvme_submit_sync_cmd_core env c want_result buffer bufflen k = (let n = k_n k in case k_alloc env KReq k of
     (None, k) \<Rightarrow> Some (ptr_err env n, None, k)
   | (Some req, k) \<Rightarrow> (let ret = (if buffer \<and> bufflen \<noteq> 0 then map_kern env n else 0);
       (ret, res, k) = (if ret \<noteq> 0 then (ret, None, k)
         else (let ((error, result), k) = k_execute env c k in (error, if want_result then Some result else None, k)))
     in do {
       k \<leftarrow> k_free (KReq req) k;
       Some (ret, res, k)
     }))"

definition nvme_submit_sync_cmd :: "kenv \<Rightarrow> nvme_ppa_command \<Rightarrow> bool \<Rightarrow> nat \<Rightarrow> kst \<Rightarrow> (int \<times> kst) option" where
  "nvme_submit_sync_cmd env c buffer bufflen k = do {
     (ret, _, k) \<leftarrow> nvme_submit_sync_cmd_core env c False buffer bufflen k;
     Some (ret, k)
   }"

text \<open>
  \<open>nvm_rdpparaw_sync\<close>. \<open>dma_meta\<close> is the bus address of the caller's metadata buffer; the status of
  the command is dropped.
\<close>

definition nvm_rdpparaw_sync ::
    "kenv \<Rightarrow> u32 \<Rightarrow> geo_ppa list \<Rightarrow> nat \<Rightarrow> u16 \<Rightarrow> u64 \<Rightarrow> kst \<Rightarrow> (int \<times> kst) option" where
  "nvm_rdpparaw_sync env nsid ppa nr_ppas ctrl dma_meta k = do {
     (lst, ptr, k) \<leftarrow> (if nr_ppas = 1 then do {
         p \<leftarrow> aget ppa 0;
         Some (ucast p, None, k)
       } else do {
         (ptr, k) \<leftarrow> dma_pool_page_zalloc env k;
         n \<leftarrow> ptr;
         k \<leftarrow> copy_ppas n (map ucast ppa) [0..<nr_ppas] k;
         Some (bus env n, Some n, k)
       });
     let c = ppa_command_zero\<lparr>pc_ppalist := lst, pc_opcode := NVM_OP_RDRAW, pc_nsid := nsid,
       pc_metadata := dma_meta, pc_nlb := of_nat nr_ppas - 1, pc_control := ctrl\<rparr>;
     (_, k) \<leftarrow> nvme_submit_sync_cmd env c True (nr_ppas * CFG_NAND_EP_SIZE) k;
     k \<leftarrow> (case ptr of
         None \<Rightarrow> Some k
       | Some n \<Rightarrow> if nr_ppas > 1 then dma_pool_page_free n k else Some k);
     Some (0, k)
   }"

section \<open>Laws of the kernel state\<close>

fun kres_id :: "kres \<Rightarrow> nat" where
  "kres_id (KCmd n) = n"
| "kres_id (KPage n) = n"
| "kres_id (KReq n) = n"
| "kres_id (KMap n) = n"
| "kres_id (KBdev n) = n"

text \<open>Serial numbers of live objects lie below the next one.\<close>

definition k_ok :: "kst \<Rightarrow> bool" where
  "k_ok k \<longleftrightarrow> (\<forall>r \<in> set (k_live k). kres_id r < k_n k)"

lemma k_fresh: "k_ok k \<Longrightarrow> k_n k \<le> kres_id r \<Longrightarrow> r \<notin> set (k_live k)"
  by (auto simp: k_ok_def)

lemma k_alloc_simps [simp]:
  "grant env (k_n k) \<Longrightarrow> k_alloc env C k = (Some (k_n k), k\<lparr>k_n := Suc (k_n k), k_live := C (k_n k) # k_live k\<rparr>)"
  "\<not> grant env (k_n k) \<Longrightarrow> k_alloc env C k = (None, k\<lparr>k_n := Suc (k_n k)\<rparr>)"
  by (simp_all add: k_alloc_def Let_def)

lemma k_free_in [simp]: "r \<in> set (k_live k) \<Longrightarrow> k_free r k = Some (k\<lparr>k_live := remove1 r (k_live k)\<rparr>)"
  by (simp add: k_free_def)

lemma k_execute_eq [simp]:
  "k_execute env c k = (device env (length (k_sqes k)) c (sqe_ppas env k c), k\<lparr>k_sqes := k_sqes k @ [(c, sqe_ppas env k c)]\<rparr>)"
  by (simp add: k_execute_def Let_def)

lemma zalloc_simps [simp]:
  "grant env (k_n k) \<Longrightarrow> dma_pool_page_zalloc env k = Some (Some (k_n k),
     k\<lparr>k_n := Suc (k_n k), k_live := KPage (k_n k) # k_live k, k_page := (k_page k)(k_n k := replicate PAGE_WORDS 0)\<rparr>)"
  "\<not> grant env (k_n k) \<Longrightarrow> dma_pool_page_zalloc env k = None"
  by (simp_all add: dma_pool_page_zalloc_def)

text \<open>The copy loop fills the front of the page, and stops the machine beyond its end.\<close>

lemma copy_ppas_from:
  assumes "i \<le> m" "m \<le> length ppas" "m \<le> length (k_page k n)"
  shows "copy_ppas n ppas [i..<m] k = Some (k\<lparr>k_page := (k_page k)(n := take i (k_page k n) @ drop i (take m ppas) @ drop m (k_page k n))\<rparr>)"
  using assms
proof (induction "m - i" arbitrary: i k)
  case 0
  then show ?case by simp
next
  case (Suc d)
  then have i: "i < m" by simp
  let ?pg = "(k_page k n)[i := ppas ! i]"
  let ?k = "k\<lparr>k_page := (k_page k)(n := ?pg)\<rparr>"
  have "copy_ppas n ppas [Suc i..<m] ?k =
      Some (?k\<lparr>k_page := (k_page ?k)(n := take (Suc i) (k_page ?k n) @ drop (Suc i) (take m ppas) @ drop m (k_page ?k n))\<rparr>)"
    by (rule Suc(1)) (use Suc(2-5) in auto)
  moreover have "take (Suc i) ?pg @ drop (Suc i) (take m ppas) = take i (k_page k n) @ drop i (take m ppas)"
    using i Suc(4,5) Cons_nth_drop_Suc [of i "take m ppas"] by (simp add: take_Suc_conv_app_nth)
  ultimately show ?case
    using i Suc(4,5) by (simp add: upt_conv_Cons k_write_def drop_update_cancel flip: append_assoc)
qed

lemma copy_ppas_ok:
  "m \<le> length ppas \<Longrightarrow> m \<le> length (k_page k n) \<Longrightarrow>
   copy_ppas n ppas [0..<m] k = Some (k\<lparr>k_page := (k_page k)(n := take m ppas @ drop m (k_page k n))\<rparr>)"
  using copy_ppas_from [of 0 m ppas k n] by simp

lemma nlb_of_nat: "0 < m \<Longrightarrow> m \<le> PAGE_WORDS \<Longrightarrow> unat (of_nat m - 1 :: u16) = m - 1"
  by (simp add: unat_pred unsigned_of_nat take_bit_nat_eq_self word_unat_eq_iff)

lemma nlb_zero: "0 < m \<Longrightarrow> m \<le> PAGE_WORDS \<Longrightarrow> (of_nat m - 1 :: u16) = 0 \<longleftrightarrow> m = 1"
  using nlb_of_nat [of m] by (auto simp: word_unat_eq_iff)

text \<open>What the device finds for a command whose address list the driver prepared.\<close>

lemma sqe_single: "pc_nlb c = 0 \<Longrightarrow> sqe_ppas env k c = [pc_ppalist c]"
  by (simp add: sqe_ppas_def)

lemma sqe_many:
  assumes "pc_nlb c = of_nat m - 1" "1 < m" "m \<le> PAGE_WORDS" "page_at env k (pc_ppalist c) = Some (take m ppas @ pg)" "m \<le> length ppas"
  shows "sqe_ppas env k c = take m ppas"
  using assms nlb_of_nat [of m] nlb_zero [of m] by (simp add: sqe_ppas_def)

text \<open>Submission followed by the completion callback, as the synchronous callers see it.\<close>

definition submit_and_end :: "kenv \<Rightarrow> u32 \<Rightarrow> nvm_rq \<Rightarrow> kst \<Rightarrow> (int \<times> nvm_rq \<times> kst) option" where
  "submit_and_end env inst rqd k = do {
     (ret, pending, k) \<leftarrow> nvm_submit_ppa env inst rqd k;
     (rqd, k) \<leftarrow> (case pending of
         None \<Rightarrow> Some (rqd, k)
       | Some (rq, error, result) \<Rightarrow> nvm_ppa_end_io rq error result rqd k);
     Some (ret, rqd, k)
   }"

lemma submit_and_end_cases:
  fixes env :: kenv and inst :: u32
  assumes "k_ok k" "rqd_bio rqd = None"
  defines "n \<equiv> k_n k" and "c \<equiv> nvm_rqd_to_ppacmd rqd inst ppa_command_zero"
  defines "k2 \<equiv> k\<lparr>k_n := Suc (Suc n), k_live := KReq (Suc n) # KCmd n # k_live k\<rparr>"
  defines "r \<equiv> device env (length (k_sqes k)) c (sqe_ppas env k2 c)"
  shows "submit_and_end env inst rqd k = (if \<not> grant env n then Some (- ENOMEM, rqd, k\<lparr>k_n := Suc n\<rparr>)
    else if \<not> grant env (Suc n) then Some (- ENOMEM, rqd, k\<lparr>k_n := Suc (Suc n)\<rparr>)
    else Some (0, rqd\<lparr>rqd_ppa_status := snd r, rqd_error := fst r\<rparr>,
      k\<lparr>k_n := Suc (Suc n), k_sqes := k_sqes k @ [(c, sqe_ppas env k2 c)]\<rparr>))"
  using assms(2) k_fresh [OF assms(1), of "KCmd n"]
  by (auto simp: submit_and_end_def nvm_submit_ppa_def nvm_ppa_end_io_def Let_def n_def c_def k2_def r_def split: prod.splits)

lemma erase_by_parts:
  "nvm_ersppa_sync env inst ppas nr_ppas k = do {
     (ret, rqd, k) \<leftarrow> set_rqd_nand_ppalist env (nvm_rq_zero\<lparr>rqd_opcode := NVM_OP_ERASE, rqd_flags := NVM_IO_SNGL_ACCESS\<rparr>) ppas nr_ppas k;
     if ret \<noteq> 0 then Some (ret, rqd, k)
     else do {
       (ret, rqd, k) \<leftarrow> submit_and_end env inst rqd k;
       k \<leftarrow> free_rqd_nand_ppalist rqd k;
       Some (ret, rqd, k)
     }
   }"
  by (simp add: nvm_ersppa_sync_def submit_and_end_def Let_def case_prod_unfold cong: bind_option_cong if_cong)

section \<open>Properties\<close>

text \<open>C24: Synchronous erase. For 1 to 512 addresses, \<open>nvm_ersppa_sync\<close> either executes exactly one
  erase command, for exactly the given addresses, and returns 0 with the device's status in the
  descriptor, or, when the command or the request cannot be allocated, returns \<open>-ENOMEM\<close> and executes
  nothing. In both cases everything it allocated is released, each object once.\<close>

theorem erase_sync:
  assumes "k_ok k" and "1 \<le> nr" and "nr \<le> PAGE_WORDS" and "nr \<le> length ppas"
    and "nr = 1 \<or> grant env (k_n k)"
  defines "m \<equiv> (if nr = 1 then k_n k else Suc (k_n k))"
  shows "\<exists>ret rqd k'. nvm_ersppa_sync env inst ppas nr k = Some (ret, rqd, k') \<and> k_live k' = k_live k \<and>
    (if grant env m \<and> grant env (Suc m)
     then ret = 0 \<and> (\<exists>c. k_sqes k' = k_sqes k @ [(c, take nr ppas)] \<and> pc_opcode c = NVM_OP_ERASE \<and>
       pc_nlb c = of_nat nr - 1 \<and> rqd_error rqd = fst (device env (length (k_sqes k)) c (take nr ppas)))
     else ret = - ENOMEM \<and> k_sqes k' = k_sqes k)"
proof (cases "nr = 1")
  case True
  let ?rqd = "nvm_rq_zero\<lparr>rqd_opcode := NVM_OP_ERASE, rqd_flags := NVM_IO_SNGL_ACCESS, rqd_nr_ppas := 1, rqd_ppa_addr := ppas ! 0\<rparr>"
  have set: "set_rqd_nand_ppalist env (nvm_rq_zero\<lparr>rqd_opcode := NVM_OP_ERASE, rqd_flags := NVM_IO_SNGL_ACCESS\<rparr>) ppas nr k
      = Some (0, ?rqd, k)"
    using True assms(4) by (cases ppas) (simp_all add: set_rqd_nand_ppalist_def Let_def)
  have t1: "take 1 ppas = [ppas ! 0]"
    using assms(4) True by (cases ppas) simp_all
  let ?c = "nvm_rqd_to_ppacmd ?rqd inst ppa_command_zero"
  have c: "pc_opcode ?c = NVM_OP_ERASE" "pc_nlb ?c = 0" "pc_ppalist ?c = ppas ! 0" "rqd_bio ?rqd = None" "rqd_ppa_list ?rqd = None"
    by (simp_all add: nvm_rqd_to_ppacmd_def nvm_rq_zero_def)
  show ?thesis
    using True t1 c sqe_single [OF c(2)] unfolding erase_by_parts set
    by (auto simp: submit_and_end_cases [OF assms(1) c(4)] free_rqd_nand_ppalist_def m_def)
next
  case False
  then have nr: "1 < nr" "nr \<noteq> 1" "grant env (k_n k)" and m: "m = Suc (k_n k)"
    using assms(2,5) by (simp_all add: m_def)
  define z :: "u64 list" where "z = drop nr (replicate PAGE_WORDS 0)"
  let ?pg = "take nr ppas @ z"
  let ?k = "k\<lparr>k_n := Suc (k_n k), k_live := KPage (k_n k) # k_live k, k_page := (k_page k)(k_n k := ?pg)\<rparr>"
  let ?rqd = "nvm_rq_zero\<lparr>rqd_opcode := NVM_OP_ERASE, rqd_flags := NVM_IO_SNGL_ACCESS, rqd_nr_ppas := of_nat nr,
    rqd_ppa_list := Some (k_n k), rqd_ppa_addr := bus env (k_n k)\<rparr>"
  have set: "set_rqd_nand_ppalist env (nvm_rq_zero\<lparr>rqd_opcode := NVM_OP_ERASE, rqd_flags := NVM_IO_SNGL_ACCESS\<rparr>) ppas nr k
      = Some (0, ?rqd, ?k)"
    using nr assms(3,4) copy_ppas_ok by (simp add: set_rqd_nand_ppalist_def Let_def z_def)
  let ?c = "nvm_rqd_to_ppacmd ?rqd inst ppa_command_zero"
  have c: "pc_opcode ?c = NVM_OP_ERASE" "pc_nlb ?c = of_nat nr - 1" "pc_ppalist ?c = bus env (k_n k)"
      "rqd_bio ?rqd = None" "rqd_ppa_list ?rqd = Some (k_n k)"
    by (simp_all add: nvm_rqd_to_ppacmd_def nvm_rq_zero_def)
  have sq: "sqe_ppas env (?k\<lparr>k_n := j, k_live := KReq i # KCmd h # k_live ?k\<rparr>) ?c = take nr ppas" for i j h
    by (rule sqe_many [OF c(2) nr(1) assms(3) _ assms(4), of _ _ z])
      (simp add: c(3) page_at_def)
  have ok: "k_ok ?k"
    using assms(1) by (auto simp: k_ok_def less_Suc_eq)
  note io = submit_and_end_cases [OF ok c(4), of env inst, unfolded sq]
  show ?thesis
    unfolding erase_by_parts set using c nr m
    by (auto simp: io free_rqd_nand_ppalist_def dma_pool_page_free_def)
qed

text \<open>A kernel that grants everything and a device that reports success, for the examples.\<close>

definition demo_env :: kenv where
  "demo_env = \<lparr>grant = (\<lambda>_. True), ptr_err = (\<lambda>_. - ENOMEM), bus = (\<lambda>n. of_nat (4096 * n)), map_kern = (\<lambda>_. 0),
     device = (\<lambda>_ _ _. (0, 0))\<rparr>"

definition demo_kst :: kst where
  "demo_kst = \<lparr>k_n = 0, k_live = [], k_page = (\<lambda>_. []), k_sqes = []\<rparr>"

lemma demo_ok: "k_ok demo_kst" "k_n demo_kst = 0" "k_live demo_kst = []" "k_sqes demo_kst = []" "grant demo_env n"
    "device demo_env n c ps = (0, 0)" "map_kern demo_env n = 0"
  by (simp_all add: demo_kst_def demo_env_def k_ok_def)

theorem erase_sync_witness:
  "\<exists>rqd k' c. nvm_ersppa_sync demo_env 1 [7, 8, 9] 3 demo_kst = Some (0, rqd, k') \<and> k_live k' = [] \<and>
     k_sqes k' = [(c, [7, 8, 9])] \<and> pc_opcode c = NVM_OP_ERASE \<and> rqd_error rqd = 0"
  using erase_sync [OF demo_ok(1), of 3 "[7, 8, 9]" demo_env 1] by (auto simp: demo_ok)

lemma sync_cmd_cases:
  assumes "k_ok k"
  defines "n \<equiv> k_n k" and "k1 \<equiv> k\<lparr>k_n := Suc (k_n k), k_live := KReq (k_n k) # k_live k\<rparr>"
  shows "nvme_submit_ppa_cmd_sync env c buffer len k = (
    if \<not> grant env n then Some (ptr_err env n, k\<lparr>k_n := Suc n\<rparr>)
    else if buffer \<and> len \<noteq> 0 \<and> map_kern env n \<noteq> 0 then Some (map_kern env n, k\<lparr>k_n := Suc n\<rparr>)
    else Some (fst (device env (length (k_sqes k)) c (sqe_ppas env k1 c)),
      k\<lparr>k_n := Suc n, k_sqes := k_sqes k @ [(c, sqe_ppas env k1 c)]\<rparr>))"
  by (auto simp: nvme_submit_ppa_cmd_sync_def Let_def n_def k1_def split: prod.splits)

lemma sync_cmd_same: "nvme_submit_sync_cmd env c buffer len k = nvme_submit_ppa_cmd_sync env c buffer len k"
  by (cases "grant env (k_n k)")
    (auto simp: nvme_submit_sync_cmd_def nvme_submit_sync_cmd_core_def nvme_submit_ppa_cmd_sync_def Let_def
      split: prod.splits)



text \<open>C32: Raw reads. For 1 to 512 addresses \<open>nvm_rdpparaw_sync\<close> releases what it allocated and the
  command names exactly the given addresses; but it returns 0 even when the request failed, and for
  no address at all it leaves its DMA page allocated and asks the device for 65536 sectors.\<close>

theorem rdraw_sync:
  assumes "k_ok k" and "nr \<le> PAGE_WORDS" and "nr \<le> length ppas" and "nr = 1 \<or> grant env (k_n k)"
  defines "m \<equiv> (if nr = 1 then k_n k else Suc (k_n k))"
  shows "\<exists>k'. nvm_rdpparaw_sync env nsid ppas nr ctrl meta k = Some (0, k') \<and>
    k_live k' = (if nr = 0 then KPage (k_n k) # k_live k else k_live k) \<and>
    (if grant env m \<and> (nr = 0 \<or> map_kern env m = 0)
     then \<exists>c ps. k_sqes k' = k_sqes k @ [(c, ps)] \<and> pc_opcode c = NVM_OP_RDRAW \<and>
       (if nr = 0 then pc_nlb c = 0xffff else ps = map ucast (take nr ppas))
     else k_sqes k' = k_sqes k)"
proof (cases "nr = 1")
  case True
  let ?c = "ppa_command_zero\<lparr>pc_ppalist := ucast (ppas ! 0), pc_opcode := NVM_OP_RDRAW, pc_nsid := nsid,
       pc_metadata := meta, pc_nlb := 0, pc_control := ctrl\<rparr>"
  have t1: "take 1 ppas = [ppas ! 0]" "aget ppas 0 = Some (ppas ! 0)"
    using assms(3) True by (cases ppas; simp)+
  show ?thesis
    using True t1 sqe_single [of ?c env]
    by (auto simp: nvm_rdpparaw_sync_def sync_cmd_same sync_cmd_cases [OF assms(1)] m_def Let_def)
next
  case False
  then have g: "grant env (k_n k)" and m: "m = Suc (k_n k)"
    using assms(4) by (simp_all add: m_def)
  define z :: "u64 list" where "z = drop nr (replicate PAGE_WORDS 0)"
  define ps :: "u64 list" where "ps = map ucast ppas"
  have ps: "map ucast (take nr ppas) = take nr ps" "length ps = length ppas"
    by (simp_all add: ps_def take_map)
  let ?k = "k\<lparr>k_n := Suc (k_n k), k_live := KPage (k_n k) # k_live k, k_page := (k_page k)(k_n k := take nr ps @ z)\<rparr>"
  let ?c = "ppa_command_zero\<lparr>pc_ppalist := bus env (k_n k), pc_opcode := NVM_OP_RDRAW, pc_nsid := nsid,
       pc_metadata := meta, pc_nlb := of_nat nr - 1, pc_control := ctrl\<rparr>"
  have cp: "copy_ppas (k_n k) ps [0..<nr] (k\<lparr>k_n := Suc (k_n k), k_live := KPage (k_n k) # k_live k,
      k_page := (k_page k)(k_n k := replicate PAGE_WORDS 0)\<rparr>) = Some ?k"
    using assms(2,3) copy_ppas_ok by (simp add: z_def ps(2))
  have ok: "k_ok (k\<lparr>k_n := Suc (k_n k), k_live := KPage (k_n k) # k_live k, k_page := f\<rparr>)" for f
    using assms(1) by (auto simp: k_ok_def less_Suc_eq)
  have sq: "sqe_ppas env (?k\<lparr>k_n := j, k_live := KReq i # k_live ?k\<rparr>) ?c = take nr ps" if "1 < nr" for i j
    by (rule sqe_many [OF _ that assms(2), of _ _ _ _ z]) (use assms(3) in \<open>simp_all add: page_at_def ps(2)\<close>)
  have "nvm_rdpparaw_sync env nsid ppas nr ctrl meta k = do {
      (_, k') \<leftarrow> nvme_submit_ppa_cmd_sync env ?c True (nr * CFG_NAND_EP_SIZE) ?k;
      k' \<leftarrow> (if nr > 1 then dma_pool_page_free (k_n k) k' else Some k');
      Some (0, k')
    }"
    using False g cp by (simp add: nvm_rdpparaw_sync_def sync_cmd_same flip: ps_def)
  then show ?thesis
    using False m sq [of "k_n ?k" "Suc (k_n ?k)"]
    by (cases "nr = 0") (auto simp: sync_cmd_cases [OF ok] dma_pool_page_free_def ps)
qed

theorem rdraw_sync_witness:
  "(\<exists>k'. nvm_rdpparaw_sync demo_env 1 [] 0 0 0 demo_kst = Some (0, k') \<and> k_live k' = [KPage 0]) \<and>
   (\<exists>k' c. nvm_rdpparaw_sync demo_env 1 [3, 4] 2 0 0 demo_kst = Some (0, k') \<and> k_live k' = [] \<and> k_sqes k' = [(c, [3, 4])])"
  using rdraw_sync [OF demo_ok(1), of 0 "[]" demo_env 1 0 0] rdraw_sync [OF demo_ok(1), of 2 "[3, 4]" demo_env 1 0 0]
  by (auto simp: demo_ok)

end
