(* ===== verification/Bootblk.thy ===== *)
theory Bootblk
  imports Ppa_Cmd "HOL-Library.Multiset"
begin

text \<open>
  The boot block, \<open>bootblk/bootblk-mngr.c\<close> and \<open>bootblk/bootblk-mngr.h\<close>: block 0 holds, on channels
  0 to 3 and 4 to 7, the bad-block page and the meta page, each written to all eight LUNs of its
  channel. Here: the pages, the choice of the next position, flushing to all mirrors with the
  completion callback, and reading back the first good mirror.
\<close>

section \<open>Pages\<close>

definition BOOTBLK_META_MDW :: "u32 list" where
  "BOOTBLK_META_MDW = [0x6E657875, 0x73707269, 0x6d617279, 0x626F6F74]"
definition BOOTBLK_BBT_MDW :: "u32 list" where
  "BOOTBLK_BBT_MDW = [0x6261646c, 0x6c6f636b, 0x73626974, 0x6d617073]"
definition BOOTBLK_PORTION_SIZE :: nat where
  "BOOTBLK_PORTION_SIZE = CFG_NAND_EP_SIZE * CFG_DRIVE_LINE_NUM"

definition POWER_DOWN_SAFE :: u32 where "POWER_DOWN_SAFE = 0x8866"
definition POWER_DOWN_UNSAFE :: u32 where "POWER_DOWN_UNSAFE = 0x7755"

datatype fscftl_cmdtype = FSCFTL_HOST_WRITE | FSCFTL_HOST_READ | FSCFTL_GC_WRITE | FSCFTL_GC_READ
  | FSCFTL_METAPG_WRITE | FSCFTL_METAPG_READ | FSCFTL_BBTPG_WRITE | FSCFTL_BBTPG_READ

record bootblk_bbt_page =
  bb_magic :: "u32 list"
  bb_bbt :: "u16 list list"

record bootblk_meta_page =
  bm_magic :: "u32 list"
  bm_pdf :: u32
  bm_bbt_page_address :: geo_ppa
  bm_meta_page_address :: geo_ppa
  bm_bbt_ch_iter :: "u8 list"
  bm_meta_ch_iter :: "u8 list"

text \<open>
  A buffer of \<open>BOOTBLK_PORTION_SIZE\<close> bytes, by what it holds. Both structures begin with the four
  magic words, which are all that is read of a page of unknown content.
\<close>

datatype boot_image = BbtImg bootblk_bbt_page | MetaImg bootblk_meta_page | RawImg "u32 list"

fun img_magic :: "boot_image \<Rightarrow> u32 list" where
  "img_magic (BbtImg p) = bb_magic p"
| "img_magic (MetaImg p) = bm_magic p"
| "img_magic (RawImg ws) = ws"

definition zero_image :: boot_image where
  "zero_image = RawImg [0, 0, 0, 0]"

text \<open>The global pointers \<open>boot_bbt_page_info\<close> and \<open>boot_meta_page_info\<close>.\<close>

record boot =
  boot_bbt_page_info :: boot_image
  boot_meta_page_info :: boot_image

definition bootblk_page_mdw_check :: "boot_image \<Rightarrow> fscftl_cmdtype \<Rightarrow> bool" where
  "bootblk_page_mdw_check buf cmdtype = (case cmdtype of
     FSCFTL_BBTPG_READ \<Rightarrow> img_magic buf = BOOTBLK_BBT_MDW
   | FSCFTL_METAPG_READ \<Rightarrow> img_magic buf = BOOTBLK_META_MDW
   | _ \<Rightarrow> False)"

definition bbt_page_initial :: bootblk_bbt_page where
  "bbt_page_initial = \<lparr>bb_magic = BOOTBLK_BBT_MDW, bb_bbt = replicate CFG_NAND_BLOCK_NUM (replicate CFG_NAND_LUN_NUM 0)\<rparr>"

definition meta_page_initial :: bootblk_meta_page where
  "meta_page_initial = \<lparr>bm_magic = BOOTBLK_META_MDW, bm_pdf = 0, bm_bbt_page_address = INVALID_PAGE,
     bm_meta_page_address = INVALID_PAGE, bm_bbt_ch_iter = map of_nat [0..<4],
     bm_meta_ch_iter = map (\<lambda>i. of_nat (i + 4)) [0..<4]\<rparr>"

text \<open>The two arguments say whether the allocations succeed; the first page is released when the second
  cannot be had.\<close>

definition bootblk_page_init :: "bool \<Rightarrow> bool \<Rightarrow> int \<times> boot option" where
  "bootblk_page_init alloc_bbt alloc_meta = (
     if \<not> alloc_bbt then (- ENOMEM, None)
     else if \<not> alloc_meta then (- ENOMEM, None)
     else (0, Some \<lparr>boot_bbt_page_info = BbtImg bbt_page_initial, boot_meta_page_info = MetaImg meta_page_initial\<rparr>))"

text \<open>Reading a field of the meta page needs a meta page in the buffer.\<close>

fun meta_of :: "boot_image \<Rightarrow> bootblk_meta_page option" where
  "meta_of (MetaImg p) = Some p"
| "meta_of _ = None"

fun bbt_of :: "boot_image \<Rightarrow> bootblk_bbt_page option" where
  "bbt_of (BbtImg p) = Some p"
| "bbt_of _ = None"

section \<open>Positions\<close>

text \<open>The index found by the search loop; the machine stops at \<open>BUG_ON\<close> when there is none.\<close>

definition channel_jmp :: "u8 list \<Rightarrow> u8 \<Rightarrow> u8 option" where
  "channel_jmp iter old = do {
     i \<leftarrow> find (\<lambda>i. iter ! i = old) [0..<4];
     aget iter ((i + 1) mod 4)
   }"

definition bootblk_bbt_channel_jmp :: "bootblk_meta_page \<Rightarrow> u8 \<Rightarrow> u8 option" where
  "bootblk_bbt_channel_jmp m old = channel_jmp (bm_bbt_ch_iter m) old"

definition bootblk_meta_channel_jmp :: "bootblk_meta_page \<Rightarrow> u8 \<Rightarrow> u8 option" where
  "bootblk_meta_channel_jmp m old = channel_jmp (bm_meta_ch_iter m) old"

text \<open>
  \<open>INCRE_BOUNDED(curpos.nand.pg, PG_BITS, carry)\<close>. The operand is a bit field of \<open>PG_BITS\<close> bits: the
  incremented value is truncated before it is compared with \<open>1 << PG_BITS\<close>.
\<close>

definition incre_bounded_pg :: "geo_ppa \<Rightarrow> geo_ppa \<times> bool" where
  "incre_bounded_pg p = (let p = set_pg (ppa_pg p + 1) p in
     if unat (ppa_pg p) = 2 ^ PG_BITS then (set_pg 0 p, True) else (p, False))"

definition next_pos :: "u8 list \<Rightarrow> geo_ppa \<Rightarrow> geo_ppa option" where
  "next_pos iter curpos = (if curpos = INVALID_PAGE then do {
       ch \<leftarrow> aget iter 0;
       Some (set_pg 0 (set_ch (ucast ch) 0))
     } else (let (curpos, carry) = incre_bounded_pg curpos in
       if carry then do {
         ch \<leftarrow> channel_jmp iter (ucast (ppa_ch curpos));
         Some (set_ch (ucast ch) curpos)
       } else Some curpos))"

definition bootblk_get_next_bbt_pos :: "bootblk_meta_page \<Rightarrow> (geo_ppa \<times> bootblk_meta_page) option" where
  "bootblk_get_next_bbt_pos m = do {
     curpos \<leftarrow> next_pos (bm_bbt_ch_iter m) (bm_bbt_page_address m);
     Some (curpos, m\<lparr>bm_bbt_page_address := curpos\<rparr>)
   }"

definition bootblk_get_next_meta_pos :: "bootblk_meta_page \<Rightarrow> (geo_ppa \<times> bootblk_meta_page) option" where
  "bootblk_get_next_meta_pos m = do {
     curpos \<leftarrow> next_pos (bm_meta_ch_iter m) (bm_meta_page_address m);
     Some (curpos, m\<lparr>bm_meta_page_address := curpos\<rparr>)
   }"

section \<open>Flushing\<close>

text \<open>A mirror on its way: what \<open>nvme_ppa_iod\<close> holds for the completion, and what the device gets.\<close>

record flight =
  fl_req :: nat
  fl_cmd :: nat
  fl_ppalist :: nat
  fl_meta :: nat
  fl_lun :: nat
  fl_data :: "boot_image option"

text \<open>The addresses of one mirror: all planes and sectors of the page, plane by plane.\<close>

definition mirror_ppas :: "geo_ppa \<Rightarrow> nat \<Rightarrow> u64 list" where
  "mirror_ppas bootppa lun = map (\<lambda>i. ucast (set_ppa_nand_addr (ucast (ppa_ch bootppa)) (of_nat (i mod CFG_NAND_EP_NUM))
       (of_nat (i div CFG_NAND_EP_NUM)) (of_nat lun) (ucast (ppa_pg bootppa)) 0))
     [0..<CFG_NAND_PLANE_NUM * CFG_NAND_EP_NUM]"

definition boot_ctrl :: u16 where
  "boot_ctrl = NVM_IO_DUAL_ACCESS OR NVM_IO_SCRAMBLE_ENABLE"

definition boot_cmd :: "u8 \<Rightarrow> u32 \<Rightarrow> u64 \<Rightarrow> u64 \<Rightarrow> nvme_ppa_command" where
  "boot_cmd opcode nsid ppa_dma meta_dma = ppa_command_zero\<lparr>pc_opcode := opcode, pc_nsid := nsid,
     pc_nlb := of_nat CFG_DRIVE_LINE_NUM - 1, pc_control := boot_ctrl, pc_ppalist := ppa_dma, pc_metadata := meta_dma\<rparr>"

text \<open>
  One mirror. The result of \<open>nvme_submit_ppa_cmd\<close> is not looked at: when it fails there is no
  completion, and what was allocated for this mirror stays.
\<close>

definition flush_mirror :: "kenv \<Rightarrow> u32 \<Rightarrow> boot_image option \<Rightarrow> geo_ppa \<Rightarrow> nat \<Rightarrow> kst \<Rightarrow> (flight option \<times> kst) option" where
  "flush_mirror env nsid databuf bootppa lun k = (case k_alloc env KCmd k of
     (None, k) \<Rightarrow> None
   | (Some cmd, k) \<Rightarrow> do {
       (ptr, k) \<leftarrow> dma_pool_page_zalloc env k;
       pl \<leftarrow> ptr;
       k \<leftarrow> copy_ppas pl (mirror_ppas bootppa lun) [0..<CFG_DRIVE_LINE_NUM] k;
       (ptr, k) \<leftarrow> dma_pool_page_zalloc env k;
       mt \<leftarrow> ptr;
       (_, pending, k) \<leftarrow> nvme_submit_ppa_cmd env (boot_cmd NVM_OP_WRPPA nsid (bus env pl) (bus env mt)) (databuf \<noteq> None) BOOTBLK_PORTION_SIZE k;
       Some (map_option (\<lambda>(req, _, _). \<lparr>fl_req = req, fl_cmd = cmd, fl_ppalist = pl, fl_meta = mt, fl_lun = lun,
         fl_data = databuf\<rparr>) pending, k)
     })"

fun flush_mirrors :: "kenv \<Rightarrow> u32 \<Rightarrow> boot_image option \<Rightarrow> geo_ppa \<Rightarrow> nat list \<Rightarrow> kst \<Rightarrow> (flight list \<times> kst) option" where
  "flush_mirrors env nsid databuf bootppa [] k = Some ([], k)"
| "flush_mirrors env nsid databuf bootppa (lun # luns) k = do {
     (f, k) \<leftarrow> flush_mirror env nsid databuf bootppa lun k;
     (fs, k) \<leftarrow> flush_mirrors env nsid databuf bootppa luns k;
     Some (case f of None \<Rightarrow> fs | Some f \<Rightarrow> f # fs, k)
   }"

text \<open>\<open>databuf\<close> stays \<open>NULL\<close> for another command type, and \<open>nvme_submit_ppa_cmd\<close> maps nothing.\<close>

definition bootblk_flush_duplicated :: "kenv \<Rightarrow> u32 \<Rightarrow> boot \<Rightarrow> fscftl_cmdtype \<Rightarrow> geo_ppa \<Rightarrow> kst \<Rightarrow> (flight list \<times> kst) option" where
  "bootblk_flush_duplicated env nsid b cmdtype bootppa k = (
     if cmdtype = FSCFTL_METAPG_WRITE then
       flush_mirrors env nsid (Some (boot_meta_page_info b)) bootppa [0..<CFG_NAND_LUN_NUM] k
     else if cmdtype = FSCFTL_BBTPG_WRITE then
       flush_mirrors env nsid (Some (boot_bbt_page_info b)) bootppa [0..<CFG_NAND_LUN_NUM] k
     else flush_mirrors env nsid None bootppa [0..<CFG_NAND_LUN_NUM] k)"

definition bootblk_flush_completion :: "flight \<Rightarrow> kst \<Rightarrow> kst option" where
  "bootblk_flush_completion f k = do {
     k \<leftarrow> dma_pool_page_free (fl_meta f) k;
     k \<leftarrow> dma_pool_page_free (fl_ppalist f) k;
     k \<leftarrow> k_free (KCmd (fl_cmd f)) k;
     k_free (KReq (fl_req f)) k
   }"

definition bootblk_flush_meta_page :: "kenv \<Rightarrow> u32 \<Rightarrow> u32 \<Rightarrow> boot \<Rightarrow> kst \<Rightarrow> (flight list \<times> boot \<times> kst) option" where
  "bootblk_flush_meta_page env nsid flag b k = do {
     m \<leftarrow> meta_of (boot_meta_page_info b);
     let m = m\<lparr>bm_pdf := flag\<rparr>;
     (pos, m) \<leftarrow> bootblk_get_next_meta_pos m;
     let b = b\<lparr>boot_meta_page_info := MetaImg m\<rparr>;
     (fs, k) \<leftarrow> bootblk_flush_duplicated env nsid b FSCFTL_METAPG_WRITE pos k;
     Some (fs, b, k)
   }"

text \<open>The two loops of \<open>bootblk_flush_bbt_page\<close> copy the table of every block, LUN by LUN.\<close>

fun copy_bbt_luns :: "bmi_item list \<Rightarrow> nat \<Rightarrow> nat list \<Rightarrow> u16 list \<Rightarrow> u16 list option" where
  "copy_bbt_luns tbl blk [] row = Some row"
| "copy_bbt_luns tbl blk (lun # luns) row = do {
     bmi \<leftarrow> get_bmi_item tbl (of_nat blk);
     v \<leftarrow> aget (bmi_bbt bmi) lun;
     row \<leftarrow> aset row lun v;
     copy_bbt_luns tbl blk luns row
   }"

fun copy_bbt :: "bmi_item list \<Rightarrow> nat list \<Rightarrow> u16 list list \<Rightarrow> u16 list list option" where
  "copy_bbt tbl [] bbt = Some bbt"
| "copy_bbt tbl (blk # blks) bbt = do {
     row \<leftarrow> aget bbt blk;
     row \<leftarrow> copy_bbt_luns tbl blk [0..<CFG_NAND_LUN_NUM] row;
     bbt \<leftarrow> aset bbt blk row;
     copy_bbt tbl blks bbt
   }"

definition bootblk_flush_bbt_page :: "kenv \<Rightarrow> u32 \<Rightarrow> bmi_item list \<Rightarrow> boot \<Rightarrow> kst \<Rightarrow> (flight list \<times> boot \<times> kst) option" where
  "bootblk_flush_bbt_page env nsid tbl b k = do {
     p \<leftarrow> bbt_of (boot_bbt_page_info b);
     bbt \<leftarrow> copy_bbt tbl [0..<CFG_NAND_BLOCK_NUM] (bb_bbt p);
     m \<leftarrow> meta_of (boot_meta_page_info b);
     (pos, m) \<leftarrow> bootblk_get_next_bbt_pos m;
     let b = b\<lparr>boot_bbt_page_info := BbtImg (p\<lparr>bb_bbt := bbt\<rparr>), boot_meta_page_info := MetaImg m\<rparr>;
     (fs, k) \<leftarrow> bootblk_flush_duplicated env nsid b FSCFTL_BBTPG_WRITE pos k;
     Some (fs, b, k)
   }"

section \<open>Recovery\<close>

text \<open>The search is not written yet: the source returns page 1 of the first channel.\<close>

definition binary_search_meta_page :: "bootblk_meta_page \<Rightarrow> geo_ppa option" where
  "binary_search_meta_page m = do {
     ch \<leftarrow> aget (bm_meta_ch_iter m) 0;
     Some (set_pg 1 (set_ch (ucast ch) 0))
   }"

text \<open>
  The loop over the mirrors. \<open>rdata\<close> is what the device delivers into the buffer for the n-th command;
  a command that could not be executed leaves the cleared buffer. The result says at which LUN the
  loop stopped, if it did.
\<close>

fun mirror_loop :: "kenv \<Rightarrow> (nat \<Rightarrow> u64 list \<Rightarrow> boot_image) \<Rightarrow> u32 \<Rightarrow> fscftl_cmdtype \<Rightarrow> geo_ppa \<Rightarrow> nat \<Rightarrow> nat \<Rightarrow> nat list \<Rightarrow>
    boot_image \<Rightarrow> kst \<Rightarrow> (nat option \<times> boot_image \<times> kst) option" where
  "mirror_loop env rdata nsid cmdtype bootppa pl mt [] databuf k = Some (None, databuf, k)"
| "mirror_loop env rdata nsid cmdtype bootppa pl mt (lun # luns) databuf k = do {
     let k = k\<lparr>k_page := (k_page k)(pl := replicate PAGE_WORDS 0)\<rparr>;
     k \<leftarrow> copy_ppas pl (mirror_ppas bootppa lun) [0..<CFG_DRIVE_LINE_NUM] k;
     let n = length (k_sqes k);
     (status, k) \<leftarrow> nvme_submit_ppa_cmd_sync env (boot_cmd NVM_OP_RDPPA nsid (bus env pl) (bus env mt)) True BOOTBLK_PORTION_SIZE k;
     let databuf = (if n < length (k_sqes k) then rdata n (snd (k_sqes k ! n)) else zero_image);
     if status \<noteq> 0 then mirror_loop env rdata nsid cmdtype bootppa pl mt luns databuf k
     else if bootblk_page_mdw_check databuf cmdtype then Some (Some lun, databuf, k)
     else mirror_loop env rdata nsid cmdtype bootppa pl mt luns databuf k
   }"

definition bootblk_get_mirror :: "kenv \<Rightarrow> (nat \<Rightarrow> u64 list \<Rightarrow> boot_image) \<Rightarrow> u32 \<Rightarrow> fscftl_cmdtype \<Rightarrow> boot_image \<Rightarrow> geo_ppa \<Rightarrow>
    kst \<Rightarrow> (int \<times> boot_image \<times> kst) option" where
  "bootblk_get_mirror env rdata nsid cmdtype databuf bootppa k = (case k_alloc env KCmd k of
     (None, k) \<Rightarrow> Some (- ENOMEM, databuf, k)
   | (Some cmd, k) \<Rightarrow> do {
       (ptr, k) \<leftarrow> dma_pool_page_zalloc env k;
       pl \<leftarrow> ptr;
       (ptr, k) \<leftarrow> dma_pool_page_zalloc env k;
       mt \<leftarrow> ptr;
       (found, databuf, k) \<leftarrow> mirror_loop env rdata nsid cmdtype bootppa pl mt [0..<CFG_NAND_LUN_NUM] databuf k;
       k \<leftarrow> dma_pool_page_free mt k;
       k \<leftarrow> dma_pool_page_free pl k;
       k \<leftarrow> k_free (KCmd cmd) k;
       Some (if found = None then - 1 else 0, databuf, k)
     })"

text \<open>The buffer replaces the page in memory whether or not a good mirror was found.\<close>

definition bootblk_recovery_bbt_page :: "kenv \<Rightarrow> (nat \<Rightarrow> u64 list \<Rightarrow> boot_image) \<Rightarrow> u32 \<Rightarrow> boot \<Rightarrow> kst \<Rightarrow> (int \<times> boot \<times> kst) option" where
  "bootblk_recovery_bbt_page env rdata nsid b k = (case k_alloc env KCmd k of
     (None, k) \<Rightarrow> Some (- ENOMEM, b, k)
   | (Some buf, k) \<Rightarrow> do {
       m \<leftarrow> meta_of (boot_meta_page_info b);
       (result, databuf, k) \<leftarrow> bootblk_get_mirror env rdata nsid FSCFTL_BBTPG_READ zero_image (bm_bbt_page_address m) k;
       k \<leftarrow> k_free (KCmd buf) k;
       Some (result, b\<lparr>boot_bbt_page_info := databuf\<rparr>, k)
     })"

definition bootblk_recovery_meta_page :: "kenv \<Rightarrow> (nat \<Rightarrow> u64 list \<Rightarrow> boot_image) \<Rightarrow> u32 \<Rightarrow> boot \<Rightarrow> kst \<Rightarrow> (int \<times> boot \<times> kst) option" where
  "bootblk_recovery_meta_page env rdata nsid b k = (case k_alloc env KCmd k of
     (None, k) \<Rightarrow> Some (- ENOMEM, b, k)
   | (Some buf, k) \<Rightarrow> do {
       m \<leftarrow> meta_of (boot_meta_page_info b);
       pos \<leftarrow> binary_search_meta_page m;
       (result, databuf, k) \<leftarrow> bootblk_get_mirror env rdata nsid FSCFTL_METAPG_READ zero_image pos k;
       k \<leftarrow> k_free (KCmd buf) k;
       Some (result, b\<lparr>boot_meta_page_info := databuf\<rparr>, k)
     })"

section \<open>Laws of the positions\<close>

definition boot_addr :: "u8 \<Rightarrow> nat \<Rightarrow> geo_ppa" where
  "boot_addr ch pg = set_pg (of_nat pg) (set_ch (ucast ch) 0)"

lemma boot_addr_fields:
  "ppa_pg (boot_addr ch pg) = take_bit 9 (of_nat pg)" "ppa_ch (boot_addr ch pg) = take_bit 4 (ucast ch)"
  "ppa_sec (boot_addr ch pg) = 0"
  by (simp_all add: boot_addr_def ppa_defs bf_simps)

lemma boot_addr_valid: "boot_addr ch pg \<noteq> INVALID_PAGE"
proof
  assume "boot_addr ch pg = INVALID_PAGE"
  then have "ppa_sec INVALID_PAGE = 0"
    using boot_addr_fields(3) [of ch pg] by simp
  then show False
    by (simp add: ppa_sec_def bf_get_def INVALID_PAGE_def drop_bit_eq_div take_bit_eq_mod)
qed

lemma set_pg_twice: "set_pg v (set_pg u p) = set_pg v p"
  by (rule bit_word_eqI) (simp add: set_pg_def bit_bf_set)

lemma set_pg_mod: "take_bit 9 v = take_bit 9 u \<Longrightarrow> set_pg v p = set_pg u p"
  by (simp add: set_pg_def bf_set_def)

lemma next_pos_first: "length iter = 4 \<Longrightarrow> next_pos iter INVALID_PAGE = Some (boot_addr (iter ! 0) 0)"
  by (simp add: next_pos_def boot_addr_def)

lemma next_pos_step: "next_pos iter (boot_addr ch pg) = Some (boot_addr ch ((pg + 1) mod 512))"
proof -
  let ?p = "boot_addr ch pg"
  have pg: "take_bit 9 (ppa_pg ?p + 1) = take_bit 9 (of_nat ((pg + 1) mod 512))"
    using mod_Suc_eq [of "pg mod 4294967296" 512] mod_Suc_eq [of pg 512] mod_mod_cancel [of 512 4294967296 pg]
    by (simp add: boot_addr_fields word_unat_eq_iff unsigned_take_bit_eq unsigned_of_nat unat_word_ariths take_bit_eq_mod mod_simps)
  have step: "set_pg (ppa_pg ?p + 1) ?p = boot_addr ch ((pg + 1) mod 512)"
    using set_pg_mod [OF pg, of ?p] by (simp add: boot_addr_def set_pg_twice)
  have "unat (ppa_pg q) < 512" for q
    using bf_get_less [of 9 10 q] by (simp add: ppa_pg_def)
  then have "unat (ppa_pg q) \<noteq> 512" for q
    by (metis less_irrefl)
  then show ?thesis
    using step boot_addr_valid [of ch pg] by (simp add: next_pos_def incre_bounded_pg_def Let_def)
qed

text \<open>The position after \<open>n\<close> flushes of a page whose address was never set.\<close>

fun pos_after :: "u8 list \<Rightarrow> nat \<Rightarrow> geo_ppa option" where
  "pos_after iter 0 = Some INVALID_PAGE"
| "pos_after iter (Suc n) = do { p \<leftarrow> pos_after iter n; next_pos iter p }"

text \<open>C34: The boot pages never leave their first channel. The positions of successive flushes run
  through the pages of channel \<open>iter[0]\<close> of block 0 and start again at page 0, which has not been
  erased: the carry that should move on to the next of the four channels cannot occur, because the
  counter is a bit field of exactly \<open>PG_BITS\<close> bits.\<close>

theorem boot_pos_stuck:
  assumes "length iter = 4"
  shows "pos_after iter (Suc n) = Some (boot_addr (iter ! 0) (n mod 512))"
  by (induction n) (simp_all add: next_pos_first [OF assms] next_pos_step mod_Suc_eq)

theorem boot_pos_stuck_witness:
  "pos_after (bm_bbt_ch_iter meta_page_initial) 513 = Some (boot_addr 0 0)"
  using boot_pos_stuck [of "bm_bbt_ch_iter meta_page_initial" 512] by (simp add: meta_page_initial_def del: pos_after.simps)

section \<open>Reading a mirror\<close>

lemma mirror_ppas_length [simp]: "length (mirror_ppas pos lun) = 8"
  by (simp add: mirror_ppas_def)

text \<open>What the kernel must do for a read: grant, map, and give two pages of one command different
  addresses.\<close>

definition kernel_fine :: "kenv \<Rightarrow> bool" where
  "kernel_fine env \<longleftrightarrow> (\<forall>n. grant env n) \<and> (\<forall>n. map_kern env n = 0) \<and> (\<forall>n. bus env (Suc n) \<noteq> bus env n)"

definition read_cmd :: "kenv \<Rightarrow> u32 \<Rightarrow> nat \<Rightarrow> nat \<Rightarrow> nvme_ppa_command" where
  "read_cmd env nsid pl mt = boot_cmd NVM_OP_RDPPA nsid (bus env pl) (bus env mt)"

definition mirror_status :: "kenv \<Rightarrow> nvme_ppa_command \<Rightarrow> geo_ppa \<Rightarrow> nat \<Rightarrow> nat \<Rightarrow> int" where
  "mirror_status env c pos N lun = fst (device env (N + lun) c (mirror_ppas pos lun))"

definition good_mirror :: "kenv \<Rightarrow> (nat \<Rightarrow> u64 list \<Rightarrow> boot_image) \<Rightarrow> nvme_ppa_command \<Rightarrow> fscftl_cmdtype \<Rightarrow> geo_ppa \<Rightarrow> nat \<Rightarrow> nat \<Rightarrow> bool" where
  "good_mirror env rdata c cmdtype pos N lun \<longleftrightarrow> mirror_status env c pos N lun = 0 \<and>
     bootblk_page_mdw_check (rdata (N + lun) (mirror_ppas pos lun)) cmdtype"

lemma read_step:
  fixes nsid :: u32
  assumes env: "kernel_fine env" and k: "k_ok k" "k_live k = KPage mt # KPage pl # R" "mt = Suc pl"
    and pg: "k_page k pl = mirror_ppas pos lun @ rest"
  defines "c \<equiv> read_cmd env nsid pl mt" and "ps \<equiv> mirror_ppas pos lun"
  shows "nvme_submit_ppa_cmd_sync env c True BOOTBLK_PORTION_SIZE k =
    Some (fst (device env (length (k_sqes k)) c ps), k\<lparr>k_n := Suc (k_n k), k_sqes := k_sqes k @ [(c, ps)]\<rparr>)"
proof -
  have ne: "bus env mt \<noteq> bus env pl"
    using env k(3) by (simp add: kernel_fine_def)
  have "sqe_ppas env (k\<lparr>k_n := Suc (k_n k), k_live := KReq (k_n k) # k_live k\<rparr>) c = take 8 ps"
    by (rule sqe_many [where pg = rest]) (use ne k(2) pg in \<open>simp_all add: c_def read_cmd_def boot_cmd_def page_at_def ps_def\<close>)
  then show ?thesis
    using env by (simp add: sync_cmd_cases [OF k(1)] kernel_fine_def ps_def)
qed

lemma mirror_loop_finds:
  fixes nsid :: u32
  assumes env: "kernel_fine env" and k: "k_ok k" "k_live k = KPage mt # KPage pl # R" "mt = Suc pl" "length (k_sqes k) = N + j" "j \<le> 8"
  defines "c \<equiv> read_cmd env nsid pl mt"
  shows "\<exists>found img k'. mirror_loop env rdata nsid cmdtype pos pl mt [j..<8] databuf k = Some (found, img, k') \<and> k_live k' = k_live k \<and> k_n k \<le> k_n k' \<and>
    (case found of None \<Rightarrow> \<forall>l. j \<le> l \<and> l < 8 \<longrightarrow> \<not> good_mirror env rdata c cmdtype pos N l
     | Some l \<Rightarrow> j \<le> l \<and> l < 8 \<and> good_mirror env rdata c cmdtype pos N l \<and>
         (\<forall>i. j \<le> i \<and> i < l \<longrightarrow> \<not> good_mirror env rdata c cmdtype pos N i) \<and> img = rdata (N + l) (mirror_ppas pos l))"
  using k
proof (induction "8 - j" arbitrary: j databuf k)
  case 0
  then show ?case by auto
next
  case (Suc d)
  then have j: "j < 8" by simp
  let ?k1 = "k\<lparr>k_page := (k_page k)(pl := mirror_ppas pos j @ drop 8 (replicate PAGE_WORDS 0))\<rparr>"
  let ?ps = "mirror_ppas pos j"
  let ?k2 = "?k1\<lparr>k_n := Suc (k_n k), k_sqes := k_sqes k @ [(c, ?ps)]\<rparr>"
  have cp: "copy_ppas pl ?ps [0..<8] (k\<lparr>k_page := (k_page k)(pl := replicate PAGE_WORDS 0)\<rparr>) = Some ?k1"
    using copy_ppas_ok [of 8 ?ps "k\<lparr>k_page := (k_page k)(pl := replicate PAGE_WORDS 0)\<rparr>" pl] by simp
  have rs: "nvme_submit_ppa_cmd_sync env c True BOOTBLK_PORTION_SIZE ?k1 = Some (mirror_status env c pos N j, ?k2)"
    using read_step [OF env, of ?k1 mt pl R pos j "drop 8 (replicate PAGE_WORDS 0)" nsid] Suc(3-6)
    by (simp add: k_ok_def c_def mirror_status_def)
  have nth: "snd (k_sqes ?k2 ! (N + j)) = ?ps" "N + j < length (k_sqes ?k2)"
    using Suc(6) by (simp_all add: nth_append)
  have step: "mirror_loop env rdata nsid cmdtype pos pl mt [j..<8] databuf k =
      (if good_mirror env rdata c cmdtype pos N j then Some (Some j, rdata (N + j) ?ps, ?k2)
       else mirror_loop env rdata nsid cmdtype pos pl mt [Suc j..<8] (rdata (N + j) ?ps) ?k2)"
    unfolding upt_conv_Cons [OF j] using cp rs Suc(6) nth
    by (simp add: Let_def good_mirror_def c_def read_cmd_def del: upt_Suc upt_rec_numeral)
  show ?case
  proof (cases "good_mirror env rdata c cmdtype pos N j")
    case True
    with step j Suc(4) show ?thesis by auto
  next
    case False
    have d: "d = 8 - Suc j" and inv: "k_ok ?k2" "k_live ?k2 = KPage mt # KPage pl # R" "length (k_sqes ?k2) = N + Suc j" "Suc j \<le> 8"
      using Suc(2-6) j by (auto simp: k_ok_def)
    obtain found img k' where r: "mirror_loop env rdata nsid cmdtype pos pl mt [Suc j..<8] (rdata (N + j) ?ps) ?k2 = Some (found, img, k')"
        "k_live k' = k_live ?k2" "k_n ?k2 \<le> k_n k'"
        "case found of None \<Rightarrow> \<forall>l. Suc j \<le> l \<and> l < 8 \<longrightarrow> \<not> good_mirror env rdata c cmdtype pos N l
         | Some l \<Rightarrow> Suc j \<le> l \<and> l < 8 \<and> good_mirror env rdata c cmdtype pos N l \<and>
             (\<forall>i. Suc j \<le> i \<and> i < l \<longrightarrow> \<not> good_mirror env rdata c cmdtype pos N i) \<and> img = rdata (N + l) (mirror_ppas pos l)"
      using Suc(1) [OF d inv(1,2) Suc(5) inv(3,4), of "rdata (N + j) ?ps"] by blast
    have all: "\<not> good_mirror env rdata c cmdtype pos N i" if "j \<le> i" "Suc j \<le> i \<longrightarrow> \<not> good_mirror env rdata c cmdtype pos N i" for i
      using False that by (cases "i = j") simp_all
    show ?thesis
      using r False step all by (intro exI [of _ found] exI [of _ img] exI [of _ k']) (auto split: option.splits)
  qed
qed

lemma get_mirror_finds:
  fixes nsid :: u32
  assumes "kernel_fine env" and "k_ok k"
  defines "c \<equiv> read_cmd env nsid (Suc (k_n k)) (Suc (Suc (k_n k)))"
  shows "\<exists>r img k'. bootblk_get_mirror env rdata nsid cmdtype databuf pos k = Some (r, img, k') \<and> k_live k' = k_live k \<and>
    k_n k < k_n k' \<and>
    (if \<exists>l < 8. good_mirror env rdata c cmdtype pos (length (k_sqes k)) l
     then r = 0 \<and> (\<exists>l < 8. good_mirror env rdata c cmdtype pos (length (k_sqes k)) l \<and>
       (\<forall>i < l. \<not> good_mirror env rdata c cmdtype pos (length (k_sqes k)) i) \<and> img = rdata (length (k_sqes k) + l) (mirror_ppas pos l))
     else r = - 1)"
proof -
  have g: "grant env n" for n
    using assms(1) by (simp add: kernel_fine_def)
  let ?n = "k_n k"
  let ?k = "k\<lparr>k_n := Suc (Suc (Suc ?n)), k_live := KPage (Suc (Suc ?n)) # KPage (Suc ?n) # KCmd ?n # k_live k,
    k_page := (k_page k)(Suc ?n := replicate PAGE_WORDS 0, Suc (Suc ?n) := replicate PAGE_WORDS 0)\<rparr>"
  have k: "k_ok ?k" "k_live ?k = KPage (Suc (Suc ?n)) # KPage (Suc ?n) # (KCmd ?n # k_live k)" "Suc (Suc ?n) = Suc (Suc ?n)"
      "length (k_sqes ?k) = length (k_sqes k) + 0" "(0::nat) \<le> 8"
    using assms(2) by (auto simp: k_ok_def less_Suc_eq)
  obtain found img k' where r: "mirror_loop env rdata nsid cmdtype pos (Suc ?n) (Suc (Suc ?n)) [0..<8] databuf ?k = Some (found, img, k')"
      "k_live k' = k_live ?k" "k_n ?k \<le> k_n k'"
      "case found of None \<Rightarrow> \<forall>l. 0 \<le> l \<and> l < 8 \<longrightarrow> \<not> good_mirror env rdata c cmdtype pos (length (k_sqes k)) l
       | Some l \<Rightarrow> 0 \<le> l \<and> l < 8 \<and> good_mirror env rdata c cmdtype pos (length (k_sqes k)) l \<and>
          (\<forall>i. 0 \<le> i \<and> i < l \<longrightarrow> \<not> good_mirror env rdata c cmdtype pos (length (k_sqes k)) i) \<and>
          img = rdata (length (k_sqes k) + l) (mirror_ppas pos l)"
    using mirror_loop_finds [OF assms(1) k, where nsid = nsid and rdata = rdata and cmdtype = cmdtype and pos = pos and databuf = databuf] unfolding c_def by blast
  have "bootblk_get_mirror env rdata nsid cmdtype databuf pos k =
      Some (if found = None then - 1 else 0, img, k'\<lparr>k_live := k_live k\<rparr>)"
    using r(1,2) g by (simp add: bootblk_get_mirror_def dma_pool_page_free_def del: upt_Suc upt_rec_numeral)
  then show ?thesis
    using r(3,4) by (cases found) auto
qed

text \<open>C23: The first good mirror is found. With a kernel that grants what is asked, \<open>bootblk_get_mirror\<close>
  returns 0 exactly when some LUN can be read and its page carries the right magic words; the buffer
  then holds the page of the first such LUN. In both cases what was allocated is released.\<close>

theorem mirror_first_good:
  fixes env :: kenv and rdata :: "nat \<Rightarrow> u64 list \<Rightarrow> boot_image" and nsid :: u32 and cmdtype :: fscftl_cmdtype
    and pos :: geo_ppa and k :: kst
  defines "c \<equiv> read_cmd env nsid (Suc (k_n k)) (Suc (Suc (k_n k)))"
  defines "good \<equiv> good_mirror env rdata c cmdtype pos (length (k_sqes k))"
  assumes "kernel_fine env" and "k_ok k"
  shows "\<exists>r img k'. bootblk_get_mirror env rdata nsid cmdtype databuf pos k = Some (r, img, k') \<and> k_live k' = k_live k \<and>
    (if \<exists>l < CFG_NAND_LUN_NUM. good l
     then r = 0 \<and> (\<exists>l < CFG_NAND_LUN_NUM. good l \<and> (\<forall>i < l. \<not> good i) \<and> img = rdata (length (k_sqes k) + l) (mirror_ppas pos l))
     else r = - 1)"
proof -
  have "\<exists>r img k'. bootblk_get_mirror env rdata nsid cmdtype databuf pos k = Some (r, img, k') \<and> k_live k' = k_live k \<and>
    k_n k < k_n k' \<and>
    (if \<exists>l < 8. good l
     then r = 0 \<and> (\<exists>l < 8. good l \<and> (\<forall>i < l. \<not> good i) \<and> img = rdata (length (k_sqes k) + l) (mirror_ppas pos l))
     else r = - 1)"
    unfolding good_def c_def by (rule get_mirror_finds [OF assms(3,4)])
  then show ?thesis
    by (elim exE conjE) (intro exI conjI, assumption+, simp)
qed

theorem mirror_first_good_witness:
  "\<exists>r img k'. bootblk_get_mirror demo_env (\<lambda>n _. if n = 3 then BbtImg bbt_page_initial else zero_image) 1 FSCFTL_BBTPG_READ
     zero_image 0 demo_kst = Some (r, img, k') \<and> r = 0"
proof -
  let ?rd = "\<lambda>n _. if n = 3 then BbtImg bbt_page_initial else zero_image"
  let ?c = "read_cmd demo_env 1 (Suc (k_n demo_kst)) (Suc (Suc (k_n demo_kst)))"
  have "bus demo_env (Suc n) \<noteq> bus demo_env n" for n
    by (simp add: demo_env_def)
  then have fine: "kernel_fine demo_env"
    by (simp add: kernel_fine_def demo_ok)
  have "good_mirror demo_env ?rd ?c FSCFTL_BBTPG_READ 0 (length (k_sqes demo_kst)) 3"
    by (simp add: good_mirror_def mirror_status_def demo_ok bootblk_page_mdw_check_def bbt_page_initial_def)
  then have "\<exists>l < CFG_NAND_LUN_NUM. good_mirror demo_env ?rd ?c FSCFTL_BBTPG_READ 0 (length (k_sqes demo_kst)) l"
    by (intro exI [of _ 3]) simp
  then show ?thesis
    using mirror_first_good [OF fine demo_ok(1), where rdata = ?rd and nsid = 1 and cmdtype = FSCFTL_BBTPG_READ and pos = 0
      and databuf = zero_image]
    by (elim exE conjE) (auto split: if_splits)
qed

section \<open>Writing the mirrors\<close>

definition flight_objs :: "flight \<Rightarrow> kres list" where
  "flight_objs f = [KReq (fl_req f), KPage (fl_meta f), KPage (fl_ppalist f), KCmd (fl_cmd f)]"

lemma flush_mirror_ok:
  assumes "kernel_fine env" "k_ok k"
  shows "\<exists>f k' c. flush_mirror env nsid data pos lun k = Some (Some f, k') \<and> k_ok k' \<and> fl_lun f = lun \<and> fl_data f = data \<and>
    k_live k' = flight_objs f @ k_live k \<and> k_sqes k' = k_sqes k @ [(c, mirror_ppas pos lun)] \<and> pc_opcode c = NVM_OP_WRPPA"
proof -
  have g: "grant env n" "map_kern env n = 0" "bus env (Suc n) \<noteq> bus env n" for n
    using assms(1) by (auto simp: kernel_fine_def)
  let ?n = "k_n k"
  let ?c = "boot_cmd NVM_OP_WRPPA nsid (bus env (Suc ?n)) (bus env (Suc (Suc ?n)))"
  define z :: "u64 list" where "z = drop 8 (replicate PAGE_WORDS 0)"
  let ?k1 = "k\<lparr>k_n := Suc (Suc ?n), k_live := KPage (Suc ?n) # KCmd ?n # k_live k, k_page := (k_page k)(Suc ?n := mirror_ppas pos lun @ z)\<rparr>"
  have cp: "copy_ppas (Suc ?n) (mirror_ppas pos lun) [0..<8] (k\<lparr>k_n := Suc (Suc ?n), k_live := KPage (Suc ?n) # KCmd ?n # k_live k,
      k_page := (k_page k)(Suc ?n := replicate PAGE_WORDS 0)\<rparr>) = Some ?k1"
    using copy_ppas_ok [of 8 "mirror_ppas pos lun"] by (simp add: z_def)
  have sq: "sqe_ppas env (k\<lparr>k_page := (k_page k)(Suc ?n := mirror_ppas pos lun @ z, Suc (Suc ?n) := y), k_n := j,
      k_live := KReq (Suc (Suc (Suc ?n))) # KPage (Suc (Suc ?n)) # KPage (Suc ?n) # L\<rparr>) ?c = take 8 (mirror_ppas pos lun)" for j L y
    by (rule sqe_many [where pg = z]) (use g in \<open>simp_all add: boot_cmd_def page_at_def\<close>)
  show ?thesis
    using cp sq g assms(2)
    by (auto simp: flush_mirror_def nvme_submit_ppa_cmd_def nvme_submit_ppa_cmd_core_def Let_def flight_objs_def k_ok_def
      less_Suc_eq boot_cmd_def simp del: upt_Suc upt_rec_numeral split: prod.splits)
qed

lemma flush_mirrors_ok:
  assumes "kernel_fine env" "k_ok k"
  shows "\<exists>fs k'. flush_mirrors env nsid data pos luns k = Some (fs, k') \<and> k_ok k' \<and> map fl_lun fs = luns \<and>
    (\<forall>f \<in> set fs. fl_data f = data) \<and> mset (k_live k') = mset (concat (map flight_objs fs)) + mset (k_live k) \<and>
    map snd (k_sqes k') = map snd (k_sqes k) @ map (mirror_ppas pos) luns"
  using assms(2)
proof (induction luns arbitrary: k)
  case Nil
  then show ?case by simp
next
  case (Cons lun luns)
  obtain f k1 c where f: "flush_mirror env nsid data pos lun k = Some (Some f, k1)" "k_ok k1" "fl_lun f = lun" "fl_data f = data"
      "k_live k1 = flight_objs f @ k_live k" "k_sqes k1 = k_sqes k @ [(c, mirror_ppas pos lun)]"
    using flush_mirror_ok [OF assms(1) Cons(2), of nsid data pos lun] by blast
  obtain fs k' where r: "flush_mirrors env nsid data pos luns k1 = Some (fs, k')" "k_ok k'" "map fl_lun fs = luns"
      "\<forall>f \<in> set fs. fl_data f = data" "mset (k_live k') = mset (concat (map flight_objs fs)) + mset (k_live k1)"
      "map snd (k_sqes k') = map snd (k_sqes k1) @ map (mirror_ppas pos) luns"
    using Cons(1) [OF f(2)] by blast
  show ?case
    using f r by (intro exI [of _ "f # fs"] exI [of _ k']) simp
qed

lemma k_free_mset:
  "r \<in># mset (k_live k) \<Longrightarrow> \<exists>k'. k_free r k = Some k' \<and> mset (k_live k') = mset (k_live k) - {#r#}"
  by simp

lemma completion_mset:
  assumes "mset (k_live k) = mset (flight_objs f) + M"
  shows "\<exists>k'. bootblk_flush_completion f k = Some k' \<and> mset (k_live k') = M"
proof -
  obtain k1 where k1: "k_free (KPage (fl_meta f)) k = Some k1" "mset (k_live k1) = {#KReq (fl_req f), KPage (fl_ppalist f), KCmd (fl_cmd f)#} + M"
    using k_free_mset [of "KPage (fl_meta f)" k] assms by (auto simp: flight_objs_def)
  obtain k2 where k2: "k_free (KPage (fl_ppalist f)) k1 = Some k2" "mset (k_live k2) = {#KReq (fl_req f), KCmd (fl_cmd f)#} + M"
    using k_free_mset [of "KPage (fl_ppalist f)" k1] k1(2) by auto
  obtain k3 where k3: "k_free (KCmd (fl_cmd f)) k2 = Some k3" "mset (k_live k3) = {#KReq (fl_req f)#} + M"
    using k_free_mset [of "KCmd (fl_cmd f)" k2] k2(2) by auto
  obtain k4 where k4: "k_free (KReq (fl_req f)) k3 = Some k4" "mset (k_live k4) = M"
    using k_free_mset [of "KReq (fl_req f)" k3] k3(2) by auto
  show ?thesis
    using k1 k2 k3 k4 by (simp add: bootblk_flush_completion_def dma_pool_page_free_def)
qed

text \<open>The completions of a list of mirrors, in the order in which they arrive.\<close>

fun complete_all :: "flight list \<Rightarrow> kst \<Rightarrow> kst option" where
  "complete_all [] k = Some k"
| "complete_all (f # fs) k = do { k \<leftarrow> bootblk_flush_completion f k; complete_all fs k }"

lemma complete_all_mset:
  "mset (k_live k) = mset (concat (map flight_objs fs)) + M \<Longrightarrow> \<exists>k'. complete_all fs k = Some k' \<and> mset (k_live k') = M"
proof (induction fs arbitrary: k)
  case Nil
  then show ?case by simp
next
  case (Cons f fs)
  then have "mset (k_live k) = mset (flight_objs f) + (mset (concat (map flight_objs fs)) + M)"
    by (simp add: add.assoc)
  from completion_mset [OF this] obtain k1
    where "bootblk_flush_completion f k = Some k1" "mset (k_live k1) = mset (concat (map flight_objs fs)) + M"
    by blast
  with Cons(1) show ?case by simp
qed

lemma mset_concat_perm: "mset gs = mset fs \<Longrightarrow> mset (concat (map h gs)) = mset (concat (map h fs))"
proof -
  assume "mset gs = mset fs"
  moreover have "mset (concat (map h xs)) = \<Sum>\<^sub># (image_mset (\<lambda>x. mset (h x)) (mset xs))" for xs
    by (induction xs) simp_all
  ultimately show ?thesis by simp
qed

text \<open>C22: A boot page reaches all its mirrors. With a kernel that grants what is asked, flushing the
  meta or bad-block page issues one write per LUN, in LUN order, of the whole page in memory to all
  sectors and planes of the current position; and in whatever order the eight completions arrive,
  everything that was allocated is released, nothing twice.\<close>

theorem flush_reaches_mirrors:
  assumes "kernel_fine env" and "k_ok k"
    and "(cmdtype, img) \<in> {(FSCFTL_METAPG_WRITE, boot_meta_page_info b), (FSCFTL_BBTPG_WRITE, boot_bbt_page_info b)}"
  shows "\<exists>fs k'. bootblk_flush_duplicated env nsid b cmdtype pos k = Some (fs, k') \<and>
    map fl_lun fs = [0..<CFG_NAND_LUN_NUM] \<and> (\<forall>f \<in> set fs. fl_data f = Some img) \<and>
    map snd (k_sqes k') = map snd (k_sqes k) @ map (mirror_ppas pos) [0..<CFG_NAND_LUN_NUM] \<and>
    (\<forall>gs. mset gs = mset fs \<longrightarrow> (\<exists>k''. complete_all gs k' = Some k'' \<and> mset (k_live k'') = mset (k_live k)))"
proof -
  obtain fs k' where r: "flush_mirrors env nsid (Some img) pos [0..<CFG_NAND_LUN_NUM] k = Some (fs, k')"
      "map fl_lun fs = [0..<CFG_NAND_LUN_NUM]" "\<forall>f \<in> set fs. fl_data f = Some img"
      "mset (k_live k') = mset (concat (map flight_objs fs)) + mset (k_live k)"
      "map snd (k_sqes k') = map snd (k_sqes k) @ map (mirror_ppas pos) [0..<CFG_NAND_LUN_NUM]"
    using flush_mirrors_ok [OF assms(1,2)] by blast
  have "bootblk_flush_duplicated env nsid b cmdtype pos k = Some (fs, k')"
    using assms(3) r(1) unfolding bootblk_flush_duplicated_def by (elim insertE) (simp_all del: upt_Suc upt_rec_numeral)
  moreover have "\<exists>k''. complete_all gs k' = Some k'' \<and> mset (k_live k'') = mset (k_live k)" if "mset gs = mset fs" for gs
    by (rule complete_all_mset) (use r(4) mset_concat_perm [OF that, of flight_objs] in simp)
  ultimately show ?thesis
    using r(2,3,5) by blast
qed

lemma demo_fine: "kernel_fine demo_env"
  by (simp add: kernel_fine_def demo_env_def)

theorem flush_reaches_mirrors_witness:
  "\<exists>fs k' k''. bootblk_flush_duplicated demo_env 1 \<lparr>boot_bbt_page_info = BbtImg bbt_page_initial, boot_meta_page_info = zero_image\<rparr>
     FSCFTL_BBTPG_WRITE (boot_addr 0 3) demo_kst = Some (fs, k') \<and> complete_all (rev fs) k' = Some k'' \<and> k_live k'' = []"
proof -
  let ?b = "\<lparr>boot_bbt_page_info = BbtImg bbt_page_initial, boot_meta_page_info = zero_image\<rparr>"
  obtain fs k' where r: "bootblk_flush_duplicated demo_env 1 ?b FSCFTL_BBTPG_WRITE (boot_addr 0 3) demo_kst = Some (fs, k')"
      "\<forall>gs. mset gs = mset fs \<longrightarrow> (\<exists>k''. complete_all gs k' = Some k'' \<and> mset (k_live k'') = mset (k_live demo_kst))"
    using flush_reaches_mirrors [OF demo_fine demo_ok(1), where b = ?b and cmdtype = FSCFTL_BBTPG_WRITE and img = "BbtImg bbt_page_initial"
      and nsid = 1 and pos = "boot_addr 0 3"] by auto
  from r(2) [rule_format, of "rev fs"] r(1) show ?thesis
    by (auto simp: demo_ok)
qed

section \<open>Round trip of the bad-block page\<close>

lemma copy_bbt_luns_from:
  assumes "get_bmi_item tbl (of_nat blk) = Some bmi" "length (bmi_bbt bmi) = 8" "length row = 8" "i \<le> 8"
  shows "copy_bbt_luns tbl blk [i..<8] row = Some (take i row @ drop i (bmi_bbt bmi))"
  using assms(3,4)
proof (induction "8 - i" arbitrary: i row)
  case 0
  then show ?case using assms(2) by simp
next
  case (Suc d)
  then have i: "i < 8" and d: "d = 8 - Suc i" by simp_all
  let ?row = "row[i := bmi_bbt bmi ! i]"
  have "copy_bbt_luns tbl blk [Suc i..<8] ?row = Some (take (Suc i) ?row @ drop (Suc i) (bmi_bbt bmi))"
    by (rule Suc(1) [OF d]) (use Suc(3) i in simp_all)
  moreover have "take (Suc i) ?row @ drop (Suc i) (bmi_bbt bmi) = take i row @ drop i (bmi_bbt bmi)"
    using i Suc(3) assms(2) Cons_nth_drop_Suc [of i "bmi_bbt bmi"] by (simp add: take_Suc_conv_app_nth)
  ultimately show ?case
    unfolding upt_conv_Cons [OF i] using assms(1,2) i Suc(3) by simp
qed

lemma copy_bbt_from:
  assumes "bmi_wf tbl" "length bbt = 128" "\<forall>row \<in> set bbt. length row = 8" "i \<le> 128"
  shows "copy_bbt tbl [i..<128] bbt = Some (take i bbt @ drop i (map bmi_bbt tbl))"
  using assms(2-4)
proof (induction "128 - i" arbitrary: i bbt)
  case 0
  then show ?case using assms(1) by (simp add: bmi_wf_def)
next
  case (Suc d)
  then have i: "i < 128" and d: "d = 128 - Suc i" by simp_all
  have tb: "length tbl = 128" "length (bmi_bbt (tbl ! i)) = 8" "length (bbt ! i) = 8"
    using assms(1) i Suc(3,4) by (simp_all add: bmi_wf_def)
  have get: "get_bmi_item tbl (of_nat i) = Some (tbl ! i)"
    using i tb(1) by (simp add: get_bmi_item_def unsigned_of_nat take_bit_nat_eq_self)
  let ?bbt = "bbt[i := bmi_bbt (tbl ! i)]"
  have row: "copy_bbt_luns tbl i [0..<8] (bbt ! i) = Some (bmi_bbt (tbl ! i))"
    using copy_bbt_luns_from [OF get tb(2,3), of 0] by simp
  have "copy_bbt tbl [Suc i..<128] ?bbt = Some (take (Suc i) ?bbt @ drop (Suc i) (map bmi_bbt tbl))"
    by (rule Suc(1) [OF d]) (use Suc(3,4) i tb in \<open>auto dest!: set_update_subset_insert [THEN subsetD]\<close>)
  moreover have "take (Suc i) ?bbt @ drop (Suc i) (map bmi_bbt tbl) = take i bbt @ drop i (map bmi_bbt tbl)"
    using i Suc(3) tb(1) Cons_nth_drop_Suc [of i "map bmi_bbt tbl"] by (simp add: take_Suc_conv_app_nth)
  ultimately show ?case
    unfolding upt_conv_Cons [OF i] using i Suc(3) row by (simp del: upt_Suc upt_rec_numeral)
qed

definition boot_wf :: "boot \<Rightarrow> bool" where
  "boot_wf b \<longleftrightarrow> (\<exists>p m. boot_bbt_page_info b = BbtImg p \<and> boot_meta_page_info b = MetaImg m \<and> bb_magic p = BOOTBLK_BBT_MDW \<and>
     bm_magic m = BOOTBLK_META_MDW \<and> length (bb_bbt p) = CFG_NAND_BLOCK_NUM \<and> (\<forall>row \<in> set (bb_bbt p). length row = CFG_NAND_LUN_NUM) \<and>
     length (bm_bbt_ch_iter m) = 4 \<and> length (bm_meta_ch_iter m) = 4 \<and>
     (bm_bbt_page_address m = INVALID_PAGE \<or> (\<exists>ch pg. bm_bbt_page_address m = boot_addr ch pg)) \<and>
     (bm_meta_page_address m = INVALID_PAGE \<or> (\<exists>ch pg. bm_meta_page_address m = boot_addr ch pg)))"

lemma next_pos_ok:
  assumes "length iter = 4" "p = INVALID_PAGE \<or> (\<exists>ch pg. p = boot_addr ch pg)"
  shows "\<exists>ch pg. next_pos iter p = Some (boot_addr ch pg)"
  using assms next_pos_first next_pos_step by blast

text \<open>The bad-block page after a flush: the table of every block, and a new position.\<close>

lemma flush_bbt_ok:
  assumes "kernel_fine env" "k_ok k" "bmi_wf tbl" "boot_wf b"
  shows "\<exists>fs b' k' p m. bootblk_flush_bbt_page env nsid tbl b k = Some (fs, b', k') \<and> boot_wf b' \<and> k_ok k' \<and>
    boot_bbt_page_info b' = BbtImg p \<and> bb_bbt p = map bmi_bbt tbl \<and> bb_magic p = BOOTBLK_BBT_MDW \<and> boot_meta_page_info b' = MetaImg m \<and>
    map fl_lun fs = [0..<8] \<and> (\<forall>f \<in> set fs. fl_data f = Some (BbtImg p)) \<and>
    map snd (k_sqes k') = map snd (k_sqes k) @ map (mirror_ppas (bm_bbt_page_address m)) [0..<8]"
proof -
  obtain p m where b: "boot_bbt_page_info b = BbtImg p" "boot_meta_page_info b = MetaImg m" "bb_magic p = BOOTBLK_BBT_MDW"
      "length (bb_bbt p) = 128" "\<forall>row \<in> set (bb_bbt p). length row = 8" "length (bm_bbt_ch_iter m) = 4" "bm_magic m = BOOTBLK_META_MDW"
      "length (bm_meta_ch_iter m) = 4" "bm_bbt_page_address m = INVALID_PAGE \<or> (\<exists>ch pg. bm_bbt_page_address m = boot_addr ch pg)"
      "bm_meta_page_address m = INVALID_PAGE \<or> (\<exists>ch pg. bm_meta_page_address m = boot_addr ch pg)"
    using assms(4) by (auto simp: boot_wf_def)
  obtain ch pg where np: "next_pos (bm_bbt_ch_iter m) (bm_bbt_page_address m) = Some (boot_addr ch pg)"
    using next_pos_ok [OF b(6,9)] by blast
  let ?p = "p\<lparr>bb_bbt := map bmi_bbt tbl\<rparr>" and ?m = "m\<lparr>bm_bbt_page_address := boot_addr ch pg\<rparr>"
  let ?b = "b\<lparr>boot_bbt_page_info := BbtImg ?p, boot_meta_page_info := MetaImg ?m\<rparr>"
  have cp: "copy_bbt tbl [0..<128] (bb_bbt p) = Some (map bmi_bbt tbl)"
    using copy_bbt_from [OF assms(3) b(4,5), of 0] by simp
  obtain fs k' where fs: "flush_mirrors env nsid (Some (BbtImg ?p)) (boot_addr ch pg) [0..<8] k = Some (fs, k')" "k_ok k'"
      "map fl_lun fs = [0..<8]" "\<forall>f \<in> set fs. fl_data f = Some (BbtImg ?p)"
      "map snd (k_sqes k') = map snd (k_sqes k) @ map (mirror_ppas (boot_addr ch pg)) [0..<8]"
    using flush_mirrors_ok [OF assms(1,2)] by blast
  have fl: "bootblk_flush_bbt_page env nsid tbl b k = Some (fs, ?b, k')"
    using b(1,2) cp np fs(1)
    by (simp add: bootblk_flush_bbt_page_def bootblk_get_next_bbt_pos_def bootblk_flush_duplicated_def del: upt_Suc upt_rec_numeral)
  moreover have "boot_wf ?b"
    using b assms(3) by (auto simp: boot_wf_def bmi_wf_def)
  ultimately show ?thesis
    using fs b(3) by (intro exI [of _ fs] exI [of _ ?b] exI [of _ k'] exI [of _ ?p] exI [of _ ?m]) (simp del: upt_Suc upt_rec_numeral)
qed

text \<open>A device that still holds the page: a mirror that can be read delivers it, and one can be read.\<close>

definition device_holds :: "kenv \<Rightarrow> (nat \<Rightarrow> u64 list \<Rightarrow> boot_image) \<Rightarrow> geo_ppa \<Rightarrow> boot_image \<Rightarrow> bool" where
  "device_holds env rdata pos img \<longleftrightarrow>
     (\<forall>N c l. l < CFG_NAND_LUN_NUM \<and> fst (device env N c (mirror_ppas pos l)) = 0 \<longrightarrow> rdata N (mirror_ppas pos l) = img) \<and>
     (\<exists>l < CFG_NAND_LUN_NUM. \<forall>N c. fst (device env N c (mirror_ppas pos l)) = 0)"

lemma get_mirror_holds:
  assumes "kernel_fine env" "k_ok k" "device_holds env rdata pos img" "bootblk_page_mdw_check img cmdtype"
  shows "\<exists>k'. bootblk_get_mirror env rdata nsid cmdtype databuf pos k = Some (0, img, k') \<and> k_live k' = k_live k \<and> k_n k < k_n k'"
proof -
  let ?c = "read_cmd env nsid (Suc (k_n k)) (Suc (Suc (k_n k)))" and ?N = "length (k_sqes k)"
  have rd: "rdata (?N + l) (mirror_ppas pos l) = img" if "l < 8" "good_mirror env rdata ?c cmdtype pos ?N l" for l
    using assms(3) that unfolding device_holds_def good_mirror_def mirror_status_def by simp blast
  obtain l where l: "l < 8" "\<forall>N c. fst (device env N c (mirror_ppas pos l)) = 0"
    using assms(3) by (auto simp: device_holds_def)
  then have "rdata (?N + l) (mirror_ppas pos l) = img"
    using assms(3) unfolding device_holds_def by simp
  then have "good_mirror env rdata ?c cmdtype pos ?N l"
    using l(2) assms(4) by (simp add: good_mirror_def mirror_status_def)
  then have ex: "\<exists>l < 8. good_mirror env rdata ?c cmdtype pos ?N l"
    using l(1) by blast
  obtain r img' k' where r: "bootblk_get_mirror env rdata nsid cmdtype databuf pos k = Some (r, img', k')" "k_live k' = k_live k"
      "k_n k < k_n k'" "r = 0 \<and> (\<exists>l < 8. good_mirror env rdata ?c cmdtype pos ?N l \<and>
       (\<forall>i < l. \<not> good_mirror env rdata ?c cmdtype pos ?N i) \<and> img' = rdata (?N + l) (mirror_ppas pos l))"
    using get_mirror_finds [OF assms(1,2), where nsid = nsid and rdata = rdata and cmdtype = cmdtype and pos = pos and databuf = databuf]
    unfolding if_P [OF ex] by blast
  then have "img' = img" using rd by auto
  with r show ?thesis by blast
qed

lemma recover_bbt_ok:
  assumes "kernel_fine env" "k_ok k" "boot_meta_page_info b = MetaImg m" "device_holds env rdata (bm_bbt_page_address m) img"
    "bootblk_page_mdw_check img FSCFTL_BBTPG_READ"
  shows "\<exists>k'. bootblk_recovery_bbt_page env rdata nsid b k = Some (0, b\<lparr>boot_bbt_page_info := img\<rparr>, k') \<and> k_live k' = k_live k \<and> k_n k < k_n k'"
proof -
  let ?k = "k\<lparr>k_n := Suc (k_n k), k_live := KCmd (k_n k) # k_live k\<rparr>"
  have g: "grant env (k_n k)" and ok: "k_ok ?k"
    using assms(1,2) by (auto simp: kernel_fine_def k_ok_def less_Suc_eq)
  obtain k' where "bootblk_get_mirror env rdata nsid FSCFTL_BBTPG_READ zero_image (bm_bbt_page_address m) ?k = Some (0, img, k')"
      "k_live k' = k_live ?k" "k_n ?k < k_n k'"
    using get_mirror_holds [OF assms(1) ok assms(4,5)] by blast
  then show ?thesis
    using g assms(3) by (simp add: bootblk_recovery_bbt_page_def)
qed



end
