(* ===== verification/Mcp.thy ===== *)
theory Mcp
  imports Bootblk
begin

text \<open>
  Manufacturing initialisation, \<open>build_recovery/mcp.c\<close>: erasing the drive, finding the bad blocks by
  raw reads whose completions mark the table, and filling the list of free raid blocks. The content of
  the flash is an argument.
\<close>

section \<open>Reading the bad-block marks\<close>

text \<open>The byte of a raw read that tells a bad block, and the test of both planes.\<close>

definition bad_mark_offset :: nat where
  "bad_mark_offset = EXP_PPA_SIZE - 3 * NAND_RAW_SIZE"

fun any_bad_plane :: "u8 list \<Rightarrow> nat list \<Rightarrow> bool option" where
  "any_bad_plane buf [] = Some False"
| "any_bad_plane buf (i # is) = do {
     v \<leftarrow> aget buf (i * EXP_PPA_SIZE + bad_mark_offset);
     if v \<noteq> 0xff then Some True else any_bad_plane buf is
   }"

text \<open>
  A raw read in flight: what \<open>nvme_ppa_iod\<close> holds. \<open>rf_ppas\<close> are the words of its address list,
  \<open>rf_slot\<close> its part of the common data buffer, and \<open>rf_done\<close> tells whether the device has
  already filled that part.
\<close>

record raw_flight =
  rf_req :: nat
  rf_cmd :: nat
  rf_ppalist :: nat
  rf_ppas :: "u64 list"
  rf_slot :: nat
  rf_done :: bool

text \<open>The counters \<open>bbt_issu_cnt\<close>, \<open>bbt_cmpl_cnt\<close> and the completion \<open>bbt_completion\<close>.\<close>

record bbt_count =
  bbt_issu_cnt :: u32
  bbt_cmpl_cnt :: u32
  bbt_completion :: bool

definition mark_if_bad :: "u8 list \<Rightarrow> u64 list \<Rightarrow> bmi_item list \<Rightarrow> bmi_item list option" where
  "mark_if_bad buf ppas tbl = do {
     bad \<leftarrow> any_bad_plane buf [0..<CFG_NAND_PLANE_NUM];
     if bad then do {
       w \<leftarrow> aget ppas 0;
       let ppa = (ucast w :: geo_ppa);
       mark_bbt_tbl tbl (ppa_blk ppa) (ppa_lun ppa) (ppa_ch ppa) BADB
     } else Some tbl
   }"

definition count_completion :: "bbt_count \<Rightarrow> bbt_count" where
  "count_completion c = (let n = bbt_cmpl_cnt c + 1; c = c\<lparr>bbt_cmpl_cnt := n\<rparr> in
     if n = bbt_issu_cnt c then c\<lparr>bbt_completion := True\<rparr> else c)"

definition rdpparaw_completion :: "raw_flight \<Rightarrow> (nat \<Rightarrow> u8 list) \<Rightarrow> bmi_item list \<Rightarrow> bbt_count \<Rightarrow> kst \<Rightarrow>
    (bmi_item list \<times> bbt_count \<times> kst) option" where
  "rdpparaw_completion f buf tbl c k = do {
     tbl \<leftarrow> mark_if_bad (buf (rf_slot f)) (rf_ppas f) tbl;
     k \<leftarrow> dma_pool_page_free (rf_ppalist f) k;
     k \<leftarrow> k_free (KCmd (rf_cmd f)) k;
     k \<leftarrow> k_free (KReq (rf_req f)) k;
     Some (tbl, count_completion c, k)
   }"

text \<open>The addresses of one raw read: the given sector on every plane.\<close>

definition raw_ppas :: "geo_ppa \<Rightarrow> u64 list" where
  "raw_ppas ppa = map (\<lambda>i. ucast (set_pl (of_nat i) ppa)) [0..<CFG_NAND_PLANE_NUM]"

text \<open>
  Submission of one raw read into a part of the data buffer. The counter of issued reads is
  incremented after the submission, and also when it failed.
\<close>

definition discovery_submit :: "kenv \<Rightarrow> u32 \<Rightarrow> geo_ppa \<Rightarrow> nat \<Rightarrow> u64 \<Rightarrow> kst \<Rightarrow> (raw_flight option \<times> kst) option" where
  "discovery_submit env nsid ppa slot metadma k = (case k_alloc env KCmd k of
     (None, k) \<Rightarrow> None
   | (Some cmd, k) \<Rightarrow> do {
       (ptr, k) \<leftarrow> dma_pool_page_zalloc env k;
       pl \<leftarrow> ptr;
       k \<leftarrow> copy_ppas pl (raw_ppas ppa) [0..<CFG_NAND_PLANE_NUM] k;
       let c = ppa_command_zero\<lparr>pc_opcode := NVM_OP_RDRAW, pc_nsid := nsid, pc_metadata := metadma,
         pc_nlb := of_nat CFG_NAND_PLANE_NUM - 1, pc_ppalist := bus env pl, pc_control := NVM_IO_SNGL_ACCESS\<rparr>;
       (_, pending, k) \<leftarrow> nvme_submit_ppa_cmd env c True (EXP_PPA_SIZE * CFG_NAND_PLANE_NUM) k;
       Some (map_option (\<lambda>(req, _, _). \<lparr>rf_req = req, rf_cmd = cmd, rf_ppalist = pl, rf_ppas = raw_ppas ppa,
         rf_slot = slot, rf_done = False\<rparr>) pending, k)
     })"

definition discovery_count :: "bbt_count \<Rightarrow> bbt_count" where
  "discovery_count c = c\<lparr>bbt_issu_cnt := bbt_issu_cnt c + 1\<rparr>"

definition discovery_bbt_rdpparaw :: "kenv \<Rightarrow> u32 \<Rightarrow> geo_ppa \<Rightarrow> nat \<Rightarrow> u64 \<Rightarrow> bbt_count \<Rightarrow> kst \<Rightarrow>
    (int \<times> raw_flight option \<times> bbt_count \<times> kst) option" where
  "discovery_bbt_rdpparaw env nsid ppa slot metadma c k = do {
     (f, k) \<leftarrow> discovery_submit env nsid ppa slot metadma k;
     Some (0, f, discovery_count c, k)
   }"

text \<open>The dies of a raid block in the order of the two loops, and the address read on each.\<close>

definition dies :: "(nat \<times> nat) list" where
  "dies = List.product [0..<CFG_NAND_LUN_NUM] [0..<CFG_NAND_CHANNEL_NUM]"

definition die_addr :: "nat \<Rightarrow> nat \<times> nat \<Rightarrow> geo_ppa" where
  "die_addr blk d = set_ppa_nand_addr (of_nat (snd d)) 3 0 (of_nat (fst d)) 0 (of_nat blk)"

definition die_slot :: "nat \<times> nat \<Rightarrow> nat" where
  "die_slot d = snd d + fst d * CFG_NAND_CHANNEL_NUM"

definition die_meta :: "u64 \<Rightarrow> nat \<times> nat \<Rightarrow> u64" where
  "die_meta gmetadma d = gmetadma + of_nat (die_slot d * (CFG_NAND_PLANE_NUM * NAND_RAW_SIZE))"

fun rblk_bbt_discovery :: "kenv \<Rightarrow> u32 \<Rightarrow> nat \<Rightarrow> u64 \<Rightarrow> (nat \<times> nat) list \<Rightarrow> bbt_count \<Rightarrow> kst \<Rightarrow>
    (raw_flight list \<times> bbt_count \<times> kst) option" where
  "rblk_bbt_discovery env nsid blk gmetadma [] c k = Some ([], c, k)"
| "rblk_bbt_discovery env nsid blk gmetadma (d # ds) c k = do {
     (_, f, c, k) \<leftarrow> discovery_bbt_rdpparaw env nsid (die_addr blk d) (die_slot d) (die_meta gmetadma d) c k;
     (fs, c, k) \<leftarrow> rblk_bbt_discovery env nsid blk gmetadma ds c k;
     Some ((case f of None \<Rightarrow> fs | Some f \<Rightarrow> f # fs), c, k)
   }"

section \<open>Choosing the free blocks\<close>

text \<open>The two loops of \<open>rblk_bbt_check_available\<close>; \<open>True\<close> when a LUN has more than 12 bad channels.\<close>

fun too_many_bad :: "u16 \<Rightarrow> nat \<Rightarrow> nat list \<Rightarrow> bool" where
  "too_many_bad bb bb_ch [] = False"
| "too_many_bad bb bb_ch (ch # chs) = (let bb_ch = (if BIT_TEST bb ch then bb_ch + 1 else bb_ch) in
     bb_ch > 12 \<or> too_many_bad bb bb_ch chs)"

fun some_lun_bad :: "u16 list \<Rightarrow> nat list \<Rightarrow> bool option" where
  "some_lun_bad bbt [] = Some False"
| "some_lun_bad bbt (lun # luns) = do {
     bb \<leftarrow> aget bbt lun;
     if too_many_bad bb 0 [0..<CFG_NAND_CHANNEL_NUM] then Some True else some_lun_bad bbt luns
   }"

text \<open>\<open>good_rblk_cnt\<close> and \<open>bad_rblk_cnt\<close> are the two numbers.\<close>

definition rblk_bbt_check_available :: "nat \<Rightarrow> sysmeta \<Rightarrow> nat \<times> nat \<Rightarrow> (sysmeta \<times> nat \<times> nat) option" where
  "rblk_bbt_check_available blk m cnt = do {
     bmi \<leftarrow> get_bmi_item (bmitbl m) (of_nat blk);
     bad \<leftarrow> some_lun_bad (bmi_bbt bmi) [0..<CFG_NAND_LUN_NUM];
     if bad then Some (m, fst cnt, snd cnt + 1)
     else do {
       m \<leftarrow> insert_blk_to_free_list m (of_nat blk);
       Some (m, fst cnt + 1, snd cnt)
     }
   }"

section \<open>Erasing\<close>

definition erase_ppas :: "nat \<Rightarrow> u64 list" where
  "erase_ppas blk = map (\<lambda>d. ucast (set_ppa_nand_addr (of_nat (snd d)) 0 0 (of_nat (fst d)) 0 (of_nat blk))) dies"

definition erase_plmode :: u16 where
  "erase_plmode = (if CFG_NAND_PLANE_NUM = 4 then NVM_IO_QUAD_ACCESS
     else if CFG_NAND_PLANE_NUM = 2 then NVM_IO_DUAL_ACCESS else NVM_IO_SNGL_ACCESS)"

definition erase_rblk_wait :: "kenv \<Rightarrow> u32 \<Rightarrow> nat \<Rightarrow> kst \<Rightarrow> (int \<times> kst) option" where
  "erase_rblk_wait env nsid blk k = (case k_alloc env KCmd k of
     (None, k) \<Rightarrow> Some (- ENOMEM, k)
   | (Some cmd, k) \<Rightarrow> do {
       (ptr, k) \<leftarrow> dma_pool_page_zalloc env k;
       (case ptr of
          None \<Rightarrow> do { k \<leftarrow> k_free (KCmd cmd) k; Some (- ENOMEM, k) }
        | Some pl \<Rightarrow> do {
            k \<leftarrow> copy_ppas pl (erase_ppas blk) [0..<CFG_NAND_CHANNEL_NUM * CFG_NAND_LUN_NUM] k;
            let c = ppa_command_zero\<lparr>pc_opcode := NVM_OP_ERASE, pc_nsid := nsid,
              pc_nlb := of_nat (CFG_NAND_CHANNEL_NUM * CFG_NAND_LUN_NUM) - 1, pc_ppalist := bus env pl, pc_control := erase_plmode\<rparr>;
            (_, k) \<leftarrow> nvme_submit_ppa_cmd_sync env c False 0 k;
            k \<leftarrow> dma_pool_page_free pl k;
            k \<leftarrow> k_free (KCmd cmd) k;
            Some (0, k)
          })
     })"

fun sweepup_loop :: "kenv \<Rightarrow> u32 \<Rightarrow> nat list \<Rightarrow> kst \<Rightarrow> kst option" where
  "sweepup_loop env nsid [] k = Some k"
| "sweepup_loop env nsid (blk # blks) k = do {
     (_, k) \<leftarrow> erase_rblk_wait env nsid blk k;
     sweepup_loop env nsid blks k
   }"

definition sweepup_disk :: "kenv \<Rightarrow> u32 \<Rightarrow> kst \<Rightarrow> kst option" where
  "sweepup_disk env nsid k = sweepup_loop env nsid (rev [0..<CFG_NAND_BLOCK_NUM]) k"

section \<open>Discovery with interleaved completions\<close>

text \<open>
  The reads complete in interrupt context while the loop goes on. The state holds the tables, the
  counters of blocks, the counters of reads, the kernel objects, the common data buffer, the blocks
  still to examine (the first is the current one), the dies of the current block still to read, whether
  a read has been submitted but not yet counted, and the reads in flight.
\<close>

record disc =
  ds_meta :: sysmeta
  ds_rblk :: "nat \<times> nat"
  ds_cnt :: bbt_count
  ds_k :: kst
  ds_buf :: "nat \<Rightarrow> u8 list"
  ds_blks :: "nat list"
  ds_todo :: "(nat \<times> nat) list"
  ds_uncounted :: bool
  ds_flight :: "raw_flight list"

text \<open>
  One step: the loop submits a read or counts it, the device fills the buffer of a read or completes a
  read it has filled, and the loop, woken by the completion, checks its block and goes on with the next.
  \<open>raw\<close> is what the flash returns for an address list. With \<open>patient\<close> the loop is woken only when no
  read is left in flight.
\<close>

inductive disc_step :: "kenv \<Rightarrow> (u64 list \<Rightarrow> u8 list) \<Rightarrow> u32 \<Rightarrow> u64 \<Rightarrow> bool \<Rightarrow> disc \<Rightarrow> disc \<Rightarrow> bool"
  for env raw nsid gmetadma patient where
  disc_submit: "ds_blks s = b # bs \<Longrightarrow> ds_todo s = d # ds \<Longrightarrow> \<not> ds_uncounted s \<Longrightarrow>
    discovery_submit env nsid (die_addr b d) (die_slot d) (die_meta gmetadma d) (ds_k s) = Some (f, k) \<Longrightarrow>
    disc_step env raw nsid gmetadma patient s
      (s\<lparr>ds_k := k, ds_todo := ds, ds_uncounted := True, ds_flight := ds_flight s @ (case f of None \<Rightarrow> [] | Some f \<Rightarrow> [f])\<rparr>)"
| disc_count: "ds_uncounted s \<Longrightarrow>
    disc_step env raw nsid gmetadma patient s (s\<lparr>ds_cnt := discovery_count (ds_cnt s), ds_uncounted := False\<rparr>)"
| disc_fill: "i < length (ds_flight s) \<Longrightarrow> f = ds_flight s ! i \<Longrightarrow> \<not> rf_done f \<Longrightarrow>
    disc_step env raw nsid gmetadma patient s
      (s\<lparr>ds_buf := (ds_buf s)(rf_slot f := raw (rf_ppas f)), ds_flight := (ds_flight s)[i := f\<lparr>rf_done := True\<rparr>]\<rparr>)"
| disc_complete: "ds_flight s = as @ f # fs \<Longrightarrow> rf_done f \<Longrightarrow>
    rdpparaw_completion f (ds_buf s) (bmitbl (ds_meta s)) (ds_cnt s) (ds_k s) = Some (tbl, c, k) \<Longrightarrow>
    disc_step env raw nsid gmetadma patient s
      (s\<lparr>ds_meta := (ds_meta s)\<lparr>bmitbl := tbl\<rparr>, ds_cnt := c, ds_k := k, ds_flight := as @ fs\<rparr>)"
| disc_check: "ds_blks s = b # bs \<Longrightarrow> ds_todo s = [] \<Longrightarrow> \<not> ds_uncounted s \<Longrightarrow> bbt_completion (ds_cnt s) \<Longrightarrow>
    (patient \<longrightarrow> ds_flight s = []) \<Longrightarrow>
    rblk_bbt_check_available b (ds_meta s) (ds_rblk s) = Some (m, n) \<Longrightarrow>
    disc_step env raw nsid gmetadma patient s
      (s\<lparr>ds_meta := m, ds_rblk := n, ds_cnt := (ds_cnt s)\<lparr>bbt_completion := False\<rparr>, ds_blks := bs,
         ds_todo := (if bs = [] then [] else dies)\<rparr>)"

definition disc_blks :: "nat list" where
  "disc_blks = filter (\<lambda>blk. blk \<noteq> 0) (rev [0..<CFG_NAND_BLOCK_NUM])"

definition disc_start :: "sysmeta \<Rightarrow> bbt_count \<Rightarrow> (nat \<Rightarrow> u8 list) \<Rightarrow> kst \<Rightarrow> disc" where
  "disc_start m c buf k = \<lparr>ds_meta = m, ds_rblk = (0, 0), ds_cnt = c\<lparr>bbt_completion := False\<rparr>, ds_k = k, ds_buf = buf,
     ds_blks = disc_blks, ds_todo = dies, ds_uncounted = False, ds_flight = []\<rparr>"

text \<open>
  \<open>fscftl_bbt_discovery\<close>: the two DMA buffers, and between their allocation and release any run of the
  system above that has gone through all blocks. It returns without a trace when a buffer is refused.
\<close>

inductive fscftl_bbt_discovery :: "kenv \<Rightarrow> (u64 list \<Rightarrow> u8 list) \<Rightarrow> u32 \<Rightarrow> bool \<Rightarrow> sysmeta \<times> bbt_count \<times> kst \<Rightarrow>
    sysmeta \<times> bbt_count \<times> kst \<Rightarrow> bool" for env raw nsid patient where
  disc_no_data: "k_alloc env KMap k = (None, k') \<Longrightarrow> fscftl_bbt_discovery env raw nsid patient (m, c, k) (m, c, k')"
| disc_no_meta: "k_alloc env KMap k = (Some data, k1) \<Longrightarrow> k_alloc env KMap k1 = (None, k2) \<Longrightarrow> k_free (KMap data) k2 = Some k' \<Longrightarrow>
    fscftl_bbt_discovery env raw nsid patient (m, c, k) (m, c, k')"
| disc_run: "k_alloc env KMap k = (Some data, k1) \<Longrightarrow> k_alloc env KMap k1 = (Some meta, k2) \<Longrightarrow>
    (disc_step env raw nsid (bus env meta) patient)\<^sup>*\<^sup>* (disc_start m c buf k2) s \<Longrightarrow> ds_blks s = [] \<Longrightarrow>
    k_free (KMap meta) (ds_k s) = Some k3 \<Longrightarrow> k_free (KMap data) k3 = Some k' \<Longrightarrow>
    fscftl_bbt_discovery env raw nsid patient (m, c, k) (ds_meta s, ds_cnt s, k')"

inductive do_manufactory_init :: "kenv \<Rightarrow> (u64 list \<Rightarrow> u8 list) \<Rightarrow> u32 \<Rightarrow> bool \<Rightarrow> sysmeta \<times> bbt_count \<times> boot \<times> kst \<Rightarrow>
    sysmeta \<times> bbt_count \<times> boot \<times> kst \<Rightarrow> flight list \<Rightarrow> bool" for env raw nsid patient where
  "sweepup_disk env nsid k = Some k1 \<Longrightarrow> fscftl_bbt_discovery env raw nsid patient (m, c, k1) (m', c', k2) \<Longrightarrow>
   bootblk_flush_bbt_page env nsid (bmitbl m') b k2 = Some (fs, b1, k3) \<Longrightarrow>
   bootblk_flush_meta_page env nsid POWER_DOWN_UNSAFE b1 k3 = Some (gs, b', k') \<Longrightarrow>
   do_manufactory_init env raw nsid patient (m, c, b, k) (m', c', b', k') (fs @ gs)"

section \<open>The bad-block bits\<close>

definition die_marked :: "bmi_item list \<Rightarrow> nat \<Rightarrow> nat \<times> nat \<Rightarrow> bool" where
  "die_marked tbl b d = bit (bmi_bbt (tbl ! b) ! fst d) (snd d)"

text \<open>A die is bad when the mark of one of its planes is not \<open>0xff\<close>.\<close>

definition die_bad :: "(u64 list \<Rightarrow> u8 list) \<Rightarrow> nat \<Rightarrow> nat \<times> nat \<Rightarrow> bool" where
  "die_bad raw b d \<longleftrightarrow> (\<exists>i < CFG_NAND_PLANE_NUM. raw (raw_ppas (die_addr b d)) ! (i * EXP_PPA_SIZE + bad_mark_offset) \<noteq> 0xff)"

definition raw_sized :: "(u64 list \<Rightarrow> u8 list) \<Rightarrow> bool" where
  "raw_sized raw \<longleftrightarrow> (\<forall>ps. length (raw ps) = EXP_PPA_SIZE * CFG_NAND_PLANE_NUM)"

lemma dies_mem: "d \<in> set dies \<longleftrightarrow> fst d < CFG_NAND_LUN_NUM \<and> snd d < CFG_NAND_CHANNEL_NUM"
  by (cases d) (auto simp: dies_def simp del: upt_rec_numeral)

lemma dies_distinct: "distinct dies"
  unfolding dies_def by (intro distinct_product) simp_all

lemma dies_first: "dies = (0, 0) # tl dies"
  unfolding dies_def by (simp add: upt_conv_Cons [of 0])

lemma dies_tl: "d \<in> set dies \<Longrightarrow> d = (0, 0) \<or> d \<in> set (tl dies)"
  using dies_first by (metis set_ConsD)

lemma die_slot_inverse: "d \<in> set dies \<Longrightarrow> d = (die_slot d div CFG_NAND_CHANNEL_NUM, die_slot d mod CFG_NAND_CHANNEL_NUM)"
  by (cases d) (simp add: dies_mem die_slot_def)

lemma die_slot_inj: "d \<in> set dies \<Longrightarrow> e \<in> set dies \<Longrightarrow> die_slot d = die_slot e \<longleftrightarrow> d = e"
  using die_slot_inverse [of d] die_slot_inverse [of e] by metis

lemma any_bad_plane_iff:
  "\<forall>i \<in> set is. i * EXP_PPA_SIZE + bad_mark_offset < length buf \<Longrightarrow>
   any_bad_plane buf is = Some (\<exists>i \<in> set is. buf ! (i * EXP_PPA_SIZE + bad_mark_offset) \<noteq> 0xff)"
  by (induction "is") auto

lemma any_bad_die: "raw_sized raw \<Longrightarrow>
    any_bad_plane (raw (raw_ppas (die_addr b d))) [0..<CFG_NAND_PLANE_NUM] = Some (die_bad raw b d)"
  by (subst any_bad_plane_iff) (auto simp: raw_sized_def die_bad_def bad_mark_offset_def simp del: upt_rec_numeral)

lemma raw_ppas_hd:
  assumes "b < CFG_NAND_BLOCK_NUM" "d \<in> set dies"
  defines "p \<equiv> (ucast (raw_ppas (die_addr b d) ! 0) :: geo_ppa)"
  shows "raw_ppas (die_addr b d) \<noteq> []" "ppa_blk p = of_nat b" "ppa_lun p = of_nat (fst d)" "ppa_ch p = of_nat (snd d)"
proof -
  have f: "ppa_blk (set_pl v q) = ppa_blk q" "ppa_lun (set_pl v q) = ppa_lun q" "ppa_ch (set_pl v q) = ppa_ch q" for v q
    by (simp_all add: ppa_defs bf_simps)
  have uc: "(ucast (ucast q :: u64) :: u32) = q" for q
    by (intro bit_word_eqI) (simp add: bit_ucast_iff)
  have p: "p = set_pl 0 (die_addr b d)"
    by (simp add: p_def raw_ppas_def uc)
  show "raw_ppas (die_addr b d) \<noteq> []"
    by (simp add: raw_ppas_def)
  show "ppa_blk p = of_nat b" "ppa_lun p = of_nat (fst d)" "ppa_ch p = of_nat (snd d)"
    using assms(1,2) unfolding p f die_addr_def
    by (simp_all add: dies_mem word_unat_eq_iff unsigned_take_bit_eq unsigned_ucast_eq unsigned_of_nat take_bit_nat_eq_self)
qed

lemma pool_rep_bbt [simp]:
  "i < length tbl \<Longrightarrow> pool_rep (tbl[i := (tbl ! i)\<lparr>bmi_bbt := v\<rparr>], f) xs = pool_rep (tbl, f) xs"
proof -
  assume i: "i < length tbl"
  have "bl.linked (tbl[i := (tbl ! i)\<lparr>bmi_bbt := v\<rparr>]) h t xs \<longleftrightarrow> bl.linked tbl h t xs" for h t
    using i by (auto simp: bl.linked_def nth_list_update)
  then show ?thesis
    by (simp add: pool_rep_def)
qed

text \<open>One completion marks its die exactly when the data it sees is bad.\<close>

lemma mark_if_bad_ok:
  assumes "bmi_wf tbl" "pool_rep (tbl, f) xs" "raw_sized raw" "b < CFG_NAND_BLOCK_NUM" "d \<in> set dies"
  shows "\<exists>tbl'. mark_if_bad (raw (raw_ppas (die_addr b d))) (raw_ppas (die_addr b d)) tbl = Some tbl' \<and> bmi_wf tbl' \<and>
    pool_rep (tbl', f) xs \<and>
    (\<forall>b' d'. b' < CFG_NAND_BLOCK_NUM \<longrightarrow> d' \<in> set dies \<longrightarrow>
      die_marked tbl' b' d' = (die_marked tbl b' d' \<or> (b' = b \<and> d' = d \<and> die_bad raw b d)))"
proof (cases "die_bad raw b d")
  case True
  let ?t = "tbl[b := (tbl ! b)\<lparr>bmi_bbt := (bmi_bbt (tbl ! b))[fst d := BIT_SET (bmi_bbt (tbl ! b) ! fst d) (snd d)]\<rparr>]"
  have r: "fst d < CFG_NAND_LUN_NUM" "snd d < CFG_NAND_CHANNEL_NUM"
    using assms(5) by (simp_all add: dies_mem)
  then have u: "unat (of_nat b :: u32) = b" "unat (of_nat (fst d) :: u32) = fst d" "unat (of_nat (snd d) :: u32) = snd d"
    using assms(4) by (simp_all add: unsigned_of_nat take_bit_nat_eq_self)
  have len: "b < length tbl" "fst d < length (bmi_bbt (tbl ! b))"
    using assms(1,4) r by (auto simp: bmi_wf_def)
  have "mark_bbt_tbl tbl (of_nat b) (of_nat (fst d)) (of_nat (snd d)) BADB = Some ?t"
    using mark_bbt_at [OF assms(1), of "of_nat b" "of_nat (fst d)" "of_nat (snd d)" BADB] r assms(4) u
    by (simp add: die_in_range_def)
  then have "mark_if_bad (raw (raw_ppas (die_addr b d))) (raw_ppas (die_addr b d)) tbl = Some ?t"
    using True raw_ppas_hd [OF assms(4,5)] unfolding mark_if_bad_def any_bad_die [OF assms(3)] by (simp add: Let_def)
  moreover have "bmi_wf ?t"
    using assms(1) len by (auto simp: bmi_wf_def dest!: set_update_subset_insert [THEN subsetD])
  moreover have "die_marked ?t b' d' = (die_marked tbl b' d' \<or> (b' = b \<and> d' = d \<and> die_bad raw b d))" for b' d'
    using len True r by (cases d; cases d') (auto simp: die_marked_def nth_list_update bit_BIT_SET split: if_splits)
  ultimately show ?thesis
    using assms(2) len by auto
next
  case False
  with assms(1,2) show ?thesis
    unfolding mark_if_bad_def any_bad_die [OF assms(3)] by auto
qed

text \<open>The test of a block counts the marked channels of each LUN.\<close>

definition bad_channels :: "(nat \<times> nat \<Rightarrow> bool) \<Rightarrow> nat \<Rightarrow> nat" where
  "bad_channels bad lun = length (filter (\<lambda>ch. bad (lun, ch)) [0..<CFG_NAND_CHANNEL_NUM])"

definition blk_usable :: "(nat \<times> nat \<Rightarrow> bool) \<Rightarrow> bool" where
  "blk_usable bad \<longleftrightarrow> (\<forall>lun < CFG_NAND_LUN_NUM. bad_channels bad lun \<le> 12)"

lemma bad_channels_le_1:
  assumes "\<And>ch. ch < CFG_NAND_CHANNEL_NUM \<Longrightarrow> bad (lun, ch) \<Longrightarrow> ch = 0"
  shows "bad_channels bad lun \<le> 1"
proof -
  let ?A = "{i. i < length [0..<CFG_NAND_CHANNEL_NUM] \<and> bad (lun, [0..<CFG_NAND_CHANNEL_NUM] ! i)}"
  have "?A \<subseteq> {0}"
    using assms by (auto simp del: upt_rec_numeral)
  from card_mono [OF _ this] show ?thesis
    by (simp add: bad_channels_def length_filter_conv_card del: upt_rec_numeral)
qed

lemma too_many_bad_iff: "n \<le> 12 \<Longrightarrow> too_many_bad bb n chs \<longleftrightarrow> 12 < n + length (filter (bit bb) chs)"
proof (induction chs arbitrary: n)
  case (Cons ch chs)
  then show ?case
    using Cons.IH [of n] Cons.IH [of "Suc n"] by (cases "n = 12") (auto simp: Let_def BIT_TEST_iff)
qed simp

lemma some_lun_bad_iff:
  "\<forall>lun \<in> set luns. lun < length bbt \<Longrightarrow> some_lun_bad bbt luns =
    Some (\<exists>lun \<in> set luns. 12 < length (filter (bit (bbt ! lun)) [0..<CFG_NAND_CHANNEL_NUM]))"
  by (induction luns) (auto simp: too_many_bad_iff simp del: upt_rec_numeral)

lemma put_keeps_bbt:
  assumes "get_bmi_item t b = Some x" "put_bmi_item t b y = Some t'" "bmi_bbt y = bmi_bbt x"
  shows "map bmi_bbt t' = map bmi_bbt t"
  using assms by (auto simp: get_bmi_item_def put_bmi_item_def res_simps bind_eq_Some_conv map_update list_update_same_conv)

lemma push_keeps_bbt: "push_blk_to_pool t f b = Some (t', f') \<Longrightarrow> map bmi_bbt t' = map bmi_bbt t"
  unfolding push_blk_to_pool_def
  by (auto simp: Let_def bind_eq_Some_conv split: if_splits prod.splits dest!: put_keeps_bbt)

lemma insert_keeps_bbt: "insert_blk_to_free_list m b = Some m' \<Longrightarrow> map bmi_bbt (bmitbl m') = map bmi_bbt (bmitbl m)"
  unfolding insert_blk_to_free_list_def
  by (auto simp: bind_eq_Some_conv split: prod.splits dest!: put_keeps_bbt push_keeps_bbt)

lemma marked_by_map: "map bmi_bbt t' = map bmi_bbt t \<Longrightarrow> bmi_wf t \<Longrightarrow> bmi_wf t' \<and>
    (b < CFG_NAND_BLOCK_NUM \<longrightarrow> die_marked t' b d = die_marked t b d)"
  unfolding bmi_wf_def die_marked_def
  by (metis (no_types, lifting) in_set_conv_nth length_map nth_map)

lemma check_available_ok:
  assumes "bmi_wf (bmitbl m)" "pool_rep (free_pool m) xs" "b < CFG_NAND_BLOCK_NUM" "b \<notin> set xs"
  defines "good \<equiv> blk_usable (die_marked (bmitbl m) b)"
  shows "\<exists>m'. rblk_bbt_check_available b m n = Some (m', if good then (fst n + 1, snd n) else (fst n, snd n + 1)) \<and>
    bmi_wf (bmitbl m') \<and> pool_rep (free_pool m') (if good then xs @ [b] else xs) \<and>
    (\<forall>b' d. b' < CFG_NAND_BLOCK_NUM \<longrightarrow> die_marked (bmitbl m') b' d = die_marked (bmitbl m) b' d)"
proof -
  let ?bmi = "bmitbl m ! b"
  have u: "unat (of_nat b :: u16) = b"
    using assms(3) by (simp add: unsigned_of_nat take_bit_nat_eq_self)
  have "get_bmi_item (bmitbl m) (of_nat b) = Some ?bmi" "length (bmi_bbt ?bmi) = CFG_NAND_LUN_NUM"
    using assms(1,3) u by (auto simp: get_bmi_in bmi_wf_def)
  moreover from this(2) have "some_lun_bad (bmi_bbt ?bmi) [0..<CFG_NAND_LUN_NUM] = Some (\<not> good)"
    by (subst some_lun_bad_iff) (auto simp: good_def blk_usable_def bad_channels_def die_marked_def not_le Bex_def simp del: upt_rec_numeral)
  ultimately have *: "rblk_bbt_check_available b m n = (if \<not> good then Some (m, fst n, snd n + 1)
      else do { m \<leftarrow> insert_blk_to_free_list m (of_nat b); Some (m, fst n + 1, snd n) })"
    unfolding rblk_bbt_check_available_def by simp
  show ?thesis
  proof (cases good)
    case True
    obtain m' where i: "insert_blk_to_free_list m (of_nat b) = Some m'" "pool_rep (free_pool m') (xs @ [b])"
      using insert_blk_to_free_list_ok [OF assms(2-4)] by blast
    with True show ?thesis
      using * marked_by_map [OF insert_keeps_bbt [OF i(1)] assms(1)] by auto
  next
    case False
    with assms * show ?thesis by auto
  qed
qed

section \<open>Invariant of the discovery\<close>

definition rf_res :: "raw_flight \<Rightarrow> kres list" where
  "rf_res f = [KPage (rf_ppalist f), KCmd (rf_cmd f), KReq (rf_req f)]"

definition flight_of :: "nat \<Rightarrow> raw_flight \<Rightarrow> nat \<times> nat \<Rightarrow> bool" where
  "flight_of b f d \<longleftrightarrow> rf_ppas f = raw_ppas (die_addr b d) \<and> rf_slot f = die_slot d"

definition disc_cmd :: "kenv \<Rightarrow> u32 \<Rightarrow> nat \<Rightarrow> u64 \<Rightarrow> nvme_ppa_command" where
  "disc_cmd env nsid pl metadma = ppa_command_zero\<lparr>pc_opcode := NVM_OP_RDRAW, pc_nsid := nsid, pc_metadata := metadma,
     pc_nlb := of_nat CFG_NAND_PLANE_NUM - 1, pc_ppalist := bus env pl, pc_control := NVM_IO_SNGL_ACCESS\<rparr>"

lemma discovery_submit_ok:
  assumes "kernel_fine env" "k_ok k"
  defines "n \<equiv> k_n k"
  shows "\<exists>k'. discovery_submit env nsid ppa slot md k = Some (Some \<lparr>rf_req = Suc (Suc n), rf_cmd = n, rf_ppalist = Suc n,
      rf_ppas = raw_ppas ppa, rf_slot = slot, rf_done = False\<rparr>, k') \<and> k_ok k' \<and>
    k_live k' = KReq (Suc (Suc n)) # KPage (Suc n) # KCmd n # k_live k \<and>
    k_sqes k' = k_sqes k @ [(disc_cmd env nsid (Suc n) md, raw_ppas ppa)]"
proof -
  have l: "length (raw_ppas ppa) = 2" "take 2 (raw_ppas ppa) = raw_ppas ppa"
    by (simp_all add: raw_ppas_def)
  define z :: "u64 list" where "z = drop 2 (replicate PAGE_WORDS 0)"
  let ?k1 = "k\<lparr>k_n := Suc (Suc n), k_live := KPage (Suc n) # KCmd n # k_live k, k_page := (k_page k)(Suc n := raw_ppas ppa @ z)\<rparr>"
  have cp: "copy_ppas (Suc n) (raw_ppas ppa) [0..<2] (k\<lparr>k_n := Suc (Suc n), k_live := KPage (Suc n) # KCmd n # k_live k,
      k_page := (k_page k)(Suc n := replicate PAGE_WORDS 0)\<rparr>) = Some ?k1"
    by (subst copy_ppas_ok) (simp_all add: l z_def)
  let ?c = "disc_cmd env nsid (Suc n) md"
  have sq: "sqe_ppas env (?k1\<lparr>k_n := Suc (Suc (Suc n)), k_live := KReq (Suc (Suc n)) # k_live ?k1\<rparr>) ?c = raw_ppas ppa"
    by (rule trans [OF sqe_many [of _ 2 _ _ "raw_ppas ppa" z]]) (simp_all add: disc_cmd_def page_at_def l)
  have "discovery_submit env nsid ppa slot md k = do {
      (_, pending, k) \<leftarrow> nvme_submit_ppa_cmd env ?c True (EXP_PPA_SIZE * CFG_NAND_PLANE_NUM) ?k1;
      Some (map_option (\<lambda>(req, _, _). \<lparr>rf_req = req, rf_cmd = n, rf_ppalist = Suc n, rf_ppas = raw_ppas ppa,
         rf_slot = slot, rf_done = False\<rparr>) pending, k) }"
    using assms(1) cp by (simp add: discovery_submit_def kernel_fine_def n_def disc_cmd_def Let_def del: upt_rec_numeral upt_Suc)
  then show ?thesis
    using assms sq by (auto simp: nvme_submit_ppa_cmd_def nvme_submit_ppa_cmd_core_def Let_def kernel_fine_def k_ok_def less_Suc_eq
      split: prod.splits)
qed

lemma free_three:
  assumes "k_ok k" "distinct (rf_res f)" "set (rf_res f) \<subseteq> set (k_live k)"
  shows "\<exists>k'. (do { k \<leftarrow> dma_pool_page_free (rf_ppalist f) k; k \<leftarrow> k_free (KCmd (rf_cmd f)) k; k_free (KReq (rf_req f)) k }) = Some k' \<and>
    k_ok k' \<and> k_n k' = k_n k \<and> set (k_live k) - set (rf_res f) \<subseteq> set (k_live k')"
  using assms
  by (auto simp: dma_pool_page_free_def rf_res_def k_ok_def dest: notin_set_remove1 set_remove1_subset [THEN subsetD])
    (metis in_set_remove1)

definition disc_inv :: "(u64 list \<Rightarrow> u8 list) \<Rightarrow> disc \<Rightarrow> nat list \<Rightarrow> (nat \<times> nat) list \<Rightarrow> bool" where
  "disc_inv raw s bs D \<longleftrightarrow> k_ok (ds_k s) \<and> bmi_wf (bmitbl (ds_meta s)) \<and>
     distinct (concat (map rf_res (ds_flight s))) \<and> set (concat (map rf_res (ds_flight s))) \<subseteq> set (k_live (ds_k s)) \<and>
     disc_blks = bs @ ds_blks s \<and> list_all2 (flight_of (hd (ds_blks s))) (ds_flight s) D \<and>
     distinct (D @ ds_todo s) \<and> set (D @ ds_todo s) \<subseteq> set dies \<and> (ds_blks s = [] \<longrightarrow> D = [] \<and> ds_todo s = []) \<and>
     (\<forall>f \<in> set (ds_flight s). rf_done f \<longrightarrow> ds_buf s (rf_slot f) = raw (rf_ppas f)) \<and>
     (\<forall>b d. b < CFG_NAND_BLOCK_NUM \<longrightarrow> d \<in> set dies \<longrightarrow> die_marked (bmitbl (ds_meta s)) b d =
       (die_bad raw b d \<and> (b \<in> set bs \<or> b \<in> set (take 1 (ds_blks s)) \<and> d \<notin> set (D @ ds_todo s)))) \<and>
     pool_rep (free_pool (ds_meta s)) (filter (\<lambda>b. blk_usable (die_bad raw b)) bs) \<and>
     ds_rblk s = (length (filter (\<lambda>b. blk_usable (die_bad raw b)) bs), length (filter (\<lambda>b. \<not> blk_usable (die_bad raw b)) bs))"

lemma disc_invD:
  assumes "disc_inv raw s bs D"
  shows "k_ok (ds_k s)" "bmi_wf (bmitbl (ds_meta s))" "distinct (concat (map rf_res (ds_flight s)))"
    "set (concat (map rf_res (ds_flight s))) \<subseteq> set (k_live (ds_k s))" "disc_blks = bs @ ds_blks s"
    "list_all2 (flight_of (hd (ds_blks s))) (ds_flight s) D" "distinct (D @ ds_todo s)" "set (D @ ds_todo s) \<subseteq> set dies"
    "ds_blks s = [] \<Longrightarrow> D = [] \<and> ds_todo s = []"
    "f \<in> set (ds_flight s) \<Longrightarrow> rf_done f \<Longrightarrow> ds_buf s (rf_slot f) = raw (rf_ppas f)"
    "b < CFG_NAND_BLOCK_NUM \<Longrightarrow> d \<in> set dies \<Longrightarrow> die_marked (bmitbl (ds_meta s)) b d =
       (die_bad raw b d \<and> (b \<in> set bs \<or> b \<in> set (take 1 (ds_blks s)) \<and> d \<notin> set (D @ ds_todo s)))"
    "pool_rep (free_pool (ds_meta s)) (filter (\<lambda>b. blk_usable (die_bad raw b)) bs)"
    "ds_rblk s = (length (filter (\<lambda>b. blk_usable (die_bad raw b)) bs), length (filter (\<lambda>b. \<not> blk_usable (die_bad raw b)) bs))"
  using assms unfolding disc_inv_def by blast+

lemma disc_blks_mem: "b \<in> set disc_blks \<longleftrightarrow> 0 < b \<and> b < CFG_NAND_BLOCK_NUM"
  by (auto simp: disc_blks_def simp del: upt_rec_numeral)

lemma disc_blks_ne: "disc_blks \<noteq> []"
  using disc_blks_mem [of 1] by auto

lemma disc_blks_distinct: "distinct disc_blks"
  by (simp add: disc_blks_def del: upt_rec_numeral)

lemma disc_blks_split:
  assumes "disc_blks = bs @ b # bs'"
  shows "b < CFG_NAND_BLOCK_NUM" "b \<notin> set bs" "b \<notin> set bs'" "distinct bs'"
  using disc_blks_mem [of b] disc_blks_distinct unfolding assms by simp_all

lemma disc_submit_inv:
  assumes i: "disc_inv raw s bs D" and env: "kernel_fine env" and s: "ds_blks s = b # bs'" "ds_todo s = d # ds"
    and f: "discovery_submit env nsid (die_addr b d) (die_slot d) md (ds_k s) = Some (f, k)"
  shows "disc_inv raw (s\<lparr>ds_k := k, ds_todo := ds, ds_uncounted := u,
      ds_flight := ds_flight s @ (case f of None \<Rightarrow> [] | Some f \<Rightarrow> [f])\<rparr>) bs (D @ [d])"
proof -
  note I = disc_invD [OF i]
  let ?n = "k_n (ds_k s)"
  let ?f = "\<lparr>rf_req = Suc (Suc ?n), rf_cmd = ?n, rf_ppalist = Suc ?n, rf_ppas = raw_ppas (die_addr b d), rf_slot = die_slot d, rf_done = False\<rparr>"
  have k: "f = Some ?f" "k_ok k" "k_live k = KReq (Suc (Suc ?n)) # KPage (Suc ?n) # KCmd ?n # k_live (ds_k s)"
    using discovery_submit_ok [OF env I(1), of nsid "die_addr b d" "die_slot d" md] f by auto
  have "set (rf_res ?f) \<inter> set (k_live (ds_k s)) = {}"
    using I(1) by (auto simp: rf_res_def k_ok_def)
  then have "set (rf_res ?f) \<inter> set (concat (map rf_res (ds_flight s))) = {}" "distinct (rf_res ?f)" "set (rf_res ?f) \<subseteq> set (k_live k)"
    using I(4) by (auto simp: rf_res_def k(3))
  moreover have "list_all2 (flight_of b) (ds_flight s @ [?f]) (D @ [d])"
    using I(6) s by (intro list_all2_appendI) (simp_all add: flight_of_def)
  ultimately show ?thesis
    using I(1-5,7-13) k s unfolding disc_inv_def by auto
qed

lemma count_inv: "disc_inv raw s bs D \<Longrightarrow> disc_inv raw (s\<lparr>ds_cnt := c, ds_uncounted := u\<rparr>) bs D"
  by (simp add: disc_inv_def)

lemma fill_inv:
  assumes i: "disc_inv raw s bs D" and n: "n < length (ds_flight s)" "f = ds_flight s ! n"
  shows "disc_inv raw (s\<lparr>ds_buf := (ds_buf s)(rf_slot f := raw (rf_ppas f)), ds_flight := (ds_flight s)[n := f\<lparr>rf_done := True\<rparr>]\<rparr>) bs D"
proof -
  note I = disc_invD [OF i]
  have res: "map rf_res ((ds_flight s)[n := f\<lparr>rf_done := True\<rparr>]) = map rf_res (ds_flight s)"
    using n by (simp add: map_update rf_res_def list_update_same_conv)
  have l: "list_all2 (flight_of (hd (ds_blks s))) ((ds_flight s)[n := f\<lparr>rf_done := True\<rparr>]) D"
    using I(6) n by (auto simp: list_all2_conv_all_nth nth_list_update flight_of_def)
  have "((ds_buf s)(rf_slot f := raw (rf_ppas f))) (rf_slot g) = raw (rf_ppas g)"
    if g: "g \<in> set ((ds_flight s)[n := f\<lparr>rf_done := True\<rparr>])" "rf_done g" for g
  proof -
    obtain j where j: "j < length (ds_flight s)" "g = (ds_flight s)[n := f\<lparr>rf_done := True\<rparr>] ! j"
      using g(1) by (auto simp: in_set_conv_nth)
    show ?thesis
    proof (cases "j = n")
      case True
      with j n show ?thesis by simp
    next
      case False
      have "D ! j \<noteq> D ! n" "D ! j \<in> set dies" "D ! n \<in> set dies"
        using False j(1) n(1) I(7,8) list_all2_lengthD [OF I(6)] by (auto simp: nth_eq_iff_index_eq)
      then have "rf_slot g \<noteq> rf_slot f"
        using False j n I(6) die_slot_inj by (auto simp: list_all2_conv_all_nth flight_of_def)
      with False j g(2) I(10) show ?thesis by simp
    qed
  qed
  with I l show ?thesis
    unfolding disc_inv_def by (simp add: res)
qed


lemma disc_complete_inv:
  assumes i: "disc_inv raw s bs D" and raw: "raw_sized raw" and fl: "ds_flight s = as @ f # fs" "rf_done f"
  shows "\<exists>tbl k as' d ds'. D = as' @ d # ds' \<and> length as' = length as \<and>
    rdpparaw_completion f (ds_buf s) (bmitbl (ds_meta s)) (ds_cnt s) (ds_k s) = Some (tbl, count_completion (ds_cnt s), k) \<and>
    disc_inv raw (s\<lparr>ds_meta := (ds_meta s)\<lparr>bmitbl := tbl\<rparr>, ds_cnt := count_completion (ds_cnt s), ds_k := k, ds_flight := as @ fs\<rparr>)
      bs (as' @ ds')"
proof -
  note I = disc_invD [OF i]
  obtain as' d ds' where D: "D = as' @ d # ds'" and l: "list_all2 (flight_of (hd (ds_blks s))) as as'"
      "flight_of (hd (ds_blks s)) f d" "list_all2 (flight_of (hd (ds_blks s))) fs ds'"
    using I(6) by (auto simp: fl list_all2_append1 list_all2_Cons1)
  then obtain b bs' where b: "ds_blks s = b # bs'"
    using I(9) by (cases "ds_blks s") auto
  have dr: "b < CFG_NAND_BLOCK_NUM" "d \<in> set dies" "b \<notin> set bs"
    using disc_blks_split [OF I(5) [unfolded b]] I(8) D by auto
  have buf: "ds_buf s (rf_slot f) = raw (raw_ppas (die_addr b d))" "rf_ppas f = raw_ppas (die_addr b d)"
    using I(10) [of f] fl l(2) b by (simp_all add: flight_of_def)
  obtain tbl where t: "mark_if_bad (raw (raw_ppas (die_addr b d))) (raw_ppas (die_addr b d)) (bmitbl (ds_meta s)) = Some tbl"
      "bmi_wf tbl" "pool_rep (tbl, free_blk_pool (statetbl (ds_meta s))) (filter (\<lambda>b. blk_usable (die_bad raw b)) bs)"
      "\<And>b' d'. b' < CFG_NAND_BLOCK_NUM \<Longrightarrow> d' \<in> set dies \<Longrightarrow>
        die_marked tbl b' d' = (die_marked (bmitbl (ds_meta s)) b' d' \<or> (b' = b \<and> d' = d \<and> die_bad raw b d))"
    using mark_if_bad_ok [OF I(2,12) raw dr(1,2)] by blast
  obtain k where k: "(do { k \<leftarrow> dma_pool_page_free (rf_ppalist f) (ds_k s); k \<leftarrow> k_free (KCmd (rf_cmd f)) k; k_free (KReq (rf_req f)) k }) = Some k"
      "k_ok k" "set (k_live (ds_k s)) - set (rf_res f) \<subseteq> set (k_live k)"
    using free_three [OF I(1), of f] I(3,4) fl by auto
  have "set (concat (map rf_res (as @ fs))) \<inter> set (rf_res f) = {}" "set (concat (map rf_res (as @ fs))) \<subseteq> set (k_live (ds_k s))"
    using I(3,4) fl by auto
  then have live: "set (concat (map rf_res (as @ fs))) \<subseteq> set (k_live k)" "distinct (concat (map rf_res (as @ fs)))"
    using k(3) I(3) fl by (blast, auto)
  have rest: "distinct ((as' @ ds') @ ds_todo s)" "set ((as' @ ds') @ ds_todo s) \<subseteq> set dies" "d \<notin> set ((as' @ ds') @ ds_todo s)"
    using I(7,8) D by auto
  have m: "die_marked tbl b' d' = (die_bad raw b' d' \<and> (b' \<in> set bs \<or> b' \<in> set (take 1 (ds_blks s)) \<and> d' \<notin> set ((as' @ ds') @ ds_todo s)))"
    if "b' < CFG_NAND_BLOCK_NUM" "d' \<in> set dies" for b' d'
    using t(4) [OF that] I(11) [OF that] rest(3) D b by auto
  have "rdpparaw_completion f (ds_buf s) (bmitbl (ds_meta s)) (ds_cnt s) (ds_k s) = Some (tbl, count_completion (ds_cnt s), k)"
    using k(1) t(1) by (auto simp: rdpparaw_completion_def buf bind_eq_Some_conv)
  moreover have "disc_inv raw (s\<lparr>ds_meta := (ds_meta s)\<lparr>bmitbl := tbl\<rparr>, ds_cnt := count_completion (ds_cnt s), ds_k := k, ds_flight := as @ fs\<rparr>)
      bs (as' @ ds')"
    using I(5,9,10,13) k(2) live rest(1,2) m t(2,3) l b D fl
    unfolding disc_inv_def by (auto intro: list_all2_appendI)
  ultimately show ?thesis
    using D list_all2_lengthD [OF l(1)] by metis
qed

lemma check_inv:
  assumes i: "disc_inv raw s bs []" and s: "ds_blks s = b # bs'" "ds_todo s = []" "ds_flight s = []"
  shows "\<exists>m n. rblk_bbt_check_available b (ds_meta s) (ds_rblk s) = Some (m, n) \<and>
    disc_inv raw (s\<lparr>ds_meta := m, ds_rblk := n, ds_cnt := c, ds_blks := bs', ds_todo := (if bs' = [] then [] else dies)\<rparr>) (bs @ [b]) []"
proof -
  note I = disc_invD [OF i]
  let ?P = "\<lambda>b. blk_usable (die_bad raw b)"
  have b: "b < CFG_NAND_BLOCK_NUM" "b \<notin> set bs" "b \<notin> set bs'" "distinct bs'"
    using disc_blks_split [OF I(5) [unfolded s]] by auto
  have "bad_channels (die_marked (bmitbl (ds_meta s)) b) lun = bad_channels (die_bad raw b) lun" if "lun < CFG_NAND_LUN_NUM" for lun
    unfolding bad_channels_def
    by (rule arg_cong [where f = length], rule filter_cong) (use I(11) b s that in \<open>auto simp: dies_mem simp del: upt_rec_numeral\<close>)
  then have g: "blk_usable (die_marked (bmitbl (ds_meta s)) b) = ?P b"
    by (auto simp: blk_usable_def)
  let ?n = "if ?P b then (fst (ds_rblk s) + 1, snd (ds_rblk s)) else (fst (ds_rblk s), snd (ds_rblk s) + 1)"
  obtain m where m: "rblk_bbt_check_available b (ds_meta s) (ds_rblk s) = Some (m, ?n)"
      "bmi_wf (bmitbl m)" "pool_rep (free_pool m) (if ?P b then filter ?P bs @ [b] else filter ?P bs)"
      "\<And>b' d. b' < CFG_NAND_BLOCK_NUM \<Longrightarrow> die_marked (bmitbl m) b' d = die_marked (bmitbl (ds_meta s)) b' d"
    using check_available_ok [OF I(2,12) b(1), of "ds_rblk s"] b(2) unfolding g by auto
  have mk: "die_marked (bmitbl m) b' d = (die_bad raw b' d \<and> (b' \<in> set (bs @ [b]) \<or>
      b' \<in> set (take 1 bs') \<and> d \<notin> set ([] @ (if bs' = [] then [] else dies))))"
    if "b' < CFG_NAND_BLOCK_NUM" "d \<in> set dies" for b' d
    using m(4) [OF that(1), of d] I(11) [OF that] b that s by (cases bs') auto
  have "disc_inv raw (s\<lparr>ds_meta := m, ds_rblk := ?n, ds_cnt := c, ds_blks := bs', ds_todo := (if bs' = [] then [] else dies)\<rparr>) (bs @ [b]) []"
    unfolding disc_inv_def using I(1,5,13) m(2,3) mk s dies_distinct by auto
  with m(1) show ?thesis by blast
qed

lemma disc_step_inv:
  assumes "disc_step env raw nsid gm True s s'" "disc_inv raw s bs D" "kernel_fine env" "raw_sized raw"
  shows "\<exists>bs' D'. disc_inv raw s' bs' D'"
  using assms(1,2)
proof cases
  case (disc_complete as f fs tbl c k)
  then show ?thesis
    using disc_complete_inv [OF assms(2,4) disc_complete(2,3)] by auto
next
  case (disc_check b bs0 m n)
  moreover have "D = []"
    using disc_invD(6) [OF assms(2)] disc_check by simp
  ultimately show ?thesis
    using check_inv [of raw s bs b bs0] assms(2) by fastforce
qed (use disc_submit_inv [OF assms(2,3)] count_inv [OF assms(2)] fill_inv [OF assms(2)] in blast)+

lemma disc_steps_inv:
  assumes "(disc_step env raw nsid gm True)\<^sup>*\<^sup>* s s'" "disc_inv raw s bs D" "kernel_fine env" "raw_sized raw"
  shows "\<exists>bs' D'. disc_inv raw s' bs' D'"
  using assms(1,2)
proof (induction arbitrary: rule: rtranclp_induct)
  case (step y z)
  then show ?case using disc_step_inv [OF step(2) _ assms(3,4)] by blast
qed blast

section \<open>Schedules\<close>

text \<open>The loop over the dies, run without interruption, is one of the schedules.\<close>

lemma rblk_discovery_steps:
  assumes "rblk_bbt_discovery env nsid b gm (ds_todo s) (ds_cnt s) (ds_k s) = Some (fs, c, k)" "ds_blks s = b # bs" "\<not> ds_uncounted s"
  shows "\<exists>s'. (disc_step env raw nsid gm p)\<^sup>*\<^sup>* s s' \<and> ds_todo s' = [] \<and> ds_cnt s' = c \<and> ds_k s' = k \<and> ds_flight s' = ds_flight s @ fs"
  using assms
proof (induction "ds_todo s" arbitrary: s fs)
  case Nil
  then show ?case by (intro exI [of _ s]) (simp flip: Nil(1))
next
  case (Cons d ds)
  obtain f k1 fs' where f: "discovery_submit env nsid (die_addr b d) (die_slot d) (die_meta gm d) (ds_k s) = Some (f, k1)"
      "rblk_bbt_discovery env nsid b gm ds (discovery_count (ds_cnt s)) k1 = Some (fs', c, k)" "fs = (case f of None \<Rightarrow> fs' | Some f \<Rightarrow> f # fs')"
    using Cons(3) by (auto simp: discovery_bbt_rdpparaw_def bind_eq_Some_conv Cons(2) [symmetric])
  let ?s1 = "s\<lparr>ds_k := k1, ds_todo := ds, ds_uncounted := True, ds_flight := ds_flight s @ (case f of None \<Rightarrow> [] | Some f \<Rightarrow> [f])\<rparr>"
  let ?s2 = "?s1\<lparr>ds_cnt := discovery_count (ds_cnt ?s1), ds_uncounted := False\<rparr>"
  have "disc_step env raw nsid gm p s ?s1" "disc_step env raw nsid gm p ?s1 ?s2"
    using disc_submit [OF Cons(4) Cons(2) [symmetric] Cons(5) f(1)] disc_count [of ?s1] by simp_all
  then have st: "(disc_step env raw nsid gm p)\<^sup>*\<^sup>* s ?s2"
    by (meson converse_rtranclp_into_rtranclp rtranclp.rtrancl_refl)
  obtain s' where "(disc_step env raw nsid gm p)\<^sup>*\<^sup>* ?s2 s'" "ds_todo s' = []" "ds_cnt s' = c" "ds_k s' = k" "ds_flight s' = ds_flight ?s2 @ fs'"
    using Cons(1) [of ?s2 fs'] f(2) Cons(4) by auto
  with st f(3) show ?case
    by (intro exI [of _ s']) (auto split: option.splits)
qed

lemma run_submit:
  assumes "kernel_fine env" "disc_inv raw s bs D" "ds_blks s = b # bs'" "\<not> ds_uncounted s"
  shows "\<exists>s'. (disc_step env raw nsid gm p)\<^sup>*\<^sup>* s s' \<and> disc_inv raw s' bs (D @ ds_todo s) \<and> ds_blks s' = ds_blks s \<and>
    ds_todo s' = [] \<and> \<not> ds_uncounted s' \<and> ds_cnt s' = (ds_cnt s)\<lparr>bbt_issu_cnt := bbt_issu_cnt (ds_cnt s) + of_nat (length (ds_todo s))\<rparr>"
  using assms(2-)
proof (induction "ds_todo s" arbitrary: s D)
  case Nil
  then show ?case by (intro exI [of _ s]) (simp flip: Nil(1))
next
  case (Cons d ds)
  obtain f k where sub: "discovery_submit env nsid (die_addr b d) (die_slot d) (die_meta gm d) (ds_k s) = Some (f, k)"
    using discovery_submit_ok [OF assms(1) disc_invD(1) [OF Cons(3)], of nsid "die_addr b d" "die_slot d" "die_meta gm d"] by blast
  let ?s1 = "s\<lparr>ds_k := k, ds_todo := ds, ds_uncounted := True, ds_flight := ds_flight s @ (case f of None \<Rightarrow> [] | Some f \<Rightarrow> [f])\<rparr>"
  let ?s2 = "?s1\<lparr>ds_cnt := discovery_count (ds_cnt s), ds_uncounted := False\<rparr>"
  have "disc_step env raw nsid gm p s ?s1"
    using disc_submit [OF Cons(4) Cons(2) [symmetric] Cons(5) sub] .
  moreover have "disc_step env raw nsid gm p ?s1 ?s2"
    using disc_count [of ?s1] by simp
  ultimately have st: "(disc_step env raw nsid gm p)\<^sup>*\<^sup>* s ?s2"
    by (meson converse_rtranclp_into_rtranclp rtranclp.rtrancl_refl)
  have inv: "disc_inv raw ?s2 bs (D @ [d])"
    using count_inv [OF disc_submit_inv [OF Cons(3) assms(1) Cons(4) Cons(2) [symmetric] sub]] by simp
  obtain s' where "(disc_step env raw nsid gm p)\<^sup>*\<^sup>* ?s2 s'" "disc_inv raw s' bs ((D @ [d]) @ ds_todo ?s2)" "ds_blks s' = ds_blks ?s2"
      "ds_todo s' = []" "\<not> ds_uncounted s'" "ds_cnt s' = (ds_cnt ?s2)\<lparr>bbt_issu_cnt := bbt_issu_cnt (ds_cnt ?s2) + of_nat (length (ds_todo ?s2))\<rparr>"
    using Cons(1) [OF _ inv] Cons(4) by auto
  with st show ?case
    using Cons(2) [symmetric] by (intro exI [of _ s']) (auto simp: discovery_count_def)
qed

lemma one_complete:
  assumes "raw_sized raw" "disc_inv raw s bs (d # D)"
  shows "\<exists>s'. (disc_step env raw nsid gm p)\<^sup>*\<^sup>* s s' \<and> disc_inv raw s' bs D \<and> ds_blks s' = ds_blks s \<and>
    ds_todo s' = ds_todo s \<and> ds_uncounted s' = ds_uncounted s \<and> ds_cnt s' = count_completion (ds_cnt s)"
proof -
  obtain f fs where fl: "ds_flight s = f # fs"
    using disc_invD(6) [OF assms(2)] by (auto simp: list_all2_Cons2)
  let ?s1 = "s\<lparr>ds_buf := (ds_buf s)(rf_slot f := raw (rf_ppas f)), ds_flight := (ds_flight s)[0 := f\<lparr>rf_done := True\<rparr>]\<rparr>"
  obtain s1 where s1: "(disc_step env raw nsid gm p)\<^sup>*\<^sup>* s s1" "disc_inv raw s1 bs (d # D)" "\<exists>g gs. ds_flight s1 = [] @ g # gs \<and> rf_done g"
      "ds_blks s1 = ds_blks s" "ds_todo s1 = ds_todo s" "ds_uncounted s1 = ds_uncounted s" "ds_cnt s1 = ds_cnt s"
  proof (cases "rf_done f")
    case True
    then show ?thesis
      using that [of s] assms(2) fl by auto
  next
    case False
    have "disc_step env raw nsid gm p s ?s1"
      by (rule disc_fill) (use False fl in simp_all)
    moreover have "disc_inv raw ?s1 bs (d # D)"
      by (rule fill_inv [OF assms(2)]) (simp_all add: fl)
    ultimately show ?thesis
      by (intro that [of ?s1]) (simp_all add: fl)
  qed
  then obtain g gs where g: "ds_flight s1 = [] @ g # gs" "rf_done g" by blast
  obtain tbl k as' e ds' where c: "d # D = as' @ e # ds'" "length as' = length ([] :: raw_flight list)"
    "rdpparaw_completion g (ds_buf s1) (bmitbl (ds_meta s1)) (ds_cnt s1) (ds_k s1) = Some (tbl, count_completion (ds_cnt s1), k)"
    "disc_inv raw (s1\<lparr>ds_meta := (ds_meta s1)\<lparr>bmitbl := tbl\<rparr>, ds_cnt := count_completion (ds_cnt s1), ds_k := k, ds_flight := [] @ gs\<rparr>) bs (as' @ ds')"
    using disc_complete_inv [OF s1(2) assms(1) g] by blast
  let ?s2 = "s1\<lparr>ds_meta := (ds_meta s1)\<lparr>bmitbl := tbl\<rparr>, ds_cnt := count_completion (ds_cnt s1), ds_k := k, ds_flight := [] @ gs\<rparr>"
  have "disc_step env raw nsid gm p s1 ?s2"
    by (rule disc_complete [OF g c(3)])
  with s1(1) have "(disc_step env raw nsid gm p)\<^sup>*\<^sup>* s ?s2"
    by (rule rtranclp.rtrancl_into_rtrancl)
  with c s1 show ?thesis
    by (intro exI [of _ ?s2]) auto
qed

text \<open>Completing every read in flight signals the completion with the last one.\<close>

lemma run_complete:
  assumes "raw_sized raw" "disc_inv raw s bs D" "D \<noteq> []" "length D < 2 ^ 32"
    "bbt_issu_cnt (ds_cnt s) = bbt_cmpl_cnt (ds_cnt s) + of_nat (length D)"
  shows "\<exists>s'. (disc_step env raw nsid gm p)\<^sup>*\<^sup>* s s' \<and> disc_inv raw s' bs [] \<and> ds_blks s' = ds_blks s \<and> ds_todo s' = ds_todo s \<and>
    ds_uncounted s' = ds_uncounted s \<and>
    ds_cnt s' = (ds_cnt s)\<lparr>bbt_cmpl_cnt := bbt_issu_cnt (ds_cnt s), bbt_completion := True\<rparr>"
  using assms(2-)
proof (induction D arbitrary: s)
  case (Cons d D)
  obtain s1 where s1: "(disc_step env raw nsid gm p)\<^sup>*\<^sup>* s s1" "disc_inv raw s1 bs D" "ds_blks s1 = ds_blks s" "ds_todo s1 = ds_todo s"
      "ds_uncounted s1 = ds_uncounted s" "ds_cnt s1 = count_completion (ds_cnt s)"
    using one_complete [OF assms(1) Cons(2)] by blast
  show ?case
  proof (cases "D = []")
    case True
    then show ?thesis
      using s1 Cons(5) by (intro exI [of _ s1]) (simp add: count_completion_def Let_def)
  next
    case False
    have "bbt_cmpl_cnt (ds_cnt s) + 1 \<noteq> bbt_issu_cnt (ds_cnt s)"
      using False Cons(4,5) by (auto simp: word_of_nat_eq_0_iff dest: dvd_imp_le)
    then have c: "ds_cnt s1 = (ds_cnt s)\<lparr>bbt_cmpl_cnt := bbt_cmpl_cnt (ds_cnt s) + 1\<rparr>"
      by (simp add: s1(6) count_completion_def Let_def)
    then obtain s' where "(disc_step env raw nsid gm p)\<^sup>*\<^sup>* s1 s'" "disc_inv raw s' bs []" "ds_blks s' = ds_blks s1" "ds_todo s' = ds_todo s1"
        "ds_uncounted s' = ds_uncounted s1" "ds_cnt s' = (ds_cnt s1)\<lparr>bbt_cmpl_cnt := bbt_issu_cnt (ds_cnt s1), bbt_completion := True\<rparr>"
      using Cons(1) [OF s1(2) False] Cons(4,5) by (auto simp: algebra_simps)
    with s1(1-5) c show ?thesis
      by (intro exI [of _ s']) auto
  qed
qed simp

definition disc_ready :: "disc \<Rightarrow> bool" where
  "disc_ready s \<longleftrightarrow> ds_todo s = (if ds_blks s = [] then [] else dies) \<and> \<not> ds_uncounted s \<and>
     bbt_issu_cnt (ds_cnt s) = bbt_cmpl_cnt (ds_cnt s) \<and> \<not> bbt_completion (ds_cnt s)"

lemma dies_length: "length dies = 128"
  by (simp add: dies_def del: upt_rec_numeral)

lemma inv_nil_flight: "disc_inv raw s bs [] \<Longrightarrow> ds_flight s = []"
  using disc_invD(6) by fastforce

lemma run_block:
  assumes "kernel_fine env" "raw_sized raw" "disc_inv raw s bs []" "ds_blks s = b # bs'" "disc_ready s"
  shows "\<exists>s'. (disc_step env raw nsid gm True)\<^sup>*\<^sup>* s s' \<and> disc_inv raw s' (bs @ [b]) [] \<and> ds_blks s' = bs' \<and> disc_ready s'"
proof -
  have r: "ds_todo s = dies" "\<not> ds_uncounted s" "bbt_issu_cnt (ds_cnt s) = bbt_cmpl_cnt (ds_cnt s)"
    using assms(4,5) by (simp_all add: disc_ready_def)
  obtain s1 where s1: "(disc_step env raw nsid gm True)\<^sup>*\<^sup>* s s1" "disc_inv raw s1 bs ([] @ ds_todo s)" "ds_blks s1 = ds_blks s"
      "ds_todo s1 = []" "\<not> ds_uncounted s1" "ds_cnt s1 = (ds_cnt s)\<lparr>bbt_issu_cnt := bbt_issu_cnt (ds_cnt s) + of_nat (length (ds_todo s))\<rparr>"
    using run_submit [OF assms(1,3,4) r(2)] by blast
  have i1: "disc_inv raw s1 bs dies"
    using s1(2) by (simp add: r)
  obtain s2 where s2: "(disc_step env raw nsid gm True)\<^sup>*\<^sup>* s1 s2" "disc_inv raw s2 bs []" "ds_blks s2 = ds_blks s1" "ds_todo s2 = ds_todo s1"
      "ds_uncounted s2 = ds_uncounted s1" "ds_cnt s2 = (ds_cnt s1)\<lparr>bbt_cmpl_cnt := bbt_issu_cnt (ds_cnt s1), bbt_completion := True\<rparr>"
    using run_complete [OF assms(2) i1, of env nsid gm True] s1(6) r dies_length by fastforce
  have blks: "ds_blks s2 = b # bs'" and todo: "ds_todo s2 = []"
    using s1 s2 assms(4) by simp_all
  let ?c = "(ds_cnt s2)\<lparr>bbt_completion := False\<rparr>"
  obtain m n where m: "rblk_bbt_check_available b (ds_meta s2) (ds_rblk s2) = Some (m, n)"
      "disc_inv raw (s2\<lparr>ds_meta := m, ds_rblk := n, ds_cnt := ?c, ds_blks := bs', ds_todo := (if bs' = [] then [] else dies)\<rparr>) (bs @ [b]) []"
    using check_inv [OF s2(2) blks todo inv_nil_flight [OF s2(2)], of ?c] by blast
  let ?s3 = "s2\<lparr>ds_meta := m, ds_rblk := n, ds_cnt := ?c, ds_blks := bs', ds_todo := (if bs' = [] then [] else dies)\<rparr>"
  have "disc_step env raw nsid gm True s2 ?s3"
    by (rule disc_check [OF blks todo _ _ _ m(1)]) (use s1 s2 inv_nil_flight [OF s2(2)] in simp_all)
  with s1(1) s2(1) have "(disc_step env raw nsid gm True)\<^sup>*\<^sup>* s ?s3"
    by auto
  with m(2) s1(5,6) s2(5,6) show ?thesis
    by (intro exI [of _ ?s3]) (simp add: disc_ready_def)
qed

lemma run_blocks:
  assumes "kernel_fine env" "raw_sized raw" "disc_inv raw s bs []" "disc_ready s"
  shows "\<exists>s'. (disc_step env raw nsid gm True)\<^sup>*\<^sup>* s s' \<and> ds_blks s' = []"
  using assms(3,4)
proof (induction "ds_blks s" arbitrary: s bs)
  case (Cons b bs')
  obtain s1 where "(disc_step env raw nsid gm True)\<^sup>*\<^sup>* s s1" "disc_inv raw s1 (bs @ [b]) []" "ds_blks s1 = bs'" "disc_ready s1"
    using run_block [OF assms(1,2) Cons(3) _ Cons(4)] Cons(2) by metis
  with Cons(1) [of s1] show ?case
    by (meson rtranclp_trans)
qed auto

lemma start_inv: "k_ok k \<Longrightarrow> disc_inv raw (disc_start sysmeta_initial c buf k) [] []"
proof -
  assume k: "k_ok k"
  have wf: "bmi_wf bmitbl_initial"
    by (auto simp: bmi_wf_def bmitbl_initial_def bmi_zero_def)
  have "\<not> die_marked bmitbl_initial b d" if "b < CFG_NAND_BLOCK_NUM" "d \<in> set dies" for b d
    using that by (simp add: die_marked_def bmitbl_initial_def bmi_zero_def dies_mem)
  then show ?thesis
    using k wf pool_rep_init dies_distinct disc_blks_ne
    by (auto simp: disc_inv_def disc_start_def sysmeta_initial_def)
qed

lemma start_ready: "bbt_issu_cnt c = bbt_cmpl_cnt c \<Longrightarrow> disc_ready (disc_start m c buf k)"
  by (simp add: disc_ready_def disc_start_def disc_blks_ne)

definition cnt_zero :: bbt_count where
  "cnt_zero = \<lparr>bbt_issu_cnt = 0, bbt_cmpl_cnt = 0, bbt_completion = False\<rparr>"

lemma cnt_zero_eq: "bbt_issu_cnt cnt_zero = bbt_cmpl_cnt cnt_zero"
  by (simp add: cnt_zero_def)

lemma demo_raw: "raw_sized (\<lambda>_. replicate 8192 v)"
  by (simp add: raw_sized_def)

section \<open>Properties\<close>

lemma discovery_final:
  assumes "kernel_fine env" "raw_sized raw" "k_ok k"
    "(disc_step env raw nsid gm True)\<^sup>*\<^sup>* (disc_start sysmeta_initial c buf k) s" "ds_blks s = []"
  shows "0 < b \<Longrightarrow> b < CFG_NAND_BLOCK_NUM \<Longrightarrow> d \<in> set dies \<Longrightarrow> die_marked (bmitbl (ds_meta s)) b d = die_bad raw b d"
    and "pool_rep (free_pool (ds_meta s)) (filter (\<lambda>b. blk_usable (die_bad raw b)) (rev [1..<CFG_NAND_BLOCK_NUM]))"
    and "fst (ds_rblk s) + snd (ds_rblk s) = CFG_NAND_BLOCK_NUM - 1" and "ds_flight s = []"
proof -
  obtain bs D where i: "disc_inv raw s bs D"
    using disc_steps_inv [OF assms(4) start_inv [OF assms(3)] assms(1,2)] by blast
  note I = disc_invD [OF i]
  have D: "D = []" "bs = disc_blks" "ds_flight s = []"
    using I(5,6,9) assms(5) by auto
  have blks: "disc_blks = rev [1..<CFG_NAND_BLOCK_NUM]"
    unfolding disc_blks_def rev_filter [symmetric] by (simp add: upt_conv_Cons [of 0] filter_id_conv)
  have "length disc_blks = CFG_NAND_BLOCK_NUM - 1"
    by (simp add: blks del: upt_rec_numeral)
  then show "fst (ds_rblk s) + snd (ds_rblk s) = CFG_NAND_BLOCK_NUM - 1"
    using sum_length_filter_compl [of "\<lambda>b. blk_usable (die_bad raw b)" bs] I(13) D(2) by simp
  show "pool_rep (free_pool (ds_meta s)) (filter (\<lambda>b. blk_usable (die_bad raw b)) (rev [1..<CFG_NAND_BLOCK_NUM]))"
    using I(12) D unfolding blks [symmetric] by simp
  show "die_marked (bmitbl (ds_meta s)) b d = die_bad raw b d" if "0 < b" "b < CFG_NAND_BLOCK_NUM" "d \<in> set dies"
    using I(11) [OF that(2,3)] that(1,2) D by (simp add: disc_blks_mem)
  show "ds_flight s = []"
    by (rule D(3))
qed

text \<open>C19: The bad-block discovery is exact when every read finishes before the loop goes on. In every
  interleaving of submissions, device transfers and completions in which the loop is woken only with
  no read in flight, a finished discovery has marked exactly the dies whose mark byte is not \<open>0xff\<close>, has
  put on the free list exactly the raid blocks with at most 12 bad channels in each LUN, in descending
  order and without the boot block, and its two counters add up to the number of blocks examined.\<close>

theorem discovery_exact:
  assumes "kernel_fine env" and "raw_sized raw" and "k_ok k"
    and "(disc_step env raw nsid gm True)\<^sup>*\<^sup>* (disc_start sysmeta_initial c buf k) s" and "ds_blks s = []"
  shows "(\<forall>b d. 0 < b \<longrightarrow> b < CFG_NAND_BLOCK_NUM \<longrightarrow> d \<in> set dies \<longrightarrow>
      die_marked (bmitbl (ds_meta s)) b d = die_bad raw b d) \<and>
    pool_rep (free_pool (ds_meta s)) (filter (\<lambda>b. blk_usable (die_bad raw b)) (rev [1..<CFG_NAND_BLOCK_NUM])) \<and>
    fst (ds_rblk s) + snd (ds_rblk s) = CFG_NAND_BLOCK_NUM - 1 \<and> ds_flight s = []"
  using discovery_final [OF assms] by (intro conjI allI impI) blast+

lemma discovery_runs:
  assumes "kernel_fine env" "raw_sized raw" "k_ok k" "bbt_issu_cnt c = bbt_cmpl_cnt c"
  shows "\<exists>s. (disc_step env raw nsid gm True)\<^sup>*\<^sup>* (disc_start sysmeta_initial c buf k) s \<and> ds_blks s = []"
  using run_blocks [OF assms(1,2) start_inv [OF assms(3)] start_ready [OF assms(4)]] by blast

theorem discovery_exact_witness:
  "\<exists>s. (disc_step demo_env (\<lambda>_. replicate 8192 0xff) 1 0 True)\<^sup>*\<^sup>* (disc_start sysmeta_initial cnt_zero (\<lambda>_. []) demo_kst) s \<and>
     pool_rep (free_pool (ds_meta s)) (rev [1..<CFG_NAND_BLOCK_NUM])"
proof -
  let ?raw = "\<lambda>_ :: u64 list. replicate 8192 (0xff :: u8)"
  have "\<not> die_bad ?raw b d" for b d
    by (auto simp: die_bad_def bad_mark_offset_def)
  then have good: "blk_usable (die_bad ?raw b)" for b
    by (simp add: blk_usable_def bad_channels_def)
  obtain s where s: "(disc_step demo_env ?raw 1 0 True)\<^sup>*\<^sup>* (disc_start sysmeta_initial cnt_zero (\<lambda>_. []) demo_kst) s" "ds_blks s = []"
    using discovery_runs [OF demo_fine demo_raw demo_ok(1) cnt_zero_eq] by blast
  with discovery_exact [OF demo_fine demo_raw demo_ok(1) s] good show ?thesis
    by auto
qed

text \<open>Reads that complete before they are counted never meet the counter.\<close>

lemma run_unnoticed:
  assumes "kernel_fine env" "raw_sized raw" "disc_inv raw s bs []" "ds_blks s = b # bs'" "\<not> ds_uncounted s"
    "bbt_issu_cnt (ds_cnt s) = bbt_cmpl_cnt (ds_cnt s)" "\<not> bbt_completion (ds_cnt s)"
  shows "\<exists>s'. (disc_step env raw nsid gm p)\<^sup>*\<^sup>* s s' \<and> disc_inv raw s' bs [] \<and> ds_blks s' = ds_blks s \<and> ds_todo s' = [] \<and>
    \<not> ds_uncounted s' \<and> \<not> bbt_completion (ds_cnt s')"
  using assms(3-)
proof (induction "ds_todo s" arbitrary: s)
  case (Cons d ds)
  obtain f k where sub: "discovery_submit env nsid (die_addr b d) (die_slot d) (die_meta gm d) (ds_k s) = Some (f, k)"
    using discovery_submit_ok [OF assms(1) disc_invD(1) [OF Cons(3)], of nsid "die_addr b d" "die_slot d" "die_meta gm d"] by blast
  let ?s1 = "s\<lparr>ds_k := k, ds_todo := ds, ds_uncounted := True, ds_flight := ds_flight s @ (case f of None \<Rightarrow> [] | Some f \<Rightarrow> [f])\<rparr>"
  have st1: "disc_step env raw nsid gm p s ?s1"
    using disc_submit [OF Cons(4) Cons(2) [symmetric] Cons(5) sub] .
  have "disc_inv raw ?s1 bs [d]"
    using disc_submit_inv [OF Cons(3) assms(1) Cons(4) Cons(2) [symmetric] sub] by simp
  then obtain s2 where s2: "(disc_step env raw nsid gm p)\<^sup>*\<^sup>* ?s1 s2" "disc_inv raw s2 bs []" "ds_blks s2 = ds_blks ?s1"
      "ds_todo s2 = ds_todo ?s1" "ds_uncounted s2 = ds_uncounted ?s1" "ds_cnt s2 = count_completion (ds_cnt ?s1)"
    using one_complete [OF assms(2)] by blast
  let ?s3 = "s2\<lparr>ds_cnt := discovery_count (ds_cnt s2), ds_uncounted := False\<rparr>"
  have "disc_step env raw nsid gm p s2 ?s3"
    by (rule disc_count) (simp add: s2(5))
  with st1 s2(1) have st: "(disc_step env raw nsid gm p)\<^sup>*\<^sup>* s ?s3"
    by (meson converse_rtranclp_into_rtranclp rtranclp.rtrancl_into_rtrancl)
  have inv: "disc_inv raw ?s3 bs []"
    by (rule count_inv [OF s2(2)])
  have "ds_cnt s2 = (ds_cnt s)\<lparr>bbt_cmpl_cnt := bbt_issu_cnt (ds_cnt s) + 1\<rparr>"
    using Cons(6) by (simp add: s2(6) count_completion_def Let_def)
  then show ?case
    using Cons(1) [OF _ inv] s2(3,4) Cons(4,7) st by (auto simp: discovery_count_def intro: rtranclp_trans)
qed auto

text \<open>C30: The discovery can wait for ever. The counter of issued reads is incremented after the read has
  been submitted: when each read of the first block completes before that increment, the number of
  completed reads never equals the number of issued ones at a completion, the loop is never woken,
  and no step of the system is possible any more although every read has finished.\<close>

theorem discovery_may_hang:
  assumes "kernel_fine env" and "raw_sized raw" and "k_ok k" and "bbt_issu_cnt c = bbt_cmpl_cnt c"
  shows "\<exists>s. (disc_step env raw nsid gm p)\<^sup>*\<^sup>* (disc_start sysmeta_initial c buf k) s \<and> ds_blks s = disc_blks \<and>
    ds_todo s = [] \<and> ds_flight s = [] \<and> (\<forall>s'. \<not> disc_step env raw nsid gm p s s')"
proof -
  let ?s = "disc_start sysmeta_initial c buf k"
  obtain b bs where b: "ds_blks ?s = b # bs"
    using disc_blks_ne by (auto simp: disc_start_def neq_Nil_conv)
  have r: "\<not> ds_uncounted ?s" "bbt_issu_cnt (ds_cnt ?s) = bbt_cmpl_cnt (ds_cnt ?s)" "\<not> bbt_completion (ds_cnt ?s)"
    by (simp_all add: disc_start_def assms(4))
  obtain s where s: "(disc_step env raw nsid gm p)\<^sup>*\<^sup>* ?s s" "disc_inv raw s [] []" "ds_blks s = ds_blks ?s" "ds_todo s = []"
      "\<not> ds_uncounted s" "\<not> bbt_completion (ds_cnt s)"
    using run_unnoticed [OF assms(1,2) start_inv [OF assms(3)] b r] by blast
  have "\<not> disc_step env raw nsid gm p s s'" for s'
    using s(4-6) inv_nil_flight [OF s(2)] by (auto elim: disc_step.cases)
  with s inv_nil_flight [OF s(2)] show ?thesis
    by (intro exI [of _ s]) (simp add: disc_start_def)
qed

theorem discovery_may_hang_witness:
  "\<exists>s. (disc_step demo_env (\<lambda>_. replicate 8192 0xff) 1 0 True)\<^sup>*\<^sup>* (disc_start sysmeta_initial cnt_zero (\<lambda>_. []) demo_kst) s \<and>
     ds_flight s = [] \<and> (\<forall>s'. \<not> disc_step demo_env (\<lambda>_. replicate 8192 0xff) 1 0 True s s')"
  using discovery_may_hang [OF demo_fine demo_raw demo_ok(1) cnt_zero_eq] by blast

text \<open>The first read alone, from submission to completion, wakes the loop.\<close>

lemma run_first:
  assumes "kernel_fine env" "raw_sized raw" "disc_inv raw s bs []" "ds_blks s = b # bs'" "ds_todo s = d # ds" "\<not> ds_uncounted s"
    "bbt_issu_cnt (ds_cnt s) = bbt_cmpl_cnt (ds_cnt s)"
  shows "\<exists>s'. (disc_step env raw nsid gm p)\<^sup>*\<^sup>* s s' \<and> disc_inv raw s' bs [] \<and> ds_blks s' = ds_blks s \<and> ds_todo s' = ds \<and>
    \<not> ds_uncounted s' \<and> bbt_completion (ds_cnt s')"
proof -
  obtain f k where sub: "discovery_submit env nsid (die_addr b d) (die_slot d) (die_meta gm d) (ds_k s) = Some (f, k)"
    using discovery_submit_ok [OF assms(1) disc_invD(1) [OF assms(3)], of nsid "die_addr b d" "die_slot d" "die_meta gm d"] by blast
  let ?s1 = "s\<lparr>ds_k := k, ds_todo := ds, ds_uncounted := True, ds_flight := ds_flight s @ (case f of None \<Rightarrow> [] | Some f \<Rightarrow> [f])\<rparr>"
  let ?s2 = "?s1\<lparr>ds_cnt := discovery_count (ds_cnt ?s1), ds_uncounted := False\<rparr>"
  have st: "disc_step env raw nsid gm p s ?s1" "disc_step env raw nsid gm p ?s1 ?s2"
    using disc_submit [OF assms(4-6) sub] disc_count [of ?s1] by simp_all
  have i: "disc_inv raw ?s2 bs [d]"
    using count_inv [OF disc_submit_inv [OF assms(3,1,4,5) sub]] by simp
  obtain s3 where s3: "(disc_step env raw nsid gm p)\<^sup>*\<^sup>* ?s2 s3" "disc_inv raw s3 bs []" "ds_blks s3 = ds_blks ?s2" "ds_todo s3 = ds_todo ?s2"
      "ds_uncounted s3 = ds_uncounted ?s2" "ds_cnt s3 = count_completion (ds_cnt ?s2)"
    using one_complete [OF assms(2) i] by blast
  have "(disc_step env raw nsid gm p)\<^sup>*\<^sup>* s s3"
    using st s3(1) by (meson converse_rtranclp_into_rtranclp)
  then show ?thesis
    using s3 assms(7) by (intro exI [of _ s3]) (auto simp: count_completion_def discovery_count_def Let_def)
qed

text \<open>C31: The discovery can put a bad block on the free list. Even when every die of the first examined
  block is bad, there is an interleaving in which the loop is woken by the completion of the first read
  alone, checks the block while the other reads are in flight, and inserts it into the free list.\<close>

theorem discovery_frees_bad_block:
  assumes "kernel_fine env" and "raw_sized raw" and "k_ok k" and "bbt_issu_cnt c = bbt_cmpl_cnt c"
    and "\<forall>d \<in> set dies. die_bad raw (hd disc_blks) d"
  shows "\<exists>s. (disc_step env raw nsid gm False)\<^sup>*\<^sup>* (disc_start sysmeta_initial c buf k) s \<and>
    pool_rep (free_pool (ds_meta s)) [hd disc_blks] \<and> ds_blks s = tl disc_blks"
proof -
  let ?s = "disc_start sysmeta_initial c buf k" and ?b = "hd disc_blks"
  have b: "ds_blks ?s = ?b # tl disc_blks" and d: "ds_todo ?s = (0, 0) # tl dies"
    using disc_blks_ne dies_first by (simp_all add: disc_start_def)
  have r: "\<not> ds_uncounted ?s" "bbt_issu_cnt (ds_cnt ?s) = bbt_cmpl_cnt (ds_cnt ?s)"
    by (simp_all add: disc_start_def assms(4))
  obtain s1 where s1: "(disc_step env raw nsid gm False)\<^sup>*\<^sup>* ?s s1" "disc_inv raw s1 [] []" "ds_blks s1 = ds_blks ?s"
      "ds_todo s1 = tl dies" "\<not> ds_uncounted s1" "bbt_completion (ds_cnt s1)"
    using run_first [OF assms(1,2) start_inv [OF assms(3)] b d r] by blast
  obtain s2 where s2: "(disc_step env raw nsid gm False)\<^sup>*\<^sup>* s1 s2" "disc_inv raw s2 [] ([] @ ds_todo s1)" "ds_blks s2 = ds_blks s1"
      "ds_todo s2 = []" "\<not> ds_uncounted s2" "bbt_completion (ds_cnt s2)"
    using run_submit [OF assms(1) s1(2) _ s1(5)] s1(3,6) b by (metis bbt_count.select_convs(3) bbt_count.surjective bbt_count.update_convs(1))
  note I = disc_invD [OF s2(2)]
  have bn: "?b < CFG_NAND_BLOCK_NUM"
    using disc_blks_mem [of ?b] disc_blks_ne by simp
  have "die_marked (bmitbl (ds_meta s2)) ?b d \<longrightarrow> d = (0, 0)" if "d \<in> set dies" for d
    using I(11) [OF bn that] dies_tl [OF that] s1(4) by auto
  then have "bad_channels (die_marked (bmitbl (ds_meta s2)) ?b) lun \<le> 1" if "lun < CFG_NAND_LUN_NUM" for lun
    using that by (intro bad_channels_le_1) (auto simp: dies_mem)
  then have us: "blk_usable (die_marked (bmitbl (ds_meta s2)) ?b)"
    by (force simp: blk_usable_def)
  obtain m n where m: "rblk_bbt_check_available ?b (ds_meta s2) (ds_rblk s2) = Some (m, n)" "pool_rep (free_pool m) [?b]"
    using check_available_ok [OF I(2,12) bn, of "ds_rblk s2"] us by auto
  let ?s3 = "s2\<lparr>ds_meta := m, ds_rblk := n, ds_cnt := (ds_cnt s2)\<lparr>bbt_completion := False\<rparr>,
      ds_blks := tl disc_blks, ds_todo := (if tl disc_blks = [] then [] else dies)\<rparr>"
  have "disc_step env raw nsid gm False s2 ?s3"
    by (rule disc_check [OF _ s2(4-6) _ m(1)]) (use s1(3) s2(3) b in simp_all)
  with s1(1) s2(1) have "(disc_step env raw nsid gm False)\<^sup>*\<^sup>* ?s ?s3"
    by (meson rtranclp.rtrancl_into_rtrancl rtranclp_trans)
  with m(2) show ?thesis
    by (intro exI [of _ ?s3]) simp
qed

theorem discovery_frees_bad_block_witness:
  "\<exists>s. (disc_step demo_env (\<lambda>_. replicate 8192 0) 1 0 False)\<^sup>*\<^sup>* (disc_start sysmeta_initial cnt_zero (\<lambda>_. []) demo_kst) s \<and>
     pool_rep (free_pool (ds_meta s)) [hd disc_blks]"
proof -
  have "die_bad (\<lambda>_. replicate 8192 0) b d" for b d
    unfolding die_bad_def by (rule exI [of _ 0]) (simp add: bad_mark_offset_def)
  then show ?thesis
    using discovery_frees_bad_block [OF demo_fine demo_raw demo_ok(1) cnt_zero_eq] by blast
qed

section \<open>Manufacturing as a whole\<close>

lemma erase_ppas_length [simp]: "length (erase_ppas blk) = 128"
  by (simp add: erase_ppas_def dies_length)

lemma erase_rblk_ok:
  assumes "kernel_fine env" "k_ok k"
  shows "\<exists>k' c. erase_rblk_wait env nsid blk k = Some (0, k') \<and> k_ok k' \<and> k_live k' = k_live k \<and>
    k_sqes k' = k_sqes k @ [(c, erase_ppas blk)] \<and> pc_opcode c = NVM_OP_ERASE"
proof -
  define n where "n = k_n k"
  define z :: "u64 list" where "z = drop 128 (replicate PAGE_WORDS 0)"
  let ?k1 = "k\<lparr>k_n := Suc (Suc n), k_live := KPage (Suc n) # KCmd n # k_live k, k_page := (k_page k)(Suc n := erase_ppas blk @ z)\<rparr>"
  have cp: "copy_ppas (Suc n) (erase_ppas blk) [0..<128] (k\<lparr>k_n := Suc (Suc n), k_live := KPage (Suc n) # KCmd n # k_live k,
      k_page := (k_page k)(Suc n := replicate PAGE_WORDS 0)\<rparr>) = Some ?k1"
    by (subst copy_ppas_ok) (simp_all add: z_def)
  let ?c = "ppa_command_zero\<lparr>pc_opcode := NVM_OP_ERASE, pc_nsid := nsid, pc_nlb := 128 - 1, pc_ppalist := bus env (Suc n), pc_control := erase_plmode\<rparr>"
  have sq: "sqe_ppas env (?k1\<lparr>k_n := Suc (Suc (Suc n)), k_live := KReq (Suc (Suc n)) # k_live ?k1\<rparr>) ?c = erase_ppas blk"
    by (rule trans [OF sqe_many [of _ 128 _ _ "erase_ppas blk" z]]) (simp_all add: page_at_def)
  have ok: "k_ok ?k1"
    using assms(2) by (auto simp: k_ok_def n_def less_Suc_eq)
  have "erase_rblk_wait env nsid blk k = do {
      (_, k) \<leftarrow> nvme_submit_ppa_cmd_sync env ?c False 0 ?k1;
      k \<leftarrow> dma_pool_page_free (Suc n) k; k \<leftarrow> k_free (KCmd n) k; Some (0, k) }"
    using assms(1) cp by (simp add: erase_rblk_wait_def kernel_fine_def n_def [symmetric] Let_def del: upt_rec_numeral upt_Suc)
  moreover have "kres_id r < Suc (Suc (Suc n))" if "r \<in> set (k_live k)" for r
    using assms(2) that by (auto simp: k_ok_def n_def less_Suc_eq)
  ultimately show ?thesis
    using assms(1) sq by (auto simp: sync_cmd_cases [OF ok] kernel_fine_def dma_pool_page_free_def k_ok_def)
qed

lemma sweepup_ok:
  assumes "kernel_fine env" "k_ok k"
  shows "\<exists>k' cs. sweepup_loop env nsid blks k = Some k' \<and> k_ok k' \<and> k_live k' = k_live k \<and> k_sqes k' = k_sqes k @ cs \<and>
    map snd cs = map erase_ppas blks \<and> (\<forall>c \<in> set cs. pc_opcode (fst c) = NVM_OP_ERASE)"
  using assms(2)
proof (induction blks arbitrary: k)
  case Nil
  then show ?case by simp
next
  case (Cons b blks)
  obtain k1 c where e: "erase_rblk_wait env nsid b k = Some (0, k1)" "k_ok k1" "k_live k1 = k_live k"
      "k_sqes k1 = k_sqes k @ [(c, erase_ppas b)]" "pc_opcode c = NVM_OP_ERASE"
    using erase_rblk_ok [OF assms(1) Cons(2)] by blast
  obtain k' cs where "sweepup_loop env nsid blks k1 = Some k'" "k_ok k'" "k_live k' = k_live k1" "k_sqes k' = k_sqes k1 @ cs"
      "map snd cs = map erase_ppas blks" "\<forall>c \<in> set cs. pc_opcode (fst c) = NVM_OP_ERASE"
    using Cons(1) [OF e(2)] by blast
  with e show ?case
    by (intro exI [of _ k'] exI [of _ "(c, erase_ppas b) # cs"]) simp
qed

text \<open>The discovery keeps the DMA buffers and only adds to the commands issued.\<close>

definition k_ext :: "kst \<Rightarrow> kst \<Rightarrow> bool" where
  "k_ext k k' \<longleftrightarrow> (\<exists>rest. k_sqes k' = k_sqes k @ rest) \<and> (\<forall>x. KMap x \<in> set (k_live k) \<longrightarrow> KMap x \<in> set (k_live k'))"

lemma k_ext_refl [simp]: "k_ext k k"
  by (simp add: k_ext_def)

lemma k_ext_trans [trans]: "k_ext k k1 \<Longrightarrow> k_ext k1 k2 \<Longrightarrow> k_ext k k2"
  by (auto simp: k_ext_def)

lemma k_free_ext: "k_free r k = Some k' \<Longrightarrow> (\<And>x. r \<noteq> KMap x) \<Longrightarrow> k_ext k k'"
  by (auto simp: k_free_def k_ext_def bind_eq_Some_conv res_simps) (metis in_set_remove1)

lemma completion_ext: "rdpparaw_completion f buf tbl c k = Some (tbl', c', k') \<Longrightarrow> k_ext k k'"
  unfolding rdpparaw_completion_def dma_pool_page_free_def bind_eq_Some_conv
  by (elim exE conjE) (auto dest!: k_free_ext intro: k_ext_trans)

lemma disc_step_ext: "disc_step env raw nsid gm p s s' \<Longrightarrow> kernel_fine env \<Longrightarrow> k_ok (ds_k s) \<Longrightarrow> k_ext (ds_k s) (ds_k s')"
proof (induction rule: disc_step.induct)
  case (disc_submit s b bs d ds f k)
  then show ?case
    using discovery_submit_ok [of env "ds_k s" nsid "die_addr b d" "die_slot d" "die_meta gm d"] by (auto simp: k_ext_def)
qed (auto dest: completion_ext)

lemma disc_steps_ext:
  assumes "(disc_step env raw nsid gm True)\<^sup>*\<^sup>* s s'" "disc_inv raw s bs D" "kernel_fine env" "raw_sized raw"
  shows "k_ext (ds_k s) (ds_k s')"
  using assms(1)
proof (induction rule: rtranclp_induct)
  case (step y z)
  obtain bs' D' where "disc_inv raw y bs' D'"
    using disc_steps_inv [OF step(1) assms(2-4)] by blast
  then show ?case
    using step disc_step_ext [OF step(2) assms(3)] disc_invD(1) k_ext_trans by blast
qed simp

lemma flush_meta_ok:
  assumes "kernel_fine env" "k_ok k" "boot_wf b"
  shows "\<exists>fs b' k' m. bootblk_flush_meta_page env nsid flag b k = Some (fs, b', k') \<and> boot_wf b' \<and> k_ok k' \<and>
    boot_bbt_page_info b' = boot_bbt_page_info b \<and> boot_meta_page_info b' = MetaImg m \<and> bm_pdf m = flag \<and>
    map fl_lun fs = [0..<8] \<and> (\<forall>f \<in> set fs. fl_data f = Some (MetaImg m)) \<and>
    map snd (k_sqes k') = map snd (k_sqes k) @ map (mirror_ppas (bm_meta_page_address m)) [0..<8]"
proof -
  obtain p m where b: "boot_bbt_page_info b = BbtImg p" "boot_meta_page_info b = MetaImg m" "bb_magic p = BOOTBLK_BBT_MDW"
      "length (bb_bbt p) = 128" "\<forall>row \<in> set (bb_bbt p). length row = 8" "length (bm_bbt_ch_iter m) = 4" "bm_magic m = BOOTBLK_META_MDW"
      "length (bm_meta_ch_iter m) = 4" "bm_bbt_page_address m = INVALID_PAGE \<or> (\<exists>ch pg. bm_bbt_page_address m = boot_addr ch pg)"
      "bm_meta_page_address m = INVALID_PAGE \<or> (\<exists>ch pg. bm_meta_page_address m = boot_addr ch pg)"
    using assms(3) by (auto simp: boot_wf_def)
  obtain ch pg where np: "next_pos (bm_meta_ch_iter m) (bm_meta_page_address m) = Some (boot_addr ch pg)"
    using next_pos_ok [OF b(8,10)] by blast
  let ?m = "m\<lparr>bm_pdf := flag, bm_meta_page_address := boot_addr ch pg\<rparr>"
  let ?b = "b\<lparr>boot_meta_page_info := MetaImg ?m\<rparr>"
  obtain fs k' where fs: "flush_mirrors env nsid (Some (MetaImg ?m)) (boot_addr ch pg) [0..<8] k = Some (fs, k')" "k_ok k'"
      "map fl_lun fs = [0..<8]" "\<forall>f \<in> set fs. fl_data f = Some (MetaImg ?m)"
      "map snd (k_sqes k') = map snd (k_sqes k) @ map (mirror_ppas (boot_addr ch pg)) [0..<8]"
    using flush_mirrors_ok [OF assms(1,2)] by blast
  have "bootblk_flush_meta_page env nsid flag b k = Some (fs, ?b, k')"
    using b(2) np fs(1)
    by (simp add: bootblk_flush_meta_page_def bootblk_get_next_meta_pos_def bootblk_flush_duplicated_def Let_def del: upt_Suc upt_rec_numeral)
  moreover have "boot_wf ?b"
    using b by (auto simp: boot_wf_def)
  ultimately show ?thesis
    using fs by (intro exI [of _ fs] exI [of _ ?b] exI [of _ k'] exI [of _ ?m]) (simp del: upt_Suc upt_rec_numeral)
qed

lemma manufactory_final:
  assumes "kernel_fine env" and "raw_sized raw" and "k_ok k" and "boot_wf b"
    and "do_manufactory_init env raw nsid True (sysmeta_initial, c, b, k) (m', c', b', k') fs"
  shows "(\<exists>rest. map snd (k_sqes k') = map snd (k_sqes k) @ map erase_ppas (rev [0..<CFG_NAND_BLOCK_NUM]) @ rest) \<and>
    pool_rep (free_pool m') (filter (\<lambda>b. blk_usable (die_bad raw b)) (rev [1..<CFG_NAND_BLOCK_NUM])) \<and>
    (\<exists>p. boot_bbt_page_info b' = BbtImg p \<and> (\<exists>gs. fs = gs @ drop 8 fs \<and> map fl_lun gs = [0..<CFG_NAND_LUN_NUM] \<and>
        (\<forall>f \<in> set gs. fl_data f = Some (BbtImg p))) \<and>
      (\<forall>blk lun ch. 0 < blk \<longrightarrow> blk < CFG_NAND_BLOCK_NUM \<longrightarrow> lun < CFG_NAND_LUN_NUM \<longrightarrow> ch < CFG_NAND_CHANNEL_NUM \<longrightarrow>
        bit (bb_bbt p ! blk ! lun) ch = die_bad raw blk (lun, ch)))"
  using assms(5)
proof cases
  case (1 k1 k2 fs1 b1 k3 gs)
  obtain cs where k1: "k_ok k1" "k_sqes k1 = k_sqes k @ cs" "map snd cs = map erase_ppas (rev [0..<CFG_NAND_BLOCK_NUM])"
    using sweepup_ok [OF assms(1,3), of nsid "rev [0..<CFG_NAND_BLOCK_NUM]"] 1(2) by (auto simp: sweepup_disk_def simp del: upt_rec_numeral)
  have g: "grant env n" for n
    using assms(1) by (simp add: kernel_fine_def)
  obtain data meta ka kb kc s buf where d: "k_alloc env KMap k1 = (Some data, ka)" "k_alloc env KMap ka = (Some meta, kb)"
      "(disc_step env raw nsid (bus env meta) True)\<^sup>*\<^sup>* (disc_start sysmeta_initial c buf kb) s" "ds_blks s = []"
      "k_free (KMap meta) (ds_k s) = Some kc" "k_free (KMap data) kc = Some k2" "m' = ds_meta s"
    using 1(3) g by (cases) auto
  have kb: "k_ok kb" "k_sqes kb = k_sqes k1"
    using d(1,2) k1(1) g by (auto simp: k_ok_def less_Suc_eq)
  obtain bs D where i: "disc_inv raw s bs D"
    using disc_steps_inv [OF d(3) start_inv [OF kb(1)] assms(1,2)] by blast
  obtain rest1 where r1: "k_sqes (ds_k s) = k_sqes kb @ rest1"
    using disc_steps_ext [OF d(3) start_inv [OF kb(1)] assms(1,2)] by (auto simp: k_ext_def disc_start_def)
  have k2: "k_ok k2" "k_sqes k2 = k_sqes (ds_k s)"
    using d(5,6) disc_invD(1) [OF i] by (auto simp: k_free_def bind_eq_Some_conv k_ok_def dest: notin_set_remove1)
  note ex = discovery_final [OF assms(1,2) kb(1) d(3,4)]
  obtain p m where f1: "boot_wf b1" "k_ok k3" "boot_bbt_page_info b1 = BbtImg p" "bb_bbt p = map bmi_bbt (bmitbl m')"
      "map fl_lun fs1 = [0..<8]" "\<forall>f \<in> set fs1. fl_data f = Some (BbtImg p)"
      "\<exists>r. map snd (k_sqes k3) = map snd (k_sqes k2) @ r"
    using flush_bbt_ok [OF assms(1) k2(1) _ assms(4), of "bmitbl m'" nsid] disc_invD(2) [OF i] 1(4) d(7) by auto
  have f2: "boot_bbt_page_info b' = BbtImg p" "\<exists>r. map snd (k_sqes k') = map snd (k_sqes k3) @ r"
    using flush_meta_ok [OF assms(1) f1(2,1), of nsid POWER_DOWN_UNSAFE] 1(5) f1(3) by auto
  have "length fs1 = 8"
    using arg_cong [OF f1(5), of length] by simp
  then have "fs = fs1 @ drop 8 fs"
    using 1(1) by simp
  moreover have "bit (bb_bbt p ! blk ! lun) ch = die_bad raw blk (lun, ch)"
    if "0 < blk" "blk < CFG_NAND_BLOCK_NUM" "lun < CFG_NAND_LUN_NUM" "ch < CFG_NAND_CHANNEL_NUM" for blk lun ch
    using that ex(1) [of blk "(lun, ch)"] disc_invD(2) [OF i] by (simp add: f1(4) d(7) die_marked_def dies_mem bmi_wf_def)
  moreover have "\<exists>rest. map snd (k_sqes k') = map snd (k_sqes k) @ map erase_ppas (rev [0..<CFG_NAND_BLOCK_NUM]) @ rest"
    using f1(7) f2(2) k1(2,3) kb(2) r1 k2(2) by auto
  ultimately show ?thesis
    using ex(2) f1(5,6) f2(1) d(7) by (intro conjI exI [of _ p] exI [of _ fs1]) simp_all
qed


text \<open>Manufacturing leaves the valid-page counters alone.\<close>

lemma insert_keeps_vpc: "insert_blk_to_free_list m b = Some m' \<Longrightarrow> vpctbl m' = vpctbl m"
  unfolding insert_blk_to_free_list_def by (auto simp: bind_eq_Some_conv split: prod.splits)

lemma disc_step_vpc: "disc_step env raw nsid gm p s s' \<Longrightarrow> vpctbl (ds_meta s') = vpctbl (ds_meta s)"
proof (induction rule: disc_step.induct)
  case (disc_check s b bs m n)
  then show ?case
    by (auto simp: rblk_bbt_check_available_def bind_eq_Some_conv split: if_splits dest: insert_keeps_vpc)
qed simp_all

lemma manufactory_vpc:
  assumes "do_manufactory_init env raw nsid p (m, c, b, k) (m', c', b', k') fs"
  shows "vpctbl m' = vpctbl m"
proof -
  have st: "vpctbl (ds_meta s') = vpctbl (ds_meta s)" if "(disc_step env raw nsid gm p)\<^sup>*\<^sup>* s s'" for gm s s'
    using that by (induction rule: rtranclp_induct) (simp_all add: disc_step_vpc)
  have "vpctbl m2 = vpctbl m1" if "fscftl_bbt_discovery env raw nsid p (m1, c1, k1) (m2, c2, k2)" for m1 c1 k1 m2 c2 k2
    using that by cases (auto simp: disc_start_def dest: st)
  with assms show ?thesis
    by (auto elim: do_manufactory_init.cases)
qed

lemma k_free_ok:
  "r \<in> set (k_live k) \<Longrightarrow> k_ok k \<Longrightarrow> \<exists>k'. k_free r k = Some k' \<and> k_ok k' \<and> (\<forall>q \<in> set (k_live k). q \<noteq> r \<longrightarrow> q \<in> set (k_live k'))"
  by (auto simp: k_ok_def dest: notin_set_remove1)

lemma manufactory_runs:
  assumes "kernel_fine env" "raw_sized raw" "k_ok k" "boot_wf b" "bbt_issu_cnt c = bbt_cmpl_cnt c"
  shows "\<exists>r fs. do_manufactory_init env raw nsid True (sysmeta_initial, c, b, k) r fs"
proof -
  obtain k1 where k1: "sweepup_disk env nsid k = Some k1" "k_ok k1"
    using sweepup_ok [OF assms(1,3)] unfolding sweepup_disk_def by blast
  let ?n = "k_n k1"
  let ?ka = "k1\<lparr>k_n := Suc ?n, k_live := KMap ?n # k_live k1\<rparr>"
  let ?kb = "?ka\<lparr>k_n := Suc (Suc ?n), k_live := KMap (Suc ?n) # k_live ?ka\<rparr>"
  have d: "k_alloc env KMap k1 = (Some ?n, ?ka)" "k_alloc env KMap ?ka = (Some (Suc ?n), ?kb)" and kb: "k_ok ?kb"
    using assms(1) k1(2) by (auto simp: kernel_fine_def k_ok_def less_Suc_eq)
  obtain s where s: "(disc_step env raw nsid (bus env (Suc ?n)) True)\<^sup>*\<^sup>* (disc_start sysmeta_initial c (\<lambda>_. []) ?kb) s" "ds_blks s = []"
    using discovery_runs [OF assms(1,2) kb assms(5)] by blast
  have "k_ext ?kb (ds_k s)"
    using disc_steps_ext [OF s(1) start_inv [OF kb] assms(1,2)] by (simp add: disc_start_def)
  then have live: "KMap ?n \<in> set (k_live (ds_k s))" "KMap (Suc ?n) \<in> set (k_live (ds_k s))"
    by (auto simp: k_ext_def)
  obtain bs D where i: "disc_inv raw s bs D"
    using disc_steps_inv [OF s(1) start_inv [OF kb] assms(1,2)] by blast
  obtain kc k2 where f: "k_free (KMap (Suc ?n)) (ds_k s) = Some kc" "k_free (KMap ?n) kc = Some k2" "k_ok k2"
    using k_free_ok [OF live(2) disc_invD(1) [OF i]] k_free_ok [of "KMap ?n"] live(1) by (metis kres.inject(4) n_not_Suc_n)
  have disc: "fscftl_bbt_discovery env raw nsid True (sysmeta_initial, c, k1) (ds_meta s, ds_cnt s, k2)"
    by (rule disc_run [OF d s f(1,2)])
  obtain fs b1 k3 where b1: "bootblk_flush_bbt_page env nsid (bmitbl (ds_meta s)) b k2 = Some (fs, b1, k3)" "boot_wf b1" "k_ok k3"
    using flush_bbt_ok [OF assms(1) f(3) disc_invD(2) [OF i] assms(4)] by blast
  then obtain gs b' k' where "bootblk_flush_meta_page env nsid POWER_DOWN_UNSAFE b1 k3 = Some (gs, b', k')"
    using flush_meta_ok [OF assms(1) b1(3,2)] by blast
  from do_manufactory_init.intros [OF k1(1) disc b1(1) this] show ?thesis
    by blast
qed

lemma boot_wf_initial: "boot_wf \<lparr>boot_bbt_page_info = BbtImg bbt_page_initial, boot_meta_page_info = MetaImg meta_page_initial\<rparr>"
  by (auto simp: boot_wf_def bbt_page_initial_def meta_page_initial_def)


end
