(* ===== verification/Power_Cycle.thy ===== *)
theory Power_Cycle
  imports Write_Reach Mcp
begin

text \<open>
  Shut-down and restart, \<open>build_recovery/power-cycle.c\<close> and \<open>crash-recovery.c\<close>: writing system
  tables through the write cache, padding the partial entity, the flush at module exit and the recovery
  at module load.
\<close>

section \<open>System tables through the write cache\<close>

text \<open>
  One turn of the inner loop of \<open>flush_sysmeta_to_wcb\<close>; the second component counts the pages of the
  source. A page whose LBA lies outside the system zones is counted but not copied.
\<close>

definition sysmeta_slot :: "page list \<Rightarrow> nat \<Rightarrow> u16 \<Rightarrow> ftl \<times> nat \<Rightarrow> (ftl \<times> nat) option" where
  "sysmeta_slot src_base e pos = (\<lambda>(s, idx). do {
     w \<leftarrow> aget (entities s) e;
     lba \<leftarrow> aget (we_lba w) (unat pos);
     s \<leftarrow> (if EXTEND_LBA_BASE \<le> unat lba \<and> unat lba < EXTEND_LBA_RSVD0 then do {
            src \<leftarrow> aget src_base idx;
            d \<leftarrow> aget (entities s) (unat (we_index w));
            dat \<leftarrow> aset (we_data d) (unat pos) src;
            Some (put_entity (unat (we_index w)) (d\<lparr>we_data := dat\<rparr>) s)
          } else Some s);
     w \<leftarrow> aget (entities s) e;
     if unat (we_fill_cnt w + 1) = RAID_LUN_SEC_NUM then do {
       s \<leftarrow> push_full (put_entity e (w\<lparr>we_fill_cnt := 0\<rparr>) s) e;
       Some (s, Suc idx)
     } else Some (put_entity e (w\<lparr>we_fill_cnt := we_fill_cnt w + 1\<rparr>) s, Suc idx)
   })"

definition flush_sysmeta_to_wcb :: "wcb_bio_ctx \<Rightarrow> page list \<Rightarrow> ftl \<Rightarrow> ftl option" where
  "flush_sysmeta_to_wcb res src_base s = do {
     (s, _) \<leftarrow> for_ctx res (sysmeta_slot src_base) (s, 0);
     Some s
   }"

text \<open>
  The loop of \<open>flush_ftl_internal_systbl\<close>. While the cache has no room it sleeps; \<open>idle\<close> is what the
  other threads do to the state meanwhile. The result of \<open>alloc_wcb_core\<close> is not looked at.
\<close>

partial_function (option) flush_systbl_loop :: "(ftl \<Rightarrow> ftl option) \<Rightarrow> page list \<Rightarrow> u32 \<Rightarrow> u32 \<Rightarrow> ftl \<Rightarrow> ftl option" where
  "flush_systbl_loop idle databuf left_ppas slba s = (
     if left_ppas = 0 then Some s
     else do {
       avail \<leftarrow> wcb_available s 1;
       if avail then do {
         (_, s, res) \<leftarrow> alloc_wcb_core s (ucast slba) 1 wcb_bio_ctx_zero;
         s \<leftarrow> flush_sysmeta_to_wcb res databuf s;
         flush_systbl_loop idle (tl databuf) (left_ppas - 1) (slba + 1) s
       } else do {
         s \<leftarrow> idle s;
         flush_systbl_loop idle databuf left_ppas slba s
       }
     })"

definition flush_ftl_internal_systbl :: "(ftl \<Rightarrow> ftl option) \<Rightarrow> page list \<Rightarrow> u32 \<Rightarrow> u32 \<Rightarrow> ftl \<Rightarrow> ftl option" where
  "flush_ftl_internal_systbl idle buff nr_ppas slba s = flush_systbl_loop idle buff nr_ppas slba s"

text \<open>
  \<open>flush_dummy_lun\<close> pads the partial entity and hands it over. The loop runs over \<open>i\<close> but clears the
  page at \<open>pos\<close> in every turn.
\<close>

definition zero_page :: page where
  "zero_page = replicate EXP_PPA_SIZE 0"

fun dummy_clear :: "nat \<Rightarrow> u16 \<Rightarrow> nat list \<Rightarrow> ftl \<Rightarrow> ftl option" where
  "dummy_clear e pos [] s = Some s"
| "dummy_clear e pos (i # is) s = do {
     w \<leftarrow> aget (entities s) e;
     d \<leftarrow> aget (entities s) (unat (we_index w));
     dat \<leftarrow> aset (we_data d) (unat pos) zero_page;
     dummy_clear e pos is (put_entity (unat (we_index w)) (d\<lparr>we_data := dat\<rparr>) s)
   }"

definition flush_dummy_lun :: "ftl \<Rightarrow> ftl option" where
  "flush_dummy_lun s = do {
     p \<leftarrow> partial_entity (ctl s);
     w \<leftarrow> aget (entities s) p;
     let pos = we_pos w;
     if pos = 0 then Some s
     else do {
       s \<leftarrow> dummy_clear p pos [unat pos..<RAID_LUN_SEC_NUM] s;
       s \<leftarrow> push_full s p;
       w \<leftarrow> aget (entities s) p;
       (_, s) \<leftarrow> get_next_lun_entity s (we_baddr w);
       w \<leftarrow> aget (entities s) p;
       Some (put_entity p (w\<lparr>we_fill_cnt := 0\<rparr>) s)
     }
   }"

text \<open>\<open>l2pages\<close> is the mapping table as pages of memory.\<close>

definition flush_user_l2ptbl :: "(ftl \<Rightarrow> ftl option) \<Rightarrow> page list \<Rightarrow> ftl \<Rightarrow> ftl option" where
  "flush_user_l2ptbl idle l2pages s = do {
     s \<leftarrow> flush_ftl_internal_systbl idle l2pages (of_nat USR_FTLTBL_SEC_NUM) (of_nat EXTEND_LBA_UFTL) s;
     flush_dummy_lun s
   }"

section \<open>Module exit and module load\<close>

text \<open>The rebuilding steps are not written yet: both routines only log.\<close>

definition rebuild_systbl :: "sysmeta \<Rightarrow> int \<times> sysmeta" where
  "rebuild_systbl m = (0, m)"

definition crash_recovery :: "sysmeta \<Rightarrow> int \<times> sysmeta" where
  "crash_recovery m = (0, m)"

definition flush_down_systbl :: "kenv \<Rightarrow> u32 \<Rightarrow> sysmeta \<Rightarrow> boot \<Rightarrow> kst \<Rightarrow> (flight list \<times> boot \<times> kst) option" where
  "flush_down_systbl env nsid m b k = do {
     (fs, b, k) \<leftarrow> bootblk_flush_bbt_page env nsid (bmitbl m) b k;
     (gs, b, k) \<leftarrow> bootblk_flush_meta_page env nsid POWER_DOWN_SAFE b k;
     Some (fs @ gs, b, k)
   }"

text \<open>The local \<open>power_flag\<close> is never read from the recovered meta page.\<close>

definition try_recovery_systbl :: "kenv \<Rightarrow> (nat \<Rightarrow> u64 list \<Rightarrow> boot_image) \<Rightarrow> u32 \<Rightarrow> sysmeta \<Rightarrow> boot \<Rightarrow> kst \<Rightarrow>
    (int \<times> sysmeta \<times> boot \<times> flight list \<times> kst) option" where
  "try_recovery_systbl env rdata nsid m b k = do {
     let power_flag = POWER_DOWN_SAFE;
     (result, b, k) \<leftarrow> bootblk_recovery_meta_page env rdata nsid b k;
     if result \<noteq> 0 then Some (1, m, b, [], k)
     else do {
       (result, b, k) \<leftarrow> bootblk_recovery_bbt_page env rdata nsid b k;
       if result \<noteq> 0 then Some (1, m, b, [], k)
       else if power_flag \<noteq> POWER_DOWN_SAFE \<and> power_flag \<noteq> POWER_DOWN_UNSAFE then Some (1, m, b, [], k)
       else do {
         let (result, m) = (if power_flag = POWER_DOWN_SAFE then rebuild_systbl m else crash_recovery m);
         (fs, b, k) \<leftarrow> bootblk_flush_bbt_page env nsid (bmitbl m) b k;
         (gs, b, k) \<leftarrow> bootblk_flush_meta_page env nsid POWER_DOWN_UNSAFE b k;
         Some (result, m, b, fs @ gs, k)
       }
     }
   }"

section \<open>One system page\<close>

text \<open>A page of a system table as a request, to reuse the laws of appending to an entity.\<close>

definition page_bio :: "page \<Rightarrow> bio" where
  "page_bio pg = \<lparr>bi_sector = 0, bi_size = 0, bi_pages = [pg]\<rparr>"

definition in_zone :: "u32 \<Rightarrow> bool" where
  "in_zone lba \<longleftrightarrow> EXTEND_LBA_BASE \<le> unat lba \<and> unat lba < EXTEND_LBA_RSVD0"

lemma sysmeta_slot_in:
  assumes "e < 16" "length (entities s) = 16" "entity_ok (entities s ! e)" "we_index (entities s ! e) = of_nat e"
    and "unat q < 128" "in_zone (we_lba (entities s ! e) ! unat q)" "src \<noteq> []" "unat (we_fill_cnt (entities s ! e)) < 127"
  shows "sysmeta_slot src e q (s, 0) =
    Some (put_entity e ((entities s ! e)\<lparr>we_data := (we_data (entities s ! e))[unat q := hd src],
        we_fill_cnt := we_fill_cnt (entities s ! e) + 1\<rparr>) s, 1)"
proof -
  have c: "unat (we_fill_cnt (entities s ! e) + 1) \<noteq> 128"
    using assms(8) by (simp add: unat_word_ariths)
  have "unat (of_nat e :: u32) = e"
    using assms(1) by (simp add: unsigned_of_nat take_bit_nat_eq_self)
  then show ?thesis
    using assms c by (simp add: sysmeta_slot_def in_zone_def entity_ok_def hd_conv_nth)
qed

lemma append_one:
  assumes "entity_ok w" "unat (we_pos w) < 128"
  shows "appended 1 slba (page_bio pg) w = (fill 1 slba (we_baddr w + ucast (we_pos w)) w)
    \<lparr>we_data := (we_data w)[unat (we_pos w) := pg], we_fill_cnt := we_fill_cnt w + 1\<rparr>"
proof -
  have "overwrite (unat (we_pos w)) [pg] (we_data w) = (we_data w)[unat (we_pos w) := pg]"
    using overwrite_snoc [of "unat (we_pos w)" "[]" "we_data w" pg] assms by (simp add: entity_ok_def)
  then show ?thesis
    by (simp add: appended_def copied_def page_bio_def put_slot_def)
qed

lemma sys_page_step:
  assumes inv: "wp_inv s E F p B" and pos: "ppos s p < 127" and z: "in_zone lba" and src: "src \<noteq> []"
  defines "w \<equiv> entities s ! p"
  shows "\<exists>s1 res. alloc_wcb_core s (ucast lba) 1 wcb_bio_ctx_zero = Some (0, s1, res) \<and>
    flush_sysmeta_to_wcb res src s1 = Some (put_entity p (appended 1 (ucast lba) (page_bio (hd src)) w) s)"
proof -
  note i = wp_invD [OF inv, folded w_def]
  define w1 where "w1 = fill 1 (ucast lba) (we_baddr w + ucast (we_pos w)) w"
  let ?s1 = "put_entity p w1 s"
  have al: "alloc_wcb_core s (ucast lba) 1 wcb_bio_ctx_zero = Some (0, ?s1, [ctx p (we_pos w) 1, wcb_ctx_zero, wcb_ctx_zero])"
    using alloc_in [of s p 1 "ucast lba"] i pos by (simp add: w_def w1_def)
  have lba: "we_lba w1 ! unat (we_pos w) = lba"
    using fill_nth(1) [OF i(5), of 1 "ucast lba" "we_baddr w + ucast (we_pos w)" "unat (we_pos w)"] pos
    by (simp add: w_def w1_def)
  have fc: "unat (we_fill_cnt w) < 127"
    using i(6) pos by (simp add: partial_ok_def unat_ucast_wide w_def)
  have w1: "entity_ok w1" "we_index w1 = of_nat p" "we_fill_cnt w1 = we_fill_cnt w" "we_data w1 = we_data w"
    unfolding w1_def using i by (simp_all only: entity_ok_fill fill_same)
  have "sysmeta_slot src p (we_pos w) (?s1, 0) =
      Some (put_entity p (w1\<lparr>we_data := (we_data w)[unat (we_pos w) := hd src], we_fill_cnt := we_fill_cnt w + 1\<rparr>) ?s1, 1)"
    using sysmeta_slot_in [of p ?s1 "we_pos w" src] i(2,3) pos z lba src fc w1 by (simp add: w_def)
  moreover have "for_ctx [ctx p (we_pos w) 1, wcb_ctx_zero, wcb_ctx_zero] (sysmeta_slot src) (?s1, 0) = sysmeta_slot src p (we_pos w) (?s1, 0)"
    using pos by (subst for_ctx_one) (simp_all add: w_def cong: bind_option_cong)
  ultimately have "flush_sysmeta_to_wcb [ctx p (we_pos w) 1, wcb_ctx_zero, wcb_ctx_zero] src ?s1 =
      Some (put_entity p (appended 1 (ucast lba) (page_bio (hd src)) w) s)"
    unfolding flush_sysmeta_to_wcb_def append_one [OF i(5) i(7) [folded w_def], of "ucast lba", folded w1_def] by simp
  with al show ?thesis by blast
qed

lemma in_zone_next: "in_zone lba \<Longrightarrow> unat (lba + 1) = Suc (unat lba)"
  by (simp add: in_zone_def zone_defs unat_word_ariths)

lemma sys_page_entity:
  fixes lba :: u32 and pg :: page
  assumes "wp_inv s E F p B" "ppos s p < 127"
  defines "w \<equiv> entities s ! p" and "w' \<equiv> appended 1 (ucast lba) (page_bio pg) (entities s ! p)"
  shows "wp_inv (put_entity p w' s) E F p B" "unat (we_pos w') = Suc (unat (we_pos w))" "we_baddr w' = we_baddr w"
    "we_lba w' = (we_lba w)[unat (we_pos w) := lba]"
    "we_ppa w' = (we_ppa w)[unat (we_pos w) := ucast (we_baddr w + ucast (we_pos w))]"
    "we_data w' = (we_data w)[unat (we_pos w) := pg]"
proof -
  note i = wp_invD [OF assms(1)]
  have eq: "w' = (put_slot (ucast lba) (we_baddr w + ucast (we_pos w)) w)\<lparr>we_data := (we_data w)[unat (we_pos w) := pg],
      we_fill_cnt := we_fill_cnt w + 1\<rparr>"
    using append_one [OF i(5,7), of "ucast lba" pg] by (simp add: w'_def w_def)
  show "wp_inv (put_entity p w' s) E F p B"
    using wp_inv_put [OF assms(1)] entity_ok_appended [OF i(5), of 1 "page_bio pg"] partial_ok_appended [OF i(6,5), of 1] assms(2)
      links_appended by (simp add: w'_def page_bio_def)
  show "unat (we_pos w') = Suc (unat (we_pos w))"
    using assms(2) unat_pos_Suc [of "we_pos w"] by (simp add: eq put_slot_def w_def)
  show "we_baddr w' = we_baddr w" "we_lba w' = (we_lba w)[unat (we_pos w) := lba]"
    "we_ppa w' = (we_ppa w)[unat (we_pos w) := ucast (we_baddr w + ucast (we_pos w))]"
    "we_data w' = (we_data w)[unat (we_pos w) := pg]"
    by (simp_all add: eq put_slot_def)
qed

lemma systbl_loop_ok:
  assumes "wp_inv s E F p B" "ppos s p + n < 128" "E \<noteq> [] \<or> ppos s p + n + 2 < 128" "n \<le> length buf"
    "EXTEND_LBA_BASE \<le> unat slba" "unat slba + n \<le> EXTEND_LBA_RSVD0"
  defines "w \<equiv> entities s ! p"
  shows "\<exists>w'. flush_systbl_loop idle buf (of_nat n) slba s = Some (put_entity p w' s) \<and> wp_inv (put_entity p w' s) E F p B \<and>
    unat (we_pos w') = unat (we_pos w) + n \<and> we_baddr w' = we_baddr w \<and>
    (\<forall>j < unat (we_pos w). we_lba w' ! j = we_lba w ! j \<and> we_ppa w' ! j = we_ppa w ! j \<and> we_data w' ! j = we_data w ! j) \<and>
    (\<forall>i < n. we_lba w' ! (unat (we_pos w) + i) = slba + of_nat i \<and> we_data w' ! (unat (we_pos w) + i) = buf ! i \<and>
       we_ppa w' ! (unat (we_pos w) + i) = ucast (we_baddr w + of_nat (unat (we_pos w) + i)))"
  using assms(1-6) unfolding w_def
proof (induction n arbitrary: s buf slba)
  case 0
  then have "put_entity p (entities s ! p) s = s"
    using wp_invD(2,3) by (simp add: put_entity_self)
  with 0 show ?case
    by (intro exI [of _ "entities s ! p"]) (simp add: flush_systbl_loop.simps)
next
  case (Suc n)
  note i = wp_invD [OF Suc(2)]
  let ?w = "entities s ! p"
  let ?v = "appended 1 (ucast slba) (page_bio (hd buf)) ?w"
  let ?s = "put_entity p ?v s"
  have pos: "ppos s p < 127" and z: "in_zone slba" and ne: "buf \<noteq> []"
    using Suc(3,5,6,7) by (auto simp: in_zone_def)
  note v = sys_page_entity [OF Suc(2) pos, of slba "hd buf"]
  have e: "entities ?s ! p = ?v"
    using i(2,3) by simp
  have left: "(of_nat (Suc n) :: u32) \<noteq> 0" "(of_nat (Suc n) :: u32) - 1 = of_nat n"
    using Suc(3) by (simp_all add: word_unat_eq_iff unsigned_of_nat take_bit_nat_eq_self del: of_nat_Suc) simp
  have av: "wcb_available s 1 = Some True"
    using wcb_available_iff [OF Suc(2), of 1] Suc(4) by auto
  obtain s1 res where st: "alloc_wcb_core s (ucast slba) 1 wcb_bio_ctx_zero = Some (0, s1, res)" "flush_sysmeta_to_wcb res buf s1 = Some ?s"
    using sys_page_step [OF Suc(2) pos z ne] by blast
  have loop: "flush_systbl_loop idle buf (of_nat (Suc n)) slba s = flush_systbl_loop idle (tl buf) (of_nat n) (slba + 1) ?s"
    using left av st by (subst flush_systbl_loop.simps) simp
  have b: "\<And>j. j < n \<Longrightarrow> tl buf ! j = buf ! Suc j"
    using Suc(5) by (simp add: nth_tl)
  have h: "ppos ?s p + n < 128" "E \<noteq> [] \<or> ppos ?s p + n + 2 < 128" "n \<le> length (tl buf)"
      "EXTEND_LBA_BASE \<le> unat (slba + 1)" "unat (slba + 1) + n \<le> EXTEND_LBA_RSVD0"
    using Suc(3-7) in_zone_next [OF z] v(2) unfolding e by auto
  obtain w' where w': "flush_systbl_loop idle (tl buf) (of_nat n) (slba + 1) ?s = Some (put_entity p w' ?s)"
      "wp_inv (put_entity p w' ?s) E F p B" "unat (we_pos w') = unat (we_pos ?v) + n" "we_baddr w' = we_baddr ?v"
      "\<forall>j < unat (we_pos ?v). we_lba w' ! j = we_lba ?v ! j \<and> we_ppa w' ! j = we_ppa ?v ! j \<and> we_data w' ! j = we_data ?v ! j"
      "\<forall>i < n. we_lba w' ! (unat (we_pos ?v) + i) = slba + 1 + of_nat i \<and> we_data w' ! (unat (we_pos ?v) + i) = tl buf ! i \<and>
         we_ppa w' ! (unat (we_pos ?v) + i) = ucast (we_baddr ?v + of_nat (unat (we_pos ?v) + i))"
    using Suc(1) [OF v(1) h, unfolded e] by blast
  have "we_lba w' ! (unat (we_pos ?w) + i) = slba + of_nat i \<and> we_data w' ! (unat (we_pos ?w) + i) = buf ! i \<and>
       we_ppa w' ! (unat (we_pos ?w) + i) = ucast (we_baddr ?w + of_nat (unat (we_pos ?w) + i))" if "i < Suc n" for i
  proof (cases i)
    case 0
    with w'(5) v i(5) pos ne show ?thesis
      by (simp add: entity_ok_def hd_conv_nth)
  next
    case (Suc j)
    then show ?thesis
      using w'(6) [rule_format, of j, unfolded v(2,3)] that b [of j] by (simp add: algebra_simps)
  qed
  moreover have "we_lba w' ! j = we_lba ?w ! j \<and> we_ppa w' ! j = we_ppa ?w ! j \<and> we_data w' ! j = we_data ?w ! j" if "j < unat (we_pos ?w)" for j
    using w'(5) [rule_format, of j] that v by simp
  ultimately show ?case
    using loop w'(1-4) v(2,3) by (intro exI [of _ w']) auto
qed

text \<open>C38: System tables reach the write cache. As long as the pages fit into the partial entity and the
  code's estimate finds room, \<open>flush_ftl_internal_systbl\<close> returns, has put page by page the given memory
  into the next slots under consecutive LBAs of the system zone and consecutive physical addresses, has
  kept the earlier slots and the invariant of the write path, and has not touched the mapping of user
  LBAs.\<close>

theorem systbl_pages_cached:
  assumes "wp_inv s E F p B" and "ppos s p + n < RAID_LUN_SEC_NUM" and "E \<noteq> [] \<or> ppos s p + n + 2 < RAID_LUN_SEC_NUM"
    and "n \<le> length buf" and "EXTEND_LBA_BASE \<le> unat slba" and "unat slba + n \<le> EXTEND_LBA_RSVD0"
  shows "\<exists>s'. flush_ftl_internal_systbl idle buf (of_nat n) slba s = Some s' \<and> wp_inv s' E F p B \<and> l2ptbl s' = l2ptbl s \<and>
    ppos s' p = ppos s p + n \<and> we_baddr (entities s' ! p) = we_baddr (entities s ! p) \<and>
    (\<forall>j < ppos s p. we_lba (entities s' ! p) ! j = we_lba (entities s ! p) ! j \<and> we_data (entities s' ! p) ! j = we_data (entities s ! p) ! j) \<and>
    (\<forall>i < n. we_lba (entities s' ! p) ! (ppos s p + i) = slba + of_nat i \<and> we_data (entities s' ! p) ! (ppos s p + i) = buf ! i \<and>
       we_ppa (entities s' ! p) ! (ppos s p + i) = ucast (we_baddr (entities s ! p) + of_nat (ppos s p + i)))"
proof -
  have r: "ppos s p + n < 128" "E \<noteq> [] \<or> ppos s p + n + 2 < 128"
    using assms(2,3) by simp_all
  obtain w' where w': "flush_systbl_loop idle buf (of_nat n) slba s = Some (put_entity p w' s)" "wp_inv (put_entity p w' s) E F p B"
    "unat (we_pos w') = ppos s p + n" "we_baddr w' = we_baddr (entities s ! p)"
    "\<forall>j < ppos s p. we_lba w' ! j = we_lba (entities s ! p) ! j \<and> we_ppa w' ! j = we_ppa (entities s ! p) ! j \<and> we_data w' ! j = we_data (entities s ! p) ! j"
    "\<forall>i < n. we_lba w' ! (ppos s p + i) = slba + of_nat i \<and> we_data w' ! (ppos s p + i) = buf ! i \<and>
       we_ppa w' ! (ppos s p + i) = ucast (we_baddr (entities s ! p) + of_nat (ppos s p + i))"
    using systbl_loop_ok [OF assms(1) r assms(4-6)] by blast
  have "entities (put_entity p w' s) ! p = w'"
    using wp_invD(2,3) [OF assms(1)] by simp
  with w' show ?thesis
    unfolding flush_ftl_internal_systbl_def by (intro exI [of _ "put_entity p w' s"]) (simp add: put_entity_def)
qed

theorem systbl_pages_cached_witness:
  "\<exists>s s'. boot_ftl = Some s \<and> flush_ftl_internal_systbl Some [[1], [2]] 2 (of_nat EXTEND_LBA_BMITBL) s = Some s' \<and>
     we_data (entities s' ! 0) ! 1 = [2] \<and> we_lba (entities s' ! 0) ! 0 = of_nat EXTEND_LBA_BMITBL"
proof -
  obtain s where s: "boot_ftl = Some s" "wp_inv s [1..<16] [] 0 [2]" "ppos s 0 = 0"
    using boot_ok by (auto simp: wcb_abs_def simp del: upt_Suc)
  have z: "EXTEND_LBA_BASE \<le> unat (of_nat EXTEND_LBA_BMITBL :: u32)" "unat (of_nat EXTEND_LBA_BMITBL :: u32) + 2 \<le> EXTEND_LBA_RSVD0"
    by (simp_all add: zone_defs)
  have "\<exists>s'. flush_ftl_internal_systbl Some [[1], [2]] (of_nat 2) (of_nat EXTEND_LBA_BMITBL) s = Some s' \<and>
    (\<forall>i < 2. we_lba (entities s' ! 0) ! (0 + i) = of_nat EXTEND_LBA_BMITBL + of_nat i \<and> we_data (entities s' ! 0) ! (0 + i) = [[1], [2]] ! i)"
    using systbl_pages_cached [OF s(2), of 2 "[[1], [2]]" "of_nat EXTEND_LBA_BMITBL" Some] s(3) z by (auto simp del: upt_Suc)
  then obtain s' where f: "flush_ftl_internal_systbl Some [[1], [2]] 2 (of_nat EXTEND_LBA_BMITBL) s = Some s'"
    "\<forall>i < 2. we_lba (entities s' ! 0) ! (0 + i) = of_nat EXTEND_LBA_BMITBL + of_nat i \<and> we_data (entities s' ! 0) ! (0 + i) = [[1], [2]] ! i"
    by auto
  show ?thesis
    using s(1) f(1) f(2) [rule_format, of 0] f(2) [rule_format, of 1] by auto
qed

section \<open>Padding the partial entity\<close>

lemma dummy_clear_ok:
  assumes "p < 16" "length (entities s) = 16" "entity_ok (entities s ! p)" "we_index (entities s ! p) = of_nat p" "unat pos < 128"
  defines "w \<equiv> entities s ! p"
  shows "dummy_clear p pos (i # is) s = Some (put_entity p (w\<lparr>we_data := (we_data w)[unat pos := zero_page]\<rparr>) s)"
  using assms(1-5) unfolding w_def
proof (induction "is" arbitrary: s i)
  case Nil
  then show ?case by (simp add: entity_ok_def unsigned_of_nat take_bit_nat_eq_self)
next
  case (Cons j "is")
  let ?w = "entities s ! p"
  let ?s = "put_entity p (?w\<lparr>we_data := (we_data ?w)[unat pos := zero_page]\<rparr>) s"
  have "dummy_clear p pos (i # j # is) s = dummy_clear p pos (j # is) ?s"
    using Cons(2-6) by (simp add: entity_ok_def unsigned_of_nat take_bit_nat_eq_self)
  also have "\<dots> = Some (put_entity p ((entities ?s ! p)\<lparr>we_data := (we_data (entities ?s ! p))[unat pos := zero_page]\<rparr>) ?s)"
    by (rule Cons(1)) (use Cons(2-6) in \<open>simp_all add: entity_ok_def\<close>)
  finally show ?case
    using Cons(2,3) by simp
qed

text \<open>The padding of the partial entity is not cleared. \<open>flush_dummy_lun\<close> hands the partial entity to the
  writer and opens the next one, but of the unused slots it clears only the first: the others keep the
  data and the physical addresses of the entity's previous use, with which the writer will program
  them.\<close>

theorem dummy_lun_stale:
  assumes "wp_inv s (x # E) F p B" and "0 < ppos s p"
  defines "w \<equiv> entities s ! p"
  shows "\<exists>s' w'. flush_dummy_lun s = Some s' \<and> cache_rep s' E (F @ [p]) \<and> partial_entity (ctl s') = Some x \<and> ppos s' x = 0 \<and>
    entities s' ! p = w' \<and> we_pos w' = we_pos w \<and> we_ppa w' = we_ppa w \<and> we_data w' = (we_data w)[unat (we_pos w) := zero_page] \<and>
    (\<forall>j. unat (we_pos w) < j \<longrightarrow> we_data w' ! j = we_data w ! j)"
proof -
  note i = wp_invD [OF assms(1)]
  let ?w1 = "w\<lparr>we_data := (we_data w)[unat (we_pos w) := zero_page]\<rparr>"
  let ?s1 = "put_entity p ?w1 s"
  have x: "x < 16" "x \<noteq> p"
    using i(1,11) cache_rep_bound by fastforce+
  have pos: "we_pos w \<noteq> 0" "unat (we_pos w) < 128"
    using assms(2) i(7) by (auto simp: w_def)
  have c1: "dummy_clear p (we_pos w) [unat (we_pos w)..<128] s = Some ?s1"
    unfolding upt_conv_Cons [OF pos(2)] using dummy_clear_ok [OF i(3,2,5,8,7)] by (simp add: w_def)
  have r1: "cache_rep ?s1 (x # E) F"
    using i(1) by (rule cache_rep_put) (simp add: links_def w_def)
  obtain s2 where s2: "push_full ?s1 p = Some s2" "cache_rep s2 (x # E) (F @ [p])" "same_rest ?s1 s2"
    using push_full_ok [OF r1 i(3)] i(11) by auto
  have l2: "length (entities s2) = 16"
    by (rule cache_rep_length [OF s2(2)])
  have p2: "payload (entities s2 ! p) = payload ?w1" and m2: "sysm s2 = sysm s"
    using same_rest_nth [OF s2(3), of p] s2(3) i(2,3) l2 by (simp_all add: same_rest_def put_entity_def)
  obtain b m' where b: "get_next_entity_baddr (sysm s2) (we_baddr (entities s2 ! p)) = Some (b, m')"
    using next_baddr_ok [OF i(10)] m2 by metis
  obtain s3 where s3: "get_next_lun_entity s2 (we_baddr (entities s2 ! p)) = Some (Some x, s3)" "cache_rep s3 E (F @ [p])"
      "partial_entity (ctl s3) = Some x"
      "\<forall>i < 16. payload (entities s3 ! i) = payload (if i = x then fresh_entity b (entities s2 ! x) else entities s2 ! i)"
    using get_next_lun_entity_ok [OF s2(2) b] by blast
  let ?w3 = "entities s3 ! p"
  let ?s4 = "put_entity p (?w3\<lparr>we_fill_cnt := 0\<rparr>) s3"
  have l3: "length (entities s3) = 16"
    by (rule cache_rep_length [OF s3(2)])
  have p3: "payload ?w3 = payload ?w1" "we_pos (entities s3 ! x) = 0"
    using s3(4) i(3) x p2 payload_eqD(7) [of "entities s3 ! x" "fresh_entity b (entities s2 ! x)"]
    by (auto simp: fresh_entity_def)
  have f: "flush_dummy_lun s = Some ?s4"
    using i(2-4) pos c1 s2(1) l2 s3(1) l3 by (simp add: flush_dummy_lun_def w_def Let_def del: upt_Suc)
  have r4: "cache_rep ?s4 E (F @ [p])"
    using s3(2) by (rule cache_rep_put) (simp add: links_def)
  show ?thesis
    using f r4 s3(3) p3 l3 i(3) x payload_eqD [OF p3(1)]
    by (intro exI [of _ ?s4] exI [of _ "entities ?s4 ! p"]) simp
qed

theorem dummy_lun_stale_witness:
  "\<exists>s s1 s' pg. boot_ftl = Some s \<and> flush_ftl_internal_systbl Some [[1]] 1 (of_nat EXTEND_LBA_BMITBL) s = Some s1 \<and>
     flush_dummy_lun s1 = Some s' \<and> we_data (entities s1 ! 0) ! 5 = pg \<and> we_data (entities s' ! 0) ! 5 = pg \<and> cache_rep s' [2..<16] [0]"
proof -
  have "(1 :: nat) < 16"
    by simp
  from upt_conv_Cons [OF this] have split: "[1..<16] = 1 # [2..<16]"
    unfolding Suc_1 .
  obtain s where b: "boot_ftl = Some s" "wp_inv s [1..<16] [] 0 [2]" "ppos s 0 = 0"
    using boot_ok by (auto simp: wcb_abs_def simp del: upt_Suc)
  note s = b(1) b(2) [unfolded split] b(3)
  have z: "EXTEND_LBA_BASE \<le> unat (of_nat EXTEND_LBA_BMITBL :: u32)" "unat (of_nat EXTEND_LBA_BMITBL :: u32) + 1 \<le> EXTEND_LBA_RSVD0"
    by (simp_all add: zone_defs)
  obtain w' where s1: "flush_ftl_internal_systbl Some [[1]] 1 (of_nat EXTEND_LBA_BMITBL) s = Some (put_entity 0 w' s)"
      "wp_inv (put_entity 0 w' s) (1 # [2..<16]) [] 0 [2]" "unat (we_pos w') = 1"
    using systbl_loop_ok [OF s(2) _ _ _ z(1), of 1 "[[1]]" Some] z(2) s(3)
    unfolding flush_ftl_internal_systbl_def by (auto simp del: upt_Suc upt_rec_numeral)
  have "0 < ppos (put_entity 0 w' s) 0"
    using s1(3) wp_invD(2) [OF s(2)] by simp
  from dummy_lun_stale [OF s1(2) this] s s1 show ?thesis
    using wp_invD(2) [OF s(2)] by (auto simp del: upt_Suc upt_rec_numeral)
qed

section \<open>Recovery\<close>

lemma search_addr: "length (bm_meta_ch_iter m) = 4 \<Longrightarrow> binary_search_meta_page m = Some (boot_addr (bm_meta_ch_iter m ! 0) 1)"
  by (simp add: binary_search_meta_page_def boot_addr_def)

lemma recover_meta_ok:
  assumes "kernel_fine env" "k_ok k" "boot_meta_page_info b = MetaImg m" "length (bm_meta_ch_iter m) = 4"
    "device_holds env rdata (boot_addr (bm_meta_ch_iter m ! 0) 1) img" "bootblk_page_mdw_check img FSCFTL_METAPG_READ"
  shows "\<exists>k'. bootblk_recovery_meta_page env rdata nsid b k = Some (0, b\<lparr>boot_meta_page_info := img\<rparr>, k') \<and> k_live k' = k_live k \<and> k_n k < k_n k'"
proof -
  let ?k = "k\<lparr>k_n := Suc (k_n k), k_live := KCmd (k_n k) # k_live k\<rparr>"
  have g: "grant env (k_n k)" and ok: "k_ok ?k"
    using assms(1,2) by (auto simp: kernel_fine_def k_ok_def less_Suc_eq)
  obtain k' where "bootblk_get_mirror env rdata nsid FSCFTL_METAPG_READ zero_image (boot_addr (bm_meta_ch_iter m ! 0) 1) ?k = Some (0, img, k')"
      "k_live k' = k_live ?k" "k_n ?k < k_n k'"
    using get_mirror_holds [OF assms(1) ok assms(5,6)] by blast
  then show ?thesis
    using g assms(3) search_addr [OF assms(4)] by (simp add: bootblk_recovery_meta_page_def)
qed

lemma k_ok_later: "k_ok k \<Longrightarrow> k_live k' = k_live k \<Longrightarrow> k_n k < k_n k' \<Longrightarrow> k_ok k'"
  by (auto simp: k_ok_def)

text \<open>Recovery on a device that holds both boot pages.\<close>

lemma recovery_final:
  assumes "kernel_fine env" and "k_ok k" and "bmi_wf (bmitbl m)" and "boot_meta_page_info b = MetaImg m0"
    and "length (bm_meta_ch_iter m0) = 4" and "device_holds env rdata (boot_addr (bm_meta_ch_iter m0 ! 0) 1) (MetaImg mt)"
    and "device_holds env rdata (bm_bbt_page_address mt) (BbtImg pt)"
    and "boot_wf \<lparr>boot_bbt_page_info = BbtImg pt, boot_meta_page_info = MetaImg mt\<rparr>"
  shows "\<exists>b' fs k' p. try_recovery_systbl env rdata nsid m b k = Some (0, m, b', fs, k') \<and> boot_bbt_page_info b' = BbtImg p \<and>
    bb_bbt p = map bmi_bbt (bmitbl m) \<and> (\<exists>gs. fs = gs @ drop 8 fs \<and> length gs = 8 \<and> (\<forall>f \<in> set gs. fl_data f = Some (BbtImg p)))"
proof -
  have magic: "bootblk_page_mdw_check (MetaImg mt) FSCFTL_METAPG_READ" "bootblk_page_mdw_check (BbtImg pt) FSCFTL_BBTPG_READ"
    using assms(8) by (auto simp: boot_wf_def bootblk_page_mdw_check_def)
  obtain k1 where k1: "bootblk_recovery_meta_page env rdata nsid b k = Some (0, b\<lparr>boot_meta_page_info := MetaImg mt\<rparr>, k1)" "k_ok k1"
    using recover_meta_ok [OF assms(1,2,4,5,6) magic(1)] k_ok_later [OF assms(2)] by blast
  let ?b1 = "b\<lparr>boot_meta_page_info := MetaImg mt\<rparr>"
  let ?b2 = "?b1\<lparr>boot_bbt_page_info := BbtImg pt\<rparr>"
  obtain k2 where k2: "bootblk_recovery_bbt_page env rdata nsid ?b1 k1 = Some (0, ?b2, k2)" "k_ok k2"
    using recover_bbt_ok [OF assms(1) k1(2), of ?b1 mt rdata "BbtImg pt"] assms(7) magic(2) k_ok_later [OF k1(2)] by auto
  have wf: "boot_wf ?b2"
    using assms(8) by (simp add: boot_wf_def)
  obtain fs b3 k3 p where f: "bootblk_flush_bbt_page env nsid (bmitbl m) ?b2 k2 = Some (fs, b3, k3)" "boot_wf b3" "k_ok k3"
      "boot_bbt_page_info b3 = BbtImg p" "bb_bbt p = map bmi_bbt (bmitbl m)" "map fl_lun fs = [0..<8]" "\<forall>f \<in> set fs. fl_data f = Some (BbtImg p)"
    using flush_bbt_ok [OF assms(1) k2(2) assms(3) wf] by blast
  obtain gs b4 k4 where g: "bootblk_flush_meta_page env nsid POWER_DOWN_UNSAFE b3 k3 = Some (gs, b4, k4)" "boot_bbt_page_info b4 = boot_bbt_page_info b3"
    using flush_meta_ok [OF assms(1) f(3,2)] by blast
  have "try_recovery_systbl env rdata nsid m b k = Some (0, m, b4, fs @ gs, k4)"
    unfolding try_recovery_systbl_def by (simp add: k1(1) k2(1) f(1) g(1) rebuild_systbl_def Let_def)
  moreover have "length fs = 8"
    using arg_cong [OF f(6), of length] by simp
  ultimately show ?thesis
    using f(4,5,7) g(2) by (intro exI [of _ b4] exI [of _ "fs @ gs"] exI [of _ k4] exI [of _ p]) auto
qed

text \<open>A device whose bad-block page marks every die of block 5, for the example.\<close>

definition demo_bbt :: bootblk_bbt_page where
  "demo_bbt = bbt_page_initial\<lparr>bb_bbt := (bb_bbt bbt_page_initial)[5 := replicate 8 0xffff]\<rparr>"

definition demo_meta :: bootblk_meta_page where
  "demo_meta = meta_page_initial\<lparr>bm_pdf := POWER_DOWN_UNSAFE, bm_bbt_page_address := boot_addr 0 1, bm_meta_page_address := boot_addr 4 1\<rparr>"

definition demo_rdata :: "nat \<Rightarrow> u64 list \<Rightarrow> boot_image" where
  "demo_rdata n ps = (if ppa_ch (ucast (hd ps)) = 4 then MetaImg demo_meta else BbtImg demo_bbt)"

lemma demo_rdata_ch:
  "demo_rdata n (mirror_ppas (boot_addr 4 pg) l) = MetaImg demo_meta"
  "demo_rdata n (mirror_ppas (boot_addr 0 pg) l) = BbtImg demo_bbt"
proof -
  have ch: "ppa_ch (ucast (hd (mirror_ppas (boot_addr ch pg) l))) = (ucast (take_bit 4 ch) :: u32)" for ch
    by (simp add: mirror_ppas_def hd_map boot_addr_fields word_unat_eq_iff unsigned_take_bit_eq unsigned_ucast_eq)
  have "(ucast (take_bit 4 (4 :: u8)) :: u32) = 4" "(ucast (take_bit 4 (0 :: u8)) :: u32) \<noteq> 4"
    by code_simp+
  then show "demo_rdata n (mirror_ppas (boot_addr 4 pg) l) = MetaImg demo_meta"
    "demo_rdata n (mirror_ppas (boot_addr 0 pg) l) = BbtImg demo_bbt"
    unfolding demo_rdata_def ch by simp_all
qed

text \<open>What the device of the example holds, as the hypotheses of a recovery.\<close>

lemma demo_boot:
  "bmi_wf (bmitbl sysmeta_initial)" "length (bm_meta_ch_iter meta_page_initial) = 4"
  "device_holds demo_env demo_rdata (boot_addr (bm_meta_ch_iter meta_page_initial ! 0) 1) (MetaImg demo_meta)"
  "device_holds demo_env demo_rdata (bm_bbt_page_address demo_meta) (BbtImg demo_bbt)"
  "boot_wf \<lparr>boot_bbt_page_info = BbtImg demo_bbt, boot_meta_page_info = MetaImg demo_meta\<rparr>"
proof -
  have holds: "device_holds demo_env demo_rdata (boot_addr 4 pg) (MetaImg demo_meta)" "device_holds demo_env demo_rdata (boot_addr 0 pg) (BbtImg demo_bbt)" for pg
    by (auto simp: device_holds_def demo_ok demo_rdata_ch intro: exI [of _ 0])
  have it: "bm_meta_ch_iter meta_page_initial ! 0 = 4" "bm_bbt_page_address demo_meta = boot_addr 0 1"
    by (simp_all add: meta_page_initial_def demo_meta_def)
  show "device_holds demo_env demo_rdata (boot_addr (bm_meta_ch_iter meta_page_initial ! 0) 1) (MetaImg demo_meta)"
      "device_holds demo_env demo_rdata (bm_bbt_page_address demo_meta) (BbtImg demo_bbt)"
    unfolding it by (rule holds)+
qed (auto simp: boot_wf_def demo_bbt_def demo_meta_def bbt_page_initial_def meta_page_initial_def sysmeta_initial_def bmi_wf_def
      bmitbl_initial_def bmi_zero_def dest!: set_update_subset_insert [THEN subsetD])

lemma demo_recovery:
  "\<exists>b' fs k'. try_recovery_systbl demo_env demo_rdata 1 sysmeta_initial
     \<lparr>boot_bbt_page_info = BbtImg bbt_page_initial, boot_meta_page_info = MetaImg meta_page_initial\<rparr> demo_kst = Some (0, sysmeta_initial, b', fs, k')"
  using recovery_final [OF demo_fine demo_ok(1) demo_boot(1) _ demo_boot(2-5), of
    "\<lparr>boot_bbt_page_info = BbtImg bbt_page_initial, boot_meta_page_info = MetaImg meta_page_initial\<rparr>" 1] by auto

text \<open>C40: Recovery loses the bad-block table. When both boot pages can be read back, \<open>try_recovery_systbl\<close>
  returns 0 whatever power-down flag the meta page carries, leaves the block tables in memory as they
  were, and then overwrites the bad-block page just recovered with the table in memory, which nothing has
  filled: the recovered page has no influence on the page that is written to the mirrors.\<close>

theorem recovery_overwrites_bbt:
  assumes "kernel_fine env" and "k_ok k" and "bmi_wf (bmitbl m)" and "boot_meta_page_info b = MetaImg m0"
    and "length (bm_meta_ch_iter m0) = 4" and "device_holds env rdata (boot_addr (bm_meta_ch_iter m0 ! 0) 1) (MetaImg mt)"
    and "device_holds env rdata (bm_bbt_page_address mt) (BbtImg pt)"
    and "boot_wf \<lparr>boot_bbt_page_info = BbtImg pt, boot_meta_page_info = MetaImg mt\<rparr>"
  shows "\<exists>b' fs k' p. try_recovery_systbl env rdata nsid m b k = Some (0, m, b', fs, k') \<and> boot_bbt_page_info b' = BbtImg p \<and>
    bb_bbt p = map bmi_bbt (bmitbl m) \<and> (\<exists>gs. fs = gs @ drop 8 fs \<and> length gs = 8 \<and> (\<forall>f \<in> set gs. fl_data f = Some (BbtImg p)))"
  by (rule recovery_final [OF assms])

theorem recovery_overwrites_bbt_witness:
  "\<exists>b' fs k' p. try_recovery_systbl demo_env demo_rdata 1 sysmeta_initial
       \<lparr>boot_bbt_page_info = BbtImg bbt_page_initial, boot_meta_page_info = MetaImg meta_page_initial\<rparr> demo_kst =
       Some (0, sysmeta_initial, b', fs, k') \<and> bb_bbt demo_bbt ! 5 ! 0 = 0xffff \<and> boot_bbt_page_info b' = BbtImg p \<and> bb_bbt p ! 5 ! 0 = 0"
proof -
  let ?b = "\<lparr>boot_bbt_page_info = BbtImg bbt_page_initial, boot_meta_page_info = MetaImg meta_page_initial\<rparr>"
  have it: "boot_meta_page_info ?b = MetaImg meta_page_initial" "bb_bbt demo_bbt ! 5 ! 0 = 0xffff" "map bmi_bbt (bmitbl sysmeta_initial) ! 5 ! 0 = 0"
    by (simp_all add: demo_bbt_def bbt_page_initial_def sysmeta_initial_def bmitbl_initial_def bmi_zero_def)
  from recovery_overwrites_bbt [OF demo_fine demo_ok(1) demo_boot(1) it(1) demo_boot(2-5), of 1] show ?thesis
    using it(2,3) by metis
qed

end
