(* ===== verification/Backend_Cdev.thy ===== *)
theory Backend_Cdev
  imports Ppa_Cmd
begin

text \<open>
  The character device through which user programs issue physical-address commands:
  \<open>backend/be-cdev.c\<close>, and the register set-up of \<open>hwcfg/regrw.c\<close>. The user's memory and the
  block layer are arguments (\<open>uenv\<close>).
\<close>

section \<open>User commands\<close>

record nvme_user_io =
  uio_opcode :: u8
  uio_flags :: u8
  uio_control :: u16
  uio_nblocks :: u16
  uio_metadata :: u64
  uio_addr :: u64
  uio_slba :: u64
  uio_dsmgmt :: u32

text \<open>
  What lies outside: the words of user memory at an address (\<open>None\<close> is a fault), whether metadata can
  be copied in and out, the result of \<open>blk_rq_map_user\<close>, whether the namespace has a disk and whether
  its block device can be had.
\<close>

record uenv =
  ue_words :: "u64 \<Rightarrow> nat \<Rightarrow> u64 list option"
  ue_meta_in :: bool
  ue_meta_out :: bool
  ue_map :: int
  ue_disk :: bool
  ue_bdev :: bool

definition nvme_is_write :: "nvme_ppa_command \<Rightarrow> bool" where
  "nvme_is_write c = (if pc_opcode c = 0x7f then odd (unat (pc_opcode c)) else odd (unat (pc_opcode c)))"

text \<open>
  The exits of \<open>handle_user_ppa_cmd\<close>, one definition per label; each falls through to the next. The
  value returned is \<open>status\<close>, never \<open>ret\<close>.
\<close>

definition err_rq :: "nat \<Rightarrow> int \<Rightarrow> kst \<Rightarrow> (int \<times> kst) option" where
  "err_rq req status k = do {
     k \<leftarrow> k_free (KReq req) k;
     Some (status, k)
   }"

definition err_ppa :: "u64 \<Rightarrow> nat \<Rightarrow> nat option \<Rightarrow> nat \<Rightarrow> int \<Rightarrow> kst \<Rightarrow> (int \<times> kst) option" where
  "err_ppa ppa_buf nlb ppa_list req status k = do {
     k \<leftarrow> (if ppa_buf \<noteq> 0 \<and> nlb \<noteq> 0 then do {
         n \<leftarrow> ppa_list;
         dma_pool_page_free n k
       } else Some k);
     err_rq req status k
   }"

definition err_map :: "uenv \<Rightarrow> bool \<Rightarrow> bool \<Rightarrow> u64 \<Rightarrow> nat \<Rightarrow> nat option \<Rightarrow> nat \<Rightarrow> int \<Rightarrow> kst \<Rightarrow> (int \<times> kst) option" where
  "err_map u bio bdev ppa_buf nlb ppa_list req status k = do {
     k \<leftarrow> (if bio then do {
         k \<leftarrow> (if ue_disk u \<and> bdev then k_free (KBdev req) k else Some k);
         k_free (KMap req) k
       } else Some k);
     err_ppa ppa_buf nlb ppa_list req status k
   }"

definition err_meta :: "uenv \<Rightarrow> u64 \<Rightarrow> nat \<Rightarrow> nat option \<Rightarrow> bool \<Rightarrow> bool \<Rightarrow> u64 \<Rightarrow> nat \<Rightarrow> nat option \<Rightarrow> nat \<Rightarrow>
    int \<Rightarrow> kst \<Rightarrow> (int \<times> kst) option" where
  "err_meta u meta_buf meta_len metadata bio bdev ppa_buf nlb ppa_list req status k = do {
     k \<leftarrow> (if meta_buf \<noteq> 0 \<and> meta_len \<noteq> 0 then (case metadata of
          None \<Rightarrow> Some k
        | Some n \<Rightarrow> dma_pool_page_free n k) else Some k);
     err_map u bio bdev ppa_buf nlb ppa_list req status k
   }"

text \<open>The label \<open>submit\<close>: execute, wait, and copy the metadata of a read out.\<close>

definition user_submit :: "kenv \<Rightarrow> uenv \<Rightarrow> nvme_ppa_command \<Rightarrow> u64 \<Rightarrow> nat \<Rightarrow> nat option \<Rightarrow> bool \<Rightarrow> bool \<Rightarrow> u64 \<Rightarrow> nat \<Rightarrow>
    nat option \<Rightarrow> nat \<Rightarrow> kst \<Rightarrow> (int \<times> kst) option" where
  "user_submit env u c meta_buf meta_len metadata bio bdev ppa_buf nlb ppa_list req k = do {
     let ((status, _), k) = k_execute env c k;
     guard (metadata \<noteq> None \<and> \<not> nvme_is_write c \<longrightarrow> meta_len \<le> 8 * PAGE_WORDS);
     err_meta u meta_buf meta_len metadata bio bdev ppa_buf nlb ppa_list req status k
   }"

text \<open>
  \<open>copy_from_user\<close> into a DMA page writes \<open>nlb + 1\<close> words, or \<open>meta_len\<close> bytes, whatever the size of
  the page: beyond its end it destroys foreign memory, which stops the model. The data and metadata
  of the command first:
\<close>

definition user_data :: "kenv \<Rightarrow> uenv \<Rightarrow> nvme_ppa_command \<Rightarrow> u64 \<Rightarrow> nat \<Rightarrow> u64 \<Rightarrow> nat \<Rightarrow> u64 \<Rightarrow> nat \<Rightarrow> nat option \<Rightarrow>
    nat \<Rightarrow> kst \<Rightarrow> (int \<times> kst) option" where
  "user_data env u c ubuf bufflen meta_buf meta_len ppa_buf nlb ppa_list req k = (
     if \<not> (ubuf \<noteq> 0 \<and> bufflen \<noteq> 0) then
       user_submit env u c meta_buf meta_len None False False ppa_buf nlb ppa_list req k
     else if ue_map u \<noteq> 0 then err_ppa ppa_buf nlb ppa_list req 0 k
     else do {
       let k = k\<lparr>k_live := KMap req # k_live k\<rparr>;
       (fault, metadata, c, k) \<leftarrow> (if meta_buf \<noteq> 0 \<and> meta_len \<noteq> 0 then do {
           (ptr, k) \<leftarrow> dma_pool_page_zalloc env k;
           n \<leftarrow> ptr;
           if nvme_is_write c then do {
             guard (meta_len \<le> 8 * PAGE_WORDS);
             Some (\<not> ue_meta_in u, Some n, c\<lparr>pc_metadata := bus env n\<rparr>, k)
           } else Some (False, Some n, c\<lparr>pc_metadata := bus env n\<rparr>, k)
         } else Some (False, None, c, k));
       if fault then err_meta u meta_buf meta_len metadata True False ppa_buf nlb ppa_list req 0 k
       else if \<not> ue_disk u then user_submit env u c meta_buf meta_len metadata True False ppa_buf nlb ppa_list req k
       else if \<not> ue_bdev u then err_meta u meta_buf meta_len metadata True False ppa_buf nlb ppa_list req 0 k
       else user_submit env u c meta_buf meta_len metadata True True ppa_buf nlb ppa_list req
         (k\<lparr>k_live := KBdev req # k_live k\<rparr>)
     })"

definition handle_user_ppa_cmd :: "kenv \<Rightarrow> uenv \<Rightarrow> nvme_ppa_command \<Rightarrow> u64 \<Rightarrow> nat \<Rightarrow> u64 \<Rightarrow> nat \<Rightarrow> u64 \<Rightarrow> nat \<Rightarrow>
    kst \<Rightarrow> (int \<times> kst) option" where
  "handle_user_ppa_cmd env u c ubuf bufflen meta_buf meta_len ppa_buf nlb k = (case k_alloc env KReq k of
     (None, k) \<Rightarrow> Some (0, k)
   | (Some req, k) \<Rightarrow>
     if ppa_buf \<noteq> 0 \<and> nlb \<noteq> 0 then do {
       (ptr, k) \<leftarrow> dma_pool_page_zalloc env k;
       n \<leftarrow> ptr;
       (case ue_words u ppa_buf (nlb + 1) of
          None \<Rightarrow> err_ppa ppa_buf nlb (Some n) req 0 k
        | Some ws \<Rightarrow> do {
            k \<leftarrow> copy_ppas n ws [0..<nlb + 1] k;
            user_data env u (c\<lparr>pc_ppalist := bus env n\<rparr>) ubuf bufflen meta_buf meta_len ppa_buf nlb (Some n) req k
          })
     } else user_data env u (c\<lparr>pc_ppalist := ppa_buf\<rparr>) ubuf bufflen meta_buf meta_len ppa_buf nlb None req k)"

text \<open>The user's structure is copied in first; \<open>None\<close> is a fault.\<close>

definition nvme_submit_user_ppa_cmd :: "kenv \<Rightarrow> uenv \<Rightarrow> u32 \<Rightarrow> nvme_user_io option \<Rightarrow> kst \<Rightarrow> (int \<times> kst) option" where
  "nvme_submit_user_ppa_cmd env u nsid uvio k = (case uvio of
     None \<Rightarrow> Some (- EFAULT, k)
   | Some vio \<Rightarrow>
     if uio_flags vio \<noteq> 0 then Some (- EINVAL, k)
     else (let nlb = unat (uio_nblocks vio); metalen = (nlb + 1) * NAND_META_SIZE; datalen = (nlb + 1) * EXP_PPA_SIZE;
         c = ppa_command_zero\<lparr>pc_opcode := uio_opcode vio, pc_nsid := nsid, pc_control := uio_control vio,
           pc_nlb := uio_nblocks vio, pc_dsmgmt := uio_dsmgmt vio\<rparr>
       in handle_user_ppa_cmd env u c (uio_addr vio) datalen (uio_metadata vio) metalen (uio_slba vio) nlb k))"

text \<open>
  \<open>nvme_be_ioctl_test\<close> copies the user's list onto the stack, into an array of \<open>MAX_PPA_PER_CMD\<close>
  words. The result carries the words it prints, unknown when the copy faults.
\<close>

definition nvme_be_ioctl_test :: "uenv \<Rightarrow> nvme_user_io option \<Rightarrow> (int \<times> u64 list option) option" where
  "nvme_be_ioctl_test u uvio = (case uvio of
     None \<Rightarrow> Some (- EFAULT, None)
   | Some vio \<Rightarrow> do {
       let n = unat (uio_nblocks vio) + 1;
       guard (n \<le> MAX_PPA_PER_CMD);
       Some (0, map_option (take n) (ue_words u (uio_slba vio) n))
     })"

definition IOW :: "u8 \<Rightarrow> u8 \<Rightarrow> nat \<Rightarrow> u32" where
  "IOW ty nr len = push_bit 30 1 OR push_bit 16 (of_nat len) OR push_bit 8 (ucast ty) OR ucast nr"

definition FSCFTL_IOCTL_SMOKE_TEST :: u32 where "FSCFTL_IOCTL_SMOKE_TEST = IOW 0x4d 0x3d 48"
definition FSCFTL_IOCTL_USER_PPA_CMD :: u32 where "FSCFTL_IOCTL_USER_PPA_CMD = IOW 0x4d 0x90 48"

definition backend_dev_ioctl :: "kenv \<Rightarrow> uenv \<Rightarrow> u32 \<Rightarrow> u32 \<Rightarrow> nvme_user_io option \<Rightarrow> kst \<Rightarrow> (int \<times> kst) option" where
  "backend_dev_ioctl env u nsid cmd arg k = (
     if cmd = FSCFTL_IOCTL_SMOKE_TEST then map_option (\<lambda>(r, _). (r, k)) (nvme_be_ioctl_test u arg)
     else if cmd = FSCFTL_IOCTL_USER_PPA_CMD then nvme_submit_user_ppa_cmd env u nsid arg k
     else Some (- ENOTTY, k))"

definition backend_miscdev_create :: "int \<Rightarrow> int" where
  "backend_miscdev_create misc_register = (if misc_register \<noteq> 0 then - EFAULT else 0)"

section \<open>Controller registers\<close>

definition NVC_SCRAMBLE :: u32 where "NVC_SCRAMBLE = 0x02110"
definition NSC_SET_BIT_COUNT :: u32 where "NSC_SET_BIT_COUNT = 0x43008"
definition ECC_ERR_CNT_REG :: u32 where "ECC_ERR_CNT_REG = 0x40A10"
definition ENABLE_ECC_ERR_CNT :: u32 where "ENABLE_ECC_ERR_CNT = push_bit 1 1"

definition ctrl_register_config :: "(u32 \<Rightarrow> u32) \<Rightarrow> (u32 \<Rightarrow> u32)" where
  "ctrl_register_config regs = (let
     regs = regs(NVC_SCRAMBLE := regs NVC_SCRAMBLE OR 1);
     regs = regs(NSC_SET_BIT_COUNT := 0xfa0);
     regs = regs(ECC_ERR_CNT_REG := regs ECC_ERR_CNT_REG OR ENABLE_ECC_ERR_CNT)
   in regs)"

section \<open>Properties\<close>

text \<open>What \<open>copy_from_user\<close> promises: it delivers as many words as it was asked for.\<close>

definition words_ok :: "uenv \<Rightarrow> bool" where
  "words_ok u \<longleftrightarrow> (\<forall>a n ws. ue_words u a n = Some ws \<longrightarrow> length ws = n)"

text \<open>The objects a command holds at each exit, and what its outcome may be.\<close>

definition held_ppa :: "u64 \<Rightarrow> nat \<Rightarrow> nat option \<Rightarrow> nat \<Rightarrow> kres list \<Rightarrow> kres list" where
  "held_ppa ppa_buf nlb pp req L = (if ppa_buf \<noteq> 0 \<and> nlb \<noteq> 0 then [KPage (the pp)] else []) @ KReq req # L"

definition held_map :: "uenv \<Rightarrow> bool \<Rightarrow> bool \<Rightarrow> kres list \<Rightarrow> nat \<Rightarrow> kres list \<Rightarrow> kres list" where
  "held_map u bio bdev M req L = (if bio then (if ue_disk u \<and> bdev then [KBdev req] else []) @ M @ [KMap req] else []) @ L"

definition outcome :: "kenv \<Rightarrow> nvme_ppa_command \<Rightarrow> kst \<Rightarrow> kres list \<Rightarrow> (int \<times> kst) option \<Rightarrow> bool" where
  "outcome env c k L r \<longleftrightarrow> (\<exists>status k'. r = Some (status, k') \<and> k_live k' = L \<and>
     (k_sqes k' = k_sqes k \<and> status = 0 \<or>
      (\<exists>c' ps. k_sqes k' = k_sqes k @ [(c', ps)] \<and> pc_opcode c' = pc_opcode c \<and>
        status = fst (device env (length (k_sqes k)) c' ps))))"

lemma err_ppa_held:
  "k_live k = held_ppa ppa_buf nlb pp req L \<Longrightarrow> (ppa_buf \<noteq> 0 \<and> nlb \<noteq> 0 \<longrightarrow> pp \<noteq> None) \<Longrightarrow>
   err_ppa ppa_buf nlb pp req status k = Some (status, k\<lparr>k_live := L\<rparr>)"
  by (auto simp: held_ppa_def err_ppa_def err_rq_def dma_pool_page_free_def)

lemma err_map_held:
  "k_live k = held_map u bio bdev [] req (held_ppa ppa_buf nlb pp req L) \<Longrightarrow> (ppa_buf \<noteq> 0 \<and> nlb \<noteq> 0 \<longrightarrow> pp \<noteq> None) \<Longrightarrow>
   err_map u bio bdev ppa_buf nlb pp req status k = Some (status, k\<lparr>k_live := L\<rparr>)"
  by (auto simp: held_map_def err_map_def err_ppa_held)

lemma err_meta_held:
  assumes "k_live k = held_map u bio bdev (case md of None \<Rightarrow> [] | Some m \<Rightarrow> [KPage m]) req (held_ppa ppa_buf nlb pp req L)"
    and "ppa_buf \<noteq> 0 \<and> nlb \<noteq> 0 \<longrightarrow> pp \<noteq> None" and "md \<noteq> None \<longrightarrow> bio \<and> meta_buf \<noteq> 0 \<and> meta_len \<noteq> 0"
  shows "err_meta u meta_buf meta_len md bio bdev ppa_buf nlb pp req status k = Some (status, k\<lparr>k_live := L\<rparr>)"
proof (cases md)
  case None
  with assms show ?thesis
    by (simp add: err_meta_def err_map_held)
next
  case (Some m)
  let ?k = "k\<lparr>k_live := held_map u True bdev [] req (held_ppa ppa_buf nlb pp req L)\<rparr>"
  have "dma_pool_page_free m k = Some ?k"
    using assms(1,3) Some by (simp add: dma_pool_page_free_def held_map_def)
  with Some assms err_map_held [of ?k u True bdev req ppa_buf nlb pp L status] show ?thesis
    by (simp add: err_meta_def)
qed

lemma user_submit_held:
  assumes "k_live k = held_map u bio bdev (case md of None \<Rightarrow> [] | Some m \<Rightarrow> [KPage m]) req (held_ppa ppa_buf nlb pp req L)"
    and "ppa_buf \<noteq> 0 \<and> nlb \<noteq> 0 \<longrightarrow> pp \<noteq> None" and "md \<noteq> None \<longrightarrow> bio \<and> meta_buf \<noteq> 0 \<and> meta_len \<noteq> 0"
    and "meta_len \<le> 8 * PAGE_WORDS" "pc_opcode c' = pc_opcode c" "k_sqes k = k_sqes k0"
  shows "outcome env c k0 L (user_submit env u c' meta_buf meta_len md bio bdev ppa_buf nlb pp req k)"
proof -
  obtain st r where "device env (length (k_sqes k)) c' (sqe_ppas env k c') = (st, r)"
    by (cases "device env (length (k_sqes k)) c' (sqe_ppas env k c')")
  then show ?thesis
    using assms err_meta_held [of "k\<lparr>k_sqes := k_sqes k @ [(c', sqe_ppas env k c')]\<rparr>"]
    by (auto simp: user_submit_def outcome_def Let_def)
qed

lemma outcome_err: "k_sqes k' = k_sqes k \<Longrightarrow> r = Some (0, k'\<lparr>k_live := L\<rparr>) \<Longrightarrow> outcome env c k L r"
  by (simp add: outcome_def)

lemma user_data_outcome:
  assumes l: "k_live k = held_ppa ppa_buf nlb pp req L" and p: "ppa_buf \<noteq> 0 \<and> nlb \<noteq> 0 \<longrightarrow> pp \<noteq> None"
    and m: "meta_len \<le> 8 * PAGE_WORDS" and g: "grant env (k_n k)"
  shows "outcome env c k L (user_data env u c ubuf bufflen meta_buf meta_len ppa_buf nlb pp req k)"
proof -
  let ?n = "k_n k"
  let ?k0 = "k\<lparr>k_live := KMap req # k_live k\<rparr>"
  let ?k1 = "k\<lparr>k_n := Suc ?n, k_live := KPage ?n # KMap req # k_live k, k_page := (k_page k)(?n := replicate PAGE_WORDS 0)\<rparr>"
  have s0: "outcome env c k L (user_submit env u c meta_buf meta_len None False False ppa_buf nlb pp req k)"
    by (rule user_submit_held) (use l p m in \<open>simp_all add: held_map_def\<close>)
  have s1: "outcome env c k L (user_submit env u c meta_buf meta_len None True bd ppa_buf nlb pp req
      (?k0\<lparr>k_live := (if ue_disk u \<and> bd then [KBdev req] else []) @ k_live ?k0\<rparr>))" for bd
    by (rule user_submit_held) (use l p m in \<open>simp_all add: held_map_def\<close>)
  have s2: "outcome env c k L (user_submit env u (c\<lparr>pc_metadata := a\<rparr>) meta_buf meta_len (Some ?n) True False ppa_buf nlb pp req ?k1)"
    if "meta_buf \<noteq> 0" "meta_len \<noteq> 0" for a
    by (rule user_submit_held) (use l p m that in \<open>simp_all add: held_map_def\<close>)
  have s3: "outcome env c k L (user_submit env u (c\<lparr>pc_metadata := a\<rparr>) meta_buf meta_len (Some ?n) True True ppa_buf nlb pp req
      (?k1\<lparr>k_live := KBdev req # k_live ?k1\<rparr>))"
    if "meta_buf \<noteq> 0" "meta_len \<noteq> 0" "ue_disk u" for a
    by (rule user_submit_held) (use l p m that in \<open>simp_all add: held_map_def\<close>)
  have e0: "outcome env c k L (err_ppa ppa_buf nlb pp req 0 k)"
    by (rule outcome_err [of k]) (use l p in \<open>simp_all add: err_ppa_held\<close>)
  have e1: "outcome env c k L (err_meta u meta_buf meta_len None True False ppa_buf nlb pp req 0 ?k0)"
    by (rule outcome_err [of ?k0]) (use l p in \<open>simp, intro err_meta_held, simp_all add: held_map_def\<close>)
  have e2: "outcome env c k L (err_meta u meta_buf meta_len (Some ?n) True False ppa_buf nlb pp req 0 ?k1)"
    if "meta_buf \<noteq> 0" "meta_len \<noteq> 0"
    by (rule outcome_err [of ?k1]) (use l p that in \<open>simp, intro err_meta_held, simp_all add: held_map_def\<close>)
  show ?thesis
    using s0 e0 s1 [of False] s1 [of True] e1 s2 [of "bus env ?n"] s3 [of "bus env ?n"] e2 m g
    by (auto simp: user_data_def Let_def)
qed


definition demo_uenv :: uenv where
  "demo_uenv = \<lparr>ue_words = (\<lambda>a n. Some (replicate n 5)), ue_meta_in = True, ue_meta_out = True, ue_map = 0, ue_disk = True,
     ue_bdev = True\<rparr>"


lemma copy_ppas_append: "copy_ppas n ps (is @ js) k = do { k \<leftarrow> copy_ppas n ps is k; copy_ppas n ps js k }"
  by (induction "is" arbitrary: k) (auto split: bind_splits)

lemma copy_ppas_overflow:
  assumes "length (k_page k n) = l" "l < m" "m \<le> length ps"
  shows "copy_ppas n ps [0..<m] k = None"
proof -
  have "[0..<m] = [0..<l] @ l # [Suc l..<m]"
    using assms(2) upt_add_eq_append [of 0 l "m - l"] by (simp add: upt_conv_Cons)
  then show ?thesis
    using assms copy_ppas_ok [of l ps k n] by (simp add: copy_ppas_append k_write_def)
qed

text \<open>C33: The length of a user command is not checked. A command with a list of more than 512
  addresses, which any program that may open the device can send, makes \<open>nvme_submit_user_ppa_cmd\<close>
  write past its DMA page, and more than 64 addresses make the smoke test write past its array on the
  kernel stack.\<close>

theorem user_list_overflow:
  assumes "uio_flags vio = 0" and "uio_slba vio \<noteq> 0" and "words_ok u"
    and "grant env (k_n k)" and "ue_words u (uio_slba vio) (unat (uio_nblocks vio) + 1) \<noteq> None"
  shows "(512 \<le> unat (uio_nblocks vio) \<longrightarrow> backend_dev_ioctl env u nsid FSCFTL_IOCTL_USER_PPA_CMD (Some vio) k = None) \<and>
    (64 \<le> unat (uio_nblocks vio) \<longrightarrow> backend_dev_ioctl env u nsid FSCFTL_IOCTL_SMOKE_TEST (Some vio) k = None)"
proof -
  have ne: "FSCFTL_IOCTL_USER_PPA_CMD \<noteq> FSCFTL_IOCTL_SMOKE_TEST"
    by (simp add: FSCFTL_IOCTL_USER_PPA_CMD_def FSCFTL_IOCTL_SMOKE_TEST_def IOW_def)
  have smoke: "backend_dev_ioctl env u nsid FSCFTL_IOCTL_SMOKE_TEST (Some vio) k = None" if "64 \<le> unat (uio_nblocks vio)"
    using that by (simp add: backend_dev_ioctl_def nvme_be_ioctl_test_def Let_def)
  let ?m = "unat (uio_nblocks vio) + 1"
  obtain ws where ws: "ue_words u (uio_slba vio) ?m = Some ws" "length ws = ?m"
    using assms(3,5) by (auto simp: words_ok_def)
  have "backend_dev_ioctl env u nsid FSCFTL_IOCTL_USER_PPA_CMD (Some vio) k = None" if n: "512 \<le> unat (uio_nblocks vio)"
  proof -
    have "copy_ppas q ws [0..<?m] k' = None" if "length (k_page k' q) = 512" for q k'
      using copy_ppas_overflow [OF that, of ?m ws] n ws(2) by simp
    then show ?thesis
      using assms(1,2,4) n ws(1) ne
      by (cases "grant env (Suc (k_n k))")
        (simp_all add: backend_dev_ioctl_def nvme_submit_user_ppa_cmd_def handle_user_ppa_cmd_def Let_def del: upt_Suc)
  qed
  with smoke show ?thesis by blast
qed

definition demo_vio :: nvme_user_io where
  "demo_vio = \<lparr>uio_opcode = NVM_OP_RDPPA, uio_flags = 0, uio_control = 0, uio_nblocks = 600, uio_metadata = 0, uio_addr = 16,
     uio_slba = 64, uio_dsmgmt = 0\<rparr>"

theorem user_list_overflow_witness:
  "backend_dev_ioctl demo_env demo_uenv 1 FSCFTL_IOCTL_USER_PPA_CMD (Some demo_vio) demo_kst = None \<and>
   backend_dev_ioctl demo_env demo_uenv 1 FSCFTL_IOCTL_SMOKE_TEST (Some demo_vio) demo_kst = None"
  using user_list_overflow [of demo_vio demo_uenv demo_env demo_kst 1]
  by (simp add: demo_ok demo_vio_def words_ok_def demo_uenv_def)

end
