(* ===== verification/Fscftl_Init.thy ===== *)
theory Fscftl_Init
  imports Power_Cycle Backend_Cdev
begin

text \<open>
  Loading and unloading the module: \<open>fscftl-init.c\<close>, the block device of \<open>namespace.c\<close>, the threads
  of \<open>bio-wr.c\<close> and the DMA pool of \<open>core.c\<close>. What the module holds is a list of resources; releasing a
  resource it does not hold stops the machine. Which acquisition succeeds is an argument.
\<close>

section \<open>Resources\<close>

datatype mres = MPool | MMisc | MState | MBootBbt | MBootMeta | MBmi | MVpc | ML2p | ML1 | MCtl | MLuns | MWq | MRewr | MWriter
  | MExns | MIdr | MDisk | MQueue

record init_env =
  ie_ok :: "mres \<Rightarrow> bool"
  ie_misc :: int
  ie_idr :: int
  ie_dma :: "nat \<Rightarrow> dma_buf \<Rightarrow> bool"

definition rel :: "mres \<Rightarrow> mres list \<Rightarrow> mres list option" where
  "rel r own = do { guard (r \<in> set own); Some (remove1 r own) }"

fun rel_all :: "mres list \<Rightarrow> mres list \<Rightarrow> mres list option" where
  "rel_all [] own = Some own"
| "rel_all (r # rs) own = do { own \<leftarrow> rel r own; rel_all rs own }"

section \<open>Pool, threads and tables\<close>

definition nvm_exdev_setup_pool :: "init_env \<Rightarrow> mres list \<Rightarrow> int \<times> mres list" where
  "nvm_exdev_setup_pool e own = (if \<not> ie_ok e MPool then (- ENOMEM, own) else (0, MPool # own))"

definition nvm_exdev_release_pool :: "mres list \<Rightarrow> mres list option" where
  "nvm_exdev_release_pool own = rel MPool own"

definition backend_miscdev_delete :: "mres list \<Rightarrow> mres list option" where
  "backend_miscdev_delete own = rel MMisc own"

text \<open>
  The work queue is not tested. The result of \<open>kthread_create\<close> is woken up at once, so a thread that
  cannot be created stops the machine.
\<close>

definition fscftl_writer_init :: "init_env \<Rightarrow> mres list \<Rightarrow> (int \<times> mres list) option" where
  "fscftl_writer_init e own = do {
     let own = (if ie_ok e MWq then MWq # own else own);
     guard (ie_ok e MRewr);
     let own = MRewr # own;
     guard (ie_ok e MWriter);
     let own = MWriter # own;
     Some (0, own)
   }"

definition fscftl_writer_exit :: "mres list \<Rightarrow> mres list option" where
  "fscftl_writer_exit own = do {
     own \<leftarrow> (if MWriter \<in> set own then rel MWriter own else Some own);
     own \<leftarrow> (if MRewr \<in> set own then rel MRewr own else Some own);
     rel MWq own
   }"

definition statetbl_exit :: "mres list \<Rightarrow> mres list option" where
  "statetbl_exit own = rel MState own"

definition bmitbl_exit :: "mres list \<Rightarrow> mres list option" where
  "bmitbl_exit own = rel MBmi own"

definition vpctbl_exit :: "mres list \<Rightarrow> mres list option" where
  "vpctbl_exit own = rel MVpc own"

definition l2ptbl_exit :: "mres list \<Rightarrow> mres list option" where
  "l2ptbl_exit own = do { own \<leftarrow> rel ML2p own; rel ML1 own }"

definition bootblk_page_exit :: "mres list \<Rightarrow> mres list option" where
  "bootblk_page_exit own = do { own \<leftarrow> rel MBootMeta own; rel MBootBbt own }"

text \<open>The exit labels of \<open>fscftl_setup\<close>, each falling through to the next.\<close>

definition out_free_statetbl :: "mres list \<Rightarrow> mres list option" where
  "out_free_statetbl own = statetbl_exit own"

definition out_free_bootpage :: "mres list \<Rightarrow> mres list option" where
  "out_free_bootpage own = do { own \<leftarrow> bootblk_page_exit own; out_free_statetbl own }"

definition out_free_bmitbl :: "mres list \<Rightarrow> mres list option" where
  "out_free_bmitbl own = do { own \<leftarrow> bmitbl_exit own; out_free_bootpage own }"

definition out_free_vpctbl :: "mres list \<Rightarrow> mres list option" where
  "out_free_vpctbl own = do { own \<leftarrow> vpctbl_exit own; out_free_bmitbl own }"

definition out_free_l2p :: "mres list \<Rightarrow> mres list option" where
  "out_free_l2p own = do { own \<leftarrow> l2ptbl_exit own; out_free_vpctbl own }"

definition out_free_wcb :: "mres list \<Rightarrow> mres list option" where
  "out_free_wcb own = do { own \<leftarrow> rel_all [MLuns, MCtl] own; out_free_l2p own }"

text \<open>
  The result: the return code, the tables of the FTL and the boot pages when all is set up, the
  resources and the DMA buffers of the write cache.
\<close>

definition fscftl_setup :: "init_env \<Rightarrow> mres list \<Rightarrow> (int \<times> (ftl \<times> boot) option \<times> mres list \<times> (nat \<times> dma_buf) list) option" where
  "fscftl_setup e own = (case statetbl_init (ie_ok e MState) of
     (ret, None) \<Rightarrow> Some (ret, None, own, [])
   | (_, Some st) \<Rightarrow> (let own = MState # own in case bootblk_page_init (ie_ok e MBootBbt) (ie_ok e MBootMeta) of
       (ret, None) \<Rightarrow> do { own \<leftarrow> out_free_statetbl own; Some (ret, None, own, []) }
     | (_, Some bt) \<Rightarrow> (let own = MBootMeta # MBootBbt # own in case bmitbl_init (ie_ok e MBmi) of
         (ret, None) \<Rightarrow> do { own \<leftarrow> out_free_bootpage own; Some (ret, None, own, []) }
       | (_, Some bmi) \<Rightarrow> (let own = MBmi # own in case vpctbl_init (ie_ok e MVpc) of
           (ret, None) \<Rightarrow> do { own \<leftarrow> out_free_bmitbl own; Some (ret, None, own, []) }
         | (_, Some vpc) \<Rightarrow> (let own = MVpc # own in case l2ptbl_init (ie_ok e ML2p) (ie_ok e ML1) of
             (ret, None) \<Rightarrow> do { own \<leftarrow> out_free_vpctbl own; Some (ret, None, own, []) }
           | (_, Some l2p) \<Rightarrow> do {
               let own = ML1 # ML2p # own;
               (ret, g, dma) \<leftarrow> write_cache_alloc (ie_ok e MCtl) (ie_ok e MLuns) (ie_dma e);
               (case g of
                  None \<Rightarrow> do { own \<leftarrow> out_free_l2p own; Some (ret, None, own, dma) }
                | Some g \<Rightarrow> do {
                    let own = MLuns # MCtl # own;
                    (ret, own) \<leftarrow> fscftl_writer_init e own;
                    if ret \<noteq> 0 then do { own \<leftarrow> out_free_wcb own; Some (ret, None, own, write_cache_free dma) }
                    else Some (ret, Some (\<lparr>ctl = g, sysm = \<lparr>statetbl = st, bmitbl = bmi, vpctbl = vpc\<rparr>, l2ptbl = l2p\<rparr>, bt), own, dma)
                  })
             })))))"

definition fscftl_cleanup :: "mres list \<Rightarrow> (nat \<times> dma_buf) list \<Rightarrow> (mres list \<times> (nat \<times> dma_buf) list) option" where
  "fscftl_cleanup own dma = do {
     own \<leftarrow> fscftl_writer_exit own;
     own \<leftarrow> rel_all [MLuns, MCtl] own;
     let dma = write_cache_free dma;
     own \<leftarrow> l2ptbl_exit own;
     own \<leftarrow> vpctbl_exit own;
     own \<leftarrow> bmitbl_exit own;
     own \<leftarrow> bootblk_page_exit own;
     own \<leftarrow> statetbl_exit own;
     Some (own, dma)
   }"

section \<open>The block device\<close>

text \<open>The attributes \<open>nvm_create_exns\<close> gives the disk and its queue.\<close>

record nvm_exns =
  ns_instance :: int
  ns_capacity :: nat
  ns_logical_block_size :: nat
  ns_max_hw_sectors :: nat

definition nvm_create_exns :: "init_env \<Rightarrow> mres list \<Rightarrow> (int \<times> nvm_exns option \<times> mres list) option" where
  "nvm_create_exns e own = (
     if \<not> ie_ok e MExns then Some (- ENOMEM, None, own)
     else (let own = MExns # own; inst = ie_idr e in
       if inst < 0 then do { own \<leftarrow> rel MExns own; Some (- EFAULT, None, own) }
       else (let own = MIdr # own in
         if \<not> ie_ok e MDisk then do { own \<leftarrow> rel_all [MIdr, MExns] own; Some (- EFAULT, None, own) }
         else (let own = MDisk # own in
           if \<not> ie_ok e MQueue then do { own \<leftarrow> rel_all [MDisk, MIdr, MExns] own; Some (- EFAULT, None, own) }
           else Some (0, Some \<lparr>ns_instance = inst, ns_capacity = (MAX_USER_LBA + 1) * 8,
             ns_logical_block_size = CFG_NAND_EP_NUM, ns_max_hw_sectors = 8 * MAX_PPA_PER_CMD\<rparr>, MQueue # own)))))"

definition nvm_delete_exns :: "mres list \<Rightarrow> mres list option" where
  "nvm_delete_exns own = rel_all [MQueue, MDisk, MIdr, MExns] own"

section \<open>Loading and unloading\<close>

text \<open>
  The devices the NVMe driver exposes, with their controller registers, and the set-up of the
  registers of the one the module is loaded for.
\<close>

record nvm_exdev =
  ex_bdiskname :: string
  ex_regs :: "u32 \<Rightarrow> u32"

fun nvm_find_exdev :: "string \<Rightarrow> nvm_exdev list \<Rightarrow> nvm_exdev option" where
  "nvm_find_exdev name [] = None"
| "nvm_find_exdev name (dev # devs) = (if name = ex_bdiskname dev then Some dev else nvm_find_exdev name devs)"

fun config_exdev :: "string \<Rightarrow> nvm_exdev list \<Rightarrow> nvm_exdev list" where
  "config_exdev name [] = []"
| "config_exdev name (dev # devs) = (if name = ex_bdiskname dev then dev\<lparr>ex_regs := ctrl_register_config (ex_regs dev)\<rparr> # devs
     else dev # config_exdev name devs)"

record loaded =
  ld_ftl :: ftl
  ld_boot :: boot
  ld_exns :: nvm_exns
  ld_dma :: "(nat \<times> dma_buf) list"
  ld_flights :: "flight list"
  ld_k :: kst

text \<open>The labels of \<open>fscftl_module_init\<close>.\<close>

definition release_pool :: "mres list \<Rightarrow> mres list option" where
  "release_pool own = nvm_exdev_release_pool own"

definition del_misc_dev :: "mres list \<Rightarrow> mres list option" where
  "del_misc_dev own = do { own \<leftarrow> backend_miscdev_delete own; release_pool own }"

definition err_cleanup :: "mres list \<Rightarrow> (nat \<times> dma_buf) list \<Rightarrow> mres list option" where
  "err_cleanup own dma = do { (own, _) \<leftarrow> fscftl_cleanup own dma; del_misc_dev own }"

text \<open>
  From the first block to the block device. \<open>prepare_write_context\<close> is reached with the tables the
  manufacturing initialisation or the recovery has left.
\<close>

definition module_open :: "init_env \<Rightarrow> ftl \<Rightarrow> boot \<Rightarrow> (nat \<times> dma_buf) list \<Rightarrow> flight list \<Rightarrow> kst \<Rightarrow> mres list \<Rightarrow> (int \<times> loaded option \<times> mres list) option" where
  "module_open e s bt dma fs k own = do {
     s \<leftarrow> prepare_write_context s;
     (ret, ns, own) \<leftarrow> nvm_create_exns e own;
     (case ns of
        None \<Rightarrow> do { own \<leftarrow> err_cleanup own dma; Some (- EFAULT, None, own) }
      | Some ns \<Rightarrow> Some (0, Some \<lparr>ld_ftl = s, ld_boot = bt, ld_exns = ns, ld_dma = dma, ld_flights = fs, ld_k = k\<rparr>, own))
   }"

text \<open>
  \<open>fscftl_module_init\<close>, up to the choice between manufacturing and recovery, is a function; the
  manufacturing initialisation depends on the interleaving of its completions. The last argument of
  the relation is the list of devices afterwards.
\<close>

definition module_begin :: "init_env \<Rightarrow> bool \<Rightarrow> mres list \<Rightarrow> (int \<times> (ftl \<times> boot \<times> (nat \<times> dma_buf) list) option \<times> mres list) option" where
  "module_begin e exdev own = (
     if \<not> exdev then Some (- ENODEV, None, own)
     else (case nvm_exdev_setup_pool e own of (ret, own) \<Rightarrow>
       if ret \<noteq> 0 then Some (ret, None, own)
       else (let ret = backend_miscdev_create (ie_misc e) in
         if ret \<noteq> 0 then do { own \<leftarrow> release_pool own; Some (- EFAULT, None, own) }
         else do {
           let own = MMisc # own;
           (ret, st, own, dma) \<leftarrow> fscftl_setup e own;
           (case st of
              None \<Rightarrow> do { own \<leftarrow> del_misc_dev own; Some (- EFAULT, None, own) }
            | Some (s, bt) \<Rightarrow> Some (0, Some (s, bt, dma), own))
         })))"

inductive fscftl_module_init :: "init_env \<Rightarrow> kenv \<Rightarrow> (u64 list \<Rightarrow> u8 list) \<Rightarrow> (nat \<Rightarrow> u64 list \<Rightarrow> boot_image) \<Rightarrow> u32 \<Rightarrow> bool \<Rightarrow>
    string \<Rightarrow> nvm_exdev list \<Rightarrow> bool \<Rightarrow> kst \<Rightarrow> mres list \<Rightarrow> int \<times> loaded option \<times> mres list \<Rightarrow> nvm_exdev list \<Rightarrow> bool" for e env raw rdata nsid patient where
  init_failed: "module_begin e (nvm_find_exdev name devs \<noteq> None) own = Some (ret, None, own') \<Longrightarrow>
    fscftl_module_init e env raw rdata nsid patient name devs mcp k own (ret, None, own') (config_exdev name devs)"
| init_mcp: "module_begin e (nvm_find_exdev name devs \<noteq> None) own = Some (0, Some (s, bt, dma), own1) \<Longrightarrow>
    do_manufactory_init env raw nsid patient (sysm s, \<lparr>bbt_issu_cnt = 0, bbt_cmpl_cnt = 0, bbt_completion = False\<rparr>, bt, k) (m, c, bt', k') fs \<Longrightarrow>
    module_open e (s\<lparr>sysm := m\<rparr>) bt' dma fs k' own1 = Some r \<Longrightarrow>
    fscftl_module_init e env raw rdata nsid patient name devs True k own r (config_exdev name devs)"
| init_recovery: "module_begin e (nvm_find_exdev name devs \<noteq> None) own = Some (0, Some (s, bt, dma), own1) \<Longrightarrow>
    try_recovery_systbl env rdata nsid (sysm s) bt k = Some (0, m, bt', fs, k') \<Longrightarrow>
    module_open e (s\<lparr>sysm := m\<rparr>) bt' dma fs k' own1 = Some r \<Longrightarrow>
    fscftl_module_init e env raw rdata nsid patient name devs False k own r (config_exdev name devs)"
| init_recovery_failed: "module_begin e (nvm_find_exdev name devs \<noteq> None) own = Some (0, Some (s, bt, dma), own1) \<Longrightarrow>
    try_recovery_systbl env rdata nsid (sysm s) bt k = Some (ret, m, bt', fs, k') \<Longrightarrow> ret \<noteq> 0 \<Longrightarrow>
    err_cleanup own1 dma = Some own' \<Longrightarrow>
    fscftl_module_init e env raw rdata nsid patient name devs False k own (- EFAULT, None, own') (config_exdev name devs)"

definition fscftl_module_exit :: "kenv \<Rightarrow> u32 \<Rightarrow> loaded \<Rightarrow> mres list \<Rightarrow> (flight list \<times> boot \<times> (nat \<times> dma_buf) list \<times> kst \<times> mres list) option" where
  "fscftl_module_exit env nsid ld own = do {
     own \<leftarrow> nvm_delete_exns own;
     (fs, bt, k) \<leftarrow> flush_down_systbl env nsid (sysm (ld_ftl ld)) (ld_boot ld) (ld_k ld);
     (own, dma) \<leftarrow> fscftl_cleanup own (ld_dma ld);
     own \<leftarrow> backend_miscdev_delete own;
     own \<leftarrow> nvm_exdev_release_pool own;
     Some (fs, bt, dma, k, own)
   }"

section \<open>Laws of the resources\<close>

lemma rel_in [simp]: "r \<in> set own \<Longrightarrow> rel r own = Some (remove1 r own)"
  by (simp add: rel_def)

lemmas exit_defs = statetbl_exit_def bmitbl_exit_def vpctbl_exit_def l2ptbl_exit_def bootblk_page_exit_def
  out_free_statetbl_def out_free_bootpage_def out_free_bmitbl_def out_free_vpctbl_def out_free_l2p_def out_free_wcb_def
  nvm_exdev_release_pool_def backend_miscdev_delete_def release_pool_def del_misc_dev_def

text \<open>What a set-up module holds: its own resources in front of those of before.\<close>

definition setup_res :: "mres list" where
  "setup_res = [MWriter, MRewr, MWq, MLuns, MCtl, ML1, ML2p, MVpc, MBmi, MBootMeta, MBootBbt, MState]"

lemma cache_alloc_code:
  "write_cache_alloc kz vz d = Some (r, None, l) \<Longrightarrow> r \<noteq> 0"
  "write_cache_alloc kz vz d = Some (r, Some g, l) \<Longrightarrow> r = 0 \<and> kz \<and> vz"
  by (auto simp: write_cache_alloc_def wcb_lun_ctl_init_def bind_eq_Some_conv split: if_splits prod.splits option.splits)

lemma setup_cases:
  assumes "fscftl_setup e own = Some (ret, st, own', dma)"
  shows "case st of None \<Rightarrow> ret \<noteq> 0 \<and> own' = own
    | Some (s, bt) \<Rightarrow> ret = 0 \<and> own' = (if ie_ok e MWq then setup_res else [r \<leftarrow> setup_res. r \<noteq> MWq]) @ own \<and>
        sysm s = sysmeta_initial \<and> l2ptbl s = l2ptbl_initial \<and> write_cache_alloc True True (ie_dma e) = Some (0, Some (ctl s), dma) \<and>
        bt = \<lparr>boot_bbt_page_info = BbtImg bbt_page_initial, boot_meta_page_info = MetaImg meta_page_initial\<rparr>"
proof -
  note defs = fscftl_setup_def statetbl_init_def bootblk_page_init_def bmitbl_init_def vpctbl_init_def l2ptbl_init_def
  show ?thesis
  proof (cases "ie_ok e MState \<and> ie_ok e MBootBbt \<and> ie_ok e MBootMeta \<and> ie_ok e MBmi \<and> ie_ok e MVpc \<and> ie_ok e ML2p \<and> ie_ok e ML1")
    case False
    with assms show ?thesis
      by (auto simp: defs exit_defs Let_def split: if_splits)
  next
    case True
    obtain r g d where g: "write_cache_alloc (ie_ok e MCtl) (ie_ok e MLuns) (ie_dma e) = Some (r, g, d)"
      using True assms by (auto simp: defs Let_def bind_eq_Some_conv)
    show ?thesis
    proof (cases g)
      case None
      with True assms g cache_alloc_code(1) show ?thesis
        by (auto simp: defs exit_defs Let_def)
    next
      case (Some c)
      with g cache_alloc_code(2) have "r = 0" "ie_ok e MCtl" "ie_ok e MLuns"
        by blast+
      with True assms g Some show ?thesis
        by (auto simp: defs fscftl_writer_init_def setup_res_def sysmeta_initial_def Let_def bind_eq_Some_conv res_simps split: if_splits)
    qed
  qed
qed

definition setup_own :: "init_env \<Rightarrow> mres list" where
  "setup_own e = (if ie_ok e MWq then setup_res else [r \<leftarrow> setup_res. r \<noteq> MWq])"

lemma begin_cases:
  assumes "module_begin e exdev own = Some (ret, st, own')"
  shows "case st of None \<Rightarrow> ret \<noteq> 0 \<and> own' = own
    | Some (s, bt, dma) \<Rightarrow> ret = 0 \<and> own' = setup_own e @ [MMisc, MPool] @ own \<and> sysm s = sysmeta_initial \<and> l2ptbl s = l2ptbl_initial \<and>
        write_cache_alloc True True (ie_dma e) = Some (0, Some (ctl s), dma) \<and>
        bt = \<lparr>boot_bbt_page_info = BbtImg bbt_page_initial, boot_meta_page_info = MetaImg meta_page_initial\<rparr>"
proof (cases "exdev \<and> ie_ok e MPool \<and> ie_misc e = 0")
  case False
  with assms show ?thesis
    by (auto simp: module_begin_def nvm_exdev_setup_pool_def backend_miscdev_create_def exit_defs ENODEV_def EFAULT_def Let_def split: if_splits)
next
  case True
  obtain ret' st' own1 dma where s: "fscftl_setup e (MMisc # MPool # own) = Some (ret', st', own1, dma)"
    using True assms by (auto simp: module_begin_def nvm_exdev_setup_pool_def backend_miscdev_create_def bind_eq_Some_conv Let_def)
  with True assms setup_cases [OF s] show ?thesis
    by (cases st') (auto simp: module_begin_def nvm_exdev_setup_pool_def backend_miscdev_create_def exit_defs EFAULT_def setup_own_def Let_def)
qed

lemma exns_cases:
  assumes "nvm_create_exns e own = Some (ret, ns, own')"
  shows "case ns of None \<Rightarrow> ret \<noteq> 0 \<and> own' = own | Some _ \<Rightarrow> ret = 0 \<and> own' = [MQueue, MDisk, MIdr, MExns] @ own"
  using assms by (auto simp: nvm_create_exns_def EFAULT_def Let_def split: if_splits)

lemma cleanup_own:
  assumes "fscftl_cleanup (setup_own e @ [MMisc, MPool]) dma = Some (own', dma')"
  shows "own' = [MMisc, MPool]"
  using assms by (auto simp: setup_own_def setup_res_def fscftl_cleanup_def fscftl_writer_exit_def exit_defs rel_def Let_def
    bind_eq_Some_conv res_simps split: if_splits)

lemma err_cleanup_own: "err_cleanup (setup_own e @ [MMisc, MPool]) dma = Some own' \<Longrightarrow> own' = []"
  by (auto simp: err_cleanup_def exit_defs bind_eq_Some_conv dest!: cleanup_own)

lemma open_cases:
  assumes "module_open e s bt dma fs k (setup_own e @ [MMisc, MPool]) = Some (ret, ld, own')"
  shows "case ld of None \<Rightarrow> ret \<noteq> 0 \<and> own' = []
    | Some l \<Rightarrow> ret = 0 \<and> own' = [MQueue, MDisk, MIdr, MExns] @ setup_own e @ [MMisc, MPool] \<and> prepare_write_context s = Some (ld_ftl l) \<and>
        ld_dma l = dma \<and> ld_boot l = bt \<and> ld_k l = k"
proof -
  obtain s' r ns own1 where o: "prepare_write_context s = Some s'" "nvm_create_exns e (setup_own e @ [MMisc, MPool]) = Some (r, ns, own1)"
    using assms by (auto simp: module_open_def bind_eq_Some_conv)
  show ?thesis
    using assms o exns_cases [OF o(2)] by (cases ns) (auto simp: module_open_def EFAULT_def bind_eq_Some_conv dest!: err_cleanup_own)
qed

text \<open>An environment that grants whatever the module asks for.\<close>

definition granted :: "init_env \<Rightarrow> bool" where
  "granted e \<longleftrightarrow> (\<forall>r. ie_ok e r) \<and> ie_misc e = 0 \<and> 0 \<le> ie_idr e \<and> (\<forall>j < CB_ENTITYS_CNT. dma_ok (ie_dma e) j)"

abbreviation boot_initial :: boot where
  "boot_initial \<equiv> \<lparr>boot_bbt_page_info = BbtImg bbt_page_initial, boot_meta_page_info = MetaImg meta_page_initial\<rparr>"

abbreviation loaded_res :: "mres list" where
  "loaded_res \<equiv> [MQueue, MDisk, MIdr, MExns] @ setup_res @ [MMisc, MPool]"

lemma setup_own_granted: "granted e \<Longrightarrow> setup_own e = setup_res"
  by (simp add: granted_def setup_own_def)

lemma begin_granted:
  assumes "granted e"
  shows "\<exists>g. module_begin e True [] = Some (0, Some (\<lparr>ctl = g, sysm = sysmeta_initial, l2ptbl = l2ptbl_initial\<rparr>, boot_initial, bufs CB_ENTITYS_CNT),
    setup_res @ [MMisc, MPool]) \<and> cache_init g"
proof -
  obtain g where g: "write_cache_alloc True True (ie_dma e) = Some (0, Some g, bufs CB_ENTITYS_CNT)" "cache_init g"
    using assms write_cache_alloc_ok [of "ie_dma e"] unfolding granted_def by blast
  then have "fscftl_setup e [MMisc, MPool] = Some (0, Some (\<lparr>ctl = g, sysm = sysmeta_initial, l2ptbl = l2ptbl_initial\<rparr>, boot_initial),
      setup_res @ [MMisc, MPool], bufs CB_ENTITYS_CNT)"
    using assms by (simp add: granted_def fscftl_setup_def statetbl_init_def bootblk_page_init_def bmitbl_init_def vpctbl_init_def l2ptbl_init_def
      fscftl_writer_init_def setup_res_def sysmeta_initial_def res_simps)
  with g(2) assms show ?thesis
    by (simp add: module_begin_def nvm_exdev_setup_pool_def backend_miscdev_create_def granted_def)
qed

lemma open_granted:
  assumes "granted e" "prepare_write_context s = Some s'"
  shows "\<exists>ns. module_open e s bt dma fs k (setup_res @ [MMisc, MPool]) =
    Some (0, Some \<lparr>ld_ftl = s', ld_boot = bt, ld_exns = ns, ld_dma = dma, ld_flights = fs, ld_k = k\<rparr>, loaded_res)"
  using assms by (simp add: module_open_def granted_def nvm_create_exns_def)

lemma recovery_keeps_meta: "try_recovery_systbl env rdata nsid m b k = Some (r, m', b', fs, k') \<Longrightarrow> m' = m"
  by (auto simp: try_recovery_systbl_def rebuild_systbl_def bind_eq_Some_conv split: if_splits)

lemma cache_free_bufs: "write_cache_free (bufs CB_ENTITYS_CNT) = []"
  by (simp add: write_cache_free_def wcb_lun_mem_free_def wcb_single_lun_free_def upt_conv_Cons numeral_eq_Suc)

lemma config_find: "nvm_find_exdev name devs = Some dev \<Longrightarrow>
    nvm_find_exdev name (config_exdev name devs) = Some (dev\<lparr>ex_regs := ctrl_register_config (ex_regs dev)\<rparr>)"
  by (induction devs) (auto split: if_splits)

lemma begin_found: "module_begin e ex own = Some (ret, Some st, own') \<Longrightarrow> ex"
  by (auto simp: module_begin_def split: if_splits)

definition demo_exdev :: nvm_exdev where
  "demo_exdev = \<lparr>ex_bdiskname = [], ex_regs = (\<lambda>_. 0)\<rparr>"

definition demo_configured :: nvm_exdev where
  "demo_configured = demo_exdev\<lparr>ex_regs := ctrl_register_config (\<lambda>_. 0)\<rparr>"

lemma demo_find: "nvm_find_exdev [] [demo_exdev] = Some demo_exdev" "config_exdev [] [demo_exdev] = [demo_configured]"
    "demo_exdev\<lparr>ex_regs := ctrl_register_config (ex_regs demo_exdev)\<rparr> = demo_configured"
  by (simp_all add: demo_exdev_def demo_configured_def)

lemma vpc_initial_len: "CFG_NAND_BLOCK_NUM \<le> length (vpctbl sysmeta_initial)"
  by (simp add: sysmeta_initial_def vpctbl_initial_def zone_defs)

section \<open>Properties\<close>





text \<open>C39: A drive that is loaded with \<open>mcp\<close> clear writes over its boot block. \<open>rebuild_systbl\<close> does not
  rebuild anything, so the pool of free blocks is empty when \<open>prepare_write_context\<close> takes the first
  block from it: whenever loading succeeds the write path is open at the first address of block 0, which
  holds the bad-block and the meta pages, no block is free and every sector is unmapped.\<close>

theorem recovery_opens_boot_block:
  assumes "granted e" and "fscftl_module_init e env raw rdata nsid patient name devs False k [] (ret, Some ld, own) devs'"
  shows "wcb_abs (ld_ftl ld) [] ([1..<CB_ENTITYS_CNT], [], 0, 0) \<and> unat (ppa_blk (we_baddr (entities (ld_ftl ld) ! 0))) = 0 \<and>
    l2ptbl (ld_ftl ld) = l2ptbl_initial"
proof -
  obtain g where g: "module_begin e True [] = Some (0, Some (\<lparr>ctl = g, sysm = sysmeta_initial, l2ptbl = l2ptbl_initial\<rparr>, boot_initial, bufs CB_ENTITYS_CNT),
      setup_res @ [MMisc, MPool])" "cache_init g"
    using begin_granted [OF assms(1)] by blast
  let ?s = "\<lparr>ctl = g, sysm = sysmeta_initial, l2ptbl = l2ptbl_initial\<rparr>"
  obtain bt fs k' where o: "module_open e ?s bt (bufs CB_ENTITYS_CNT) fs k' (setup_res @ [MMisc, MPool]) = Some (ret, Some ld, own)"
    using assms(2)
  proof cases
    case (init_recovery s bt dma own1 m bt' fs k')
    with g(1) recovery_keeps_meta [OF init_recovery(3)] that begin_found [OF init_recovery(2)] show ?thesis
      by auto
  qed (use g(1) in auto)
  have p: "pool_rep (free_pool (sysm ?s)) []"
    using pool_rep_init by (simp add: sysmeta_initial_def)
  obtain s' where s': "prepare_write_context ?s = Some s'" "wcb_abs s' [] ([1..<CB_ENTITYS_CNT], [], 0, 0)"
      "we_baddr (entities s' ! 0) = set_blk (of_nat 0) 0" "l2ptbl s' = l2ptbl_initial"
    using prepare_empty [OF _ p] g(2) vpc_initial_len by auto
  have "ld_ftl ld = s'"
    using open_cases [OF o [folded setup_own_granted [OF assms(1)]]] s'(1) by simp
  with s' set_blk_base [of 0] show ?thesis
    by simp
qed

theorem recovery_opens_boot_block_witness:
  "\<exists>e ld own. fscftl_module_init e demo_env (\<lambda>_. []) demo_rdata 1 True [] [demo_exdev] False demo_kst [] (0, Some ld, own) [demo_configured] \<and>
     unat (ppa_blk (we_baddr (entities (ld_ftl ld) ! 0))) = 0"
proof -
  define e :: init_env where "e = \<lparr>ie_ok = (\<lambda>_. True), ie_misc = 0, ie_idr = 1, ie_dma = (\<lambda>_ _. True)\<rparr>"
  have e: "granted e"
    by (simp add: granted_def e_def dma_ok_def)
  obtain g where g: "module_begin e True [] = Some (0, Some (\<lparr>ctl = g, sysm = sysmeta_initial, l2ptbl = l2ptbl_initial\<rparr>, boot_initial, bufs CB_ENTITYS_CNT),
      setup_res @ [MMisc, MPool])" "cache_init g"
    using begin_granted [OF e] by blast
  let ?s = "\<lparr>ctl = g, sysm = sysmeta_initial, l2ptbl = l2ptbl_initial\<rparr>"
  have p: "pool_rep (free_pool (sysm ?s)) []"
    using pool_rep_init by (simp add: sysmeta_initial_def)
  obtain s' where s': "prepare_write_context ?s = Some s'"
    using prepare_empty [OF _ p] g(2) vpc_initial_len by auto
  obtain b' fs k' where r: "try_recovery_systbl demo_env demo_rdata 1 sysmeta_initial boot_initial demo_kst = Some (0, sysmeta_initial, b', fs, k')"
    using demo_recovery by blast
  obtain ld where "module_open e ?s b' (bufs CB_ENTITYS_CNT) fs k' (setup_res @ [MMisc, MPool]) = Some (0, Some ld, loaded_res)"
    using open_granted [OF e s'] by blast
  then have i: "fscftl_module_init e demo_env (\<lambda>_. []) demo_rdata 1 True [] [demo_exdev] False demo_kst [] (0, Some ld, loaded_res) (config_exdev [] [demo_exdev])"
    using init_recovery [where name = "[]" and devs = "[demo_exdev]" and own = "[]" and e = e] g(1) r demo_find(1) by simp
  with recovery_opens_boot_block [OF e i] show ?thesis
    unfolding demo_find(2) by blast
qed



end
