(* ===== verification/Write_Threads.thy ===== *)
theory Write_Threads
  imports Write_Reach
begin

text \<open>
  The two kernel threads of \<open>bio-wr.c\<close>: the writer, which submits until the full FIFO is empty
  (\<open>fscftl_write_kthread\<close>), and the thread that retries waiting requests whenever the completion of an
  entity wakes it (\<open>fscftl_rewr_kthread\<close>), with the completion variable \<open>lun_completion\<close> between them.
\<close>

section \<open>The writer\<close>

text \<open>One round of the thread, up to the point where it goes to sleep; the result lists the commands it
  submitted.\<close>

partial_function (option) fscftl_write_kthread :: "ftl \<Rightarrow> (line_cmd list \<times> ftl) option" where
  "fscftl_write_kthread s = do {
     (r, cmds, s) \<leftarrow> submit_write_backend s;
     if r \<noteq> 0 then do {
       (more, s) \<leftarrow> fscftl_write_kthread s;
       Some (cmds @ more, s)
     } else Some (cmds, s)
   }"

definition fscftl_requeue_workfn :: "ftl \<Rightarrow> (bio list \<times> ftl) option" where
  "fscftl_requeue_workfn s = resubmit_wr_bios_list s"

text \<open>A round ends, with eight commands for every full entity, and leaves nothing to submit.\<close>

lemma write_kthread_inv:
  assumes "wsys_inv w E F p B I"
  shows "\<exists>cs s'. fscftl_write_kthread (wftl w) = Some (cs, s') \<and> length cs = 8 * length F \<and>
    wsys_inv (w\<lparr>wftl := s', wcmds := wcmds w @ cs\<rparr>) E [] p B (I @ F)"
  using assms
proof (induction F arbitrary: w I)
  case Nil
  with submit_nil [OF Nil] show ?case
    by (simp add: fscftl_write_kthread.simps [of "wftl w"])
next
  case (Cons e F)
  obtain cs s' where s': "submit_write_backend (wftl w) = Some (1, cs, s')" "length cs = 8"
      "wsys_inv (w\<lparr>wftl := s', wcmds := wcmds w @ cs\<rparr>) E F p B (I @ [e])"
    using submit_inv [OF Cons(2)] by auto
  obtain cs' t where t: "fscftl_write_kthread s' = Some (cs', t)" "length cs' = 8 * length F"
      "wsys_inv (w\<lparr>wftl := t, wcmds := wcmds w @ cs @ cs'\<rparr>) E [] p B (I @ e # F)"
    using Cons(1) [OF s'(3)] by auto
  with s'(1,2) show ?case
    by (simp add: fscftl_write_kthread.simps [of "wftl w"])
qed

lemma write_kthread_returns:
  assumes "started s" "wreach s w"
  shows "\<exists>cs s'. fscftl_write_kthread (wftl w) = Some (cs, s') \<and> submit_write_backend s' = Some (0, [], s') \<and>
    wsys_ok (w\<lparr>wftl := s', wcmds := wcmds w @ cs\<rparr>)"
proof -
  obtain E F p B I where "wsys_inv w E F p B I"
    using reach_ok [OF assms(2,1)] by (rule wsys_okE)
  from write_kthread_inv [OF this] obtain cs s' where s': "fscftl_write_kthread (wftl w) = Some (cs, s')"
      "wsys_inv (w\<lparr>wftl := s', wcmds := wcmds w @ cs\<rparr>) E [] p B (I @ F)"
    by blast
  with submit_nil [OF s'(2)] show ?thesis
    by (auto intro: wsys_okI)
qed

section \<open>The requeue thread\<close>

text \<open>
  Where the thread is: before \<open>reinit_completion\<close>, in \<open>wait_for_completion_interruptible\<close>, or in the
  loop of \<open>resubmit_wr_bios_list\<close>. The completion variable counts its pending signals.
\<close>

datatype rewr_pc = Rewr_reinit | Rewr_wait | Rewr_turn

record tsys =
  tw :: wsys
  lun_completion :: nat
  rewr :: rewr_pc

inductive tstep :: "tsys \<Rightarrow> tsys \<Rightarrow> bool" where
  request: "bio_ok b \<Longrightarrow> has_free (wftl (tw t)) \<Longrightarrow> fscftl_make_rq (wftl (tw t)) WRITE_DIR b = Some (ended, s') \<Longrightarrow>
    tstep t (t\<lparr>tw := (tw t)\<lparr>wftl := s', wmem := (if ended then ack b (wmem (tw t)) else wmem (tw t))\<rparr>\<rparr>)"
| submit: "submit_write_backend (wftl (tw t)) = Some (r, cs, s') \<Longrightarrow>
    tstep t (t\<lparr>tw := (tw t)\<lparr>wftl := s', wcmds := wcmds (tw t) @ cs\<rparr>\<rparr>)"
| complete: "c \<in> set (wcmds (tw t)) \<Longrightarrow> wrppa_lun_completion (wftl (tw t)) c = Some (wake, s') \<Longrightarrow>
    tstep t (t\<lparr>tw := (tw t)\<lparr>wftl := s', wcmds := remove1 c (wcmds (tw t)), wnand := program c (wnand (tw t))\<rparr>,
      lun_completion := (if wake then Suc (lun_completion t) else lun_completion t)\<rparr>)"
| reinit: "rewr t = Rewr_reinit \<Longrightarrow> tstep t (t\<lparr>lun_completion := 0, rewr := Rewr_wait\<rparr>)"
| woken: "rewr t = Rewr_wait \<Longrightarrow> lun_completion t = Suc n \<Longrightarrow> tstep t (t\<lparr>lun_completion := n, rewr := Rewr_turn\<rparr>)"
| leave: "rewr t = Rewr_turn \<Longrightarrow> requeue_wr_bios (ctl (wftl (tw t))) = [] \<Longrightarrow> tstep t (t\<lparr>rewr := Rewr_reinit\<rparr>)"
| served: "rewr t = Rewr_turn \<Longrightarrow> requeue_wr_bios (ctl (wftl (tw t))) = b # bs \<Longrightarrow> has_free (wftl (tw t)) \<Longrightarrow>
    process_write_bio (set_requeue bs (wftl (tw t))) b = Some (FSCFTL_BIO_COMPLETE, s', b') \<Longrightarrow>
    tstep t (t\<lparr>tw := (tw t)\<lparr>wftl := s', wmem := ack b (wmem (tw t))\<rparr>\<rparr>)"
| put_back: "rewr t = Rewr_turn \<Longrightarrow> requeue_wr_bios (ctl (wftl (tw t))) = b # bs \<Longrightarrow> has_free (wftl (tw t)) \<Longrightarrow>
    process_write_bio (set_requeue bs (wftl (tw t))) b = Some (FSCFTL_BIO_RESUBMIT, s', b') \<Longrightarrow>
    tstep t (t\<lparr>tw := (tw t)\<lparr>wftl := set_requeue (b' # requeue_wr_bios (ctl s')) s'\<rparr>, rewr := Rewr_reinit\<rparr>)"

definition tinit :: "ftl \<Rightarrow> tsys" where
  "tinit s = \<lparr>tw = winit s, lun_completion = 0, rewr = Rewr_reinit\<rparr>"

text \<open>The threads only do what the system of \<open>Write_System\<close> may do, so its invariant holds of them.\<close>

lemma tstep_wstep: "tstep t t' \<Longrightarrow> tw t' = tw t \<or> wstep (tw t) (tw t')"
proof (induction rule: tstep.induct)
  case (request b t ended s')
  from wstep.request [OF request] show ?case by simp
next
  case (served t b bs s' b')
  from wstep.retry [OF served(2-4)] show ?case by simp
next
  case (put_back t b bs s' b')
  from wstep.retry [OF put_back(2-4)] show ?case by simp
qed (auto intro: wstep.submit wstep.complete)

lemma threads_wreach: "tstep\<^sup>*\<^sup>* (tinit s) t \<Longrightarrow> wreach s (tw t)"
proof (induction rule: rtranclp_induct)
  case base
  then show ?case by (simp add: tinit_def wreach.start)
next
  case (step t t')
  then show ?case using tstep_wstep [OF step(2)] by (metis wreach.step)
qed

lemma tsys_commute: "t\<lparr>tw := w, lun_completion := n\<rparr> = t\<lparr>lun_completion := n, tw := w\<rparr>"
  by (cases t) simp

lemma threads_back:
  assumes "backstep\<^sup>*\<^sup>* w v" "tw t = w"
  shows "\<exists>n. tstep\<^sup>*\<^sup>* t (t\<lparr>tw := v, lun_completion := n\<rparr>)"
  using assms(1)
proof (induction rule: rtranclp_induct)
  case base
  have "t\<lparr>tw := w, lun_completion := lun_completion t\<rparr> = t" using assms(2) by simp
  then show ?case by (metis rtranclp.rtrancl_refl)
next
  case (step u v)
  then obtain n where n: "tstep\<^sup>*\<^sup>* t (t\<lparr>tw := u, lun_completion := n\<rparr>)" by blast
  from step(2) have "\<exists>m. tstep (t\<lparr>tw := u, lun_completion := n\<rparr>) (t\<lparr>tw := v, lun_completion := m\<rparr>)"
  proof cases
    case (submit r cs s')
    then have "tstep (t\<lparr>tw := u, lun_completion := n\<rparr>) (t\<lparr>tw := v, lun_completion := n\<rparr>)"
      using tstep.submit [of "t\<lparr>tw := u, lun_completion := n\<rparr>" r cs s'] by (simp add: tsys_commute)
    then show ?thesis by blast
  next
    case (complete c wake s')
    then have "tstep (t\<lparr>tw := u, lun_completion := n\<rparr>)
        (t\<lparr>tw := v, lun_completion := (if wake then Suc n else n)\<rparr>)"
      using tstep.complete [of c "t\<lparr>tw := u, lun_completion := n\<rparr>" wake s'] by (simp add: tsys_commute cong: if_cong)
    then show ?thesis by blast
  qed
  with n show ?case by (meson rtranclp.rtrancl_into_rtrancl)
qed

text \<open>The thread sleeps, no signal is pending, nothing is in flight or full, and requests wait.\<close>

definition asleep :: "bio list \<Rightarrow> (u32 \<rightharpoonup> page) \<Rightarrow> tsys \<Rightarrow> bool" where
  "asleep bs m t \<longleftrightarrow> rewr t = Rewr_wait \<and> lun_completion t = 0 \<and> wcmds (tw t) = [] \<and> wmem (tw t) = m \<and>
     bs \<noteq> [] \<and> (\<exists>cs. requeue_wr_bios (ctl (wftl (tw t))) = bs @ cs) \<and>
     submit_write_backend (wftl (tw t)) = Some (0, [], wftl (tw t))"

lemma submit_requeue:
  assumes "submit_write_backend s = Some (0, [], s)"
  shows "submit_write_backend (set_requeue bs s) = Some (0, [], set_requeue bs s)"
proof -
  have p: "pull_full s = Some (None, s)"
    using assms by (auto simp: submit_write_backend_def bind_eq_Some_conv split: option.splits)
  then obtain es fifo where e: "pull_lun_entity_from_fifo (entities s) (full_lun (ctl s)) = Some (None, es, fifo)"
      "s\<lparr>ctl := (ctl s)\<lparr>lun_entitys := es, full_lun := fifo\<rparr>\<rparr> = s"
    by (auto simp: pull_full_def bind_eq_Some_conv)
  have "es = entities s" "fifo = full_lun (ctl s)"
    using arg_cong [OF e(2), of "\<lambda>s. lun_entitys (ctl s)"] arg_cong [OF e(2), of "\<lambda>s. full_lun (ctl s)"] by simp_all
  with e(1) show ?thesis
    by (simp add: submit_write_backend_def pull_full_def set_requeue_def)
qed

lemma asleep_step:
  assumes "tstep t t'" "asleep bs m t"
  shows "asleep bs m t'"
  using assms
  by cases (auto simp: asleep_def fscftl_make_rq_def submit_requeue)

text \<open>C13: A signal can be lost for good. From every reachable state in which a request waits and the
  requeue thread is about to call \<open>reinit_completion\<close>, there is a run after which the waiting requests
  are never taken up again, whatever follows: the remaining completions signal before the thread clears
  the completion variable and sleeps, and later requests only join the queue. No request is acknowledged
  any more.\<close>

theorem lost_wakeup:
  assumes "started s" and "tstep\<^sup>*\<^sup>* (tinit s) t" and "rewr t = Rewr_reinit"
    and "requeue_wr_bios (ctl (wftl (tw t))) = b # bs"
  shows "\<exists>t'. tstep\<^sup>*\<^sup>* t t' \<and> (\<forall>t''. tstep\<^sup>*\<^sup>* t' t'' \<longrightarrow>
    (\<exists>cs. requeue_wr_bios (ctl (wftl (tw t''))) = b # bs @ cs) \<and> wmem (tw t'') = wmem (tw t))"
proof -
  obtain E F p B I where inv: "wsys_inv (tw t) E F p B I"
    using reach_ok [OF threads_wreach [OF assms(2)] assms(1)] by (rule wsys_okE)
  obtain v E' where v: "backstep\<^sup>*\<^sup>* (tw t) v" "wsys_inv v E' [] p B []" "wcmds v = []" "wmem v = wmem (tw t)"
      "requeue_wr_bios (ctl (wftl v)) = b # bs"
    using back_drain [OF inv] assms(4) by metis
  obtain n where n: "tstep\<^sup>*\<^sup>* t (t\<lparr>tw := v, lun_completion := n\<rparr>)"
    using threads_back [OF v(1)] by blast
  define t' where "t' = t\<lparr>tw := v, lun_completion := 0, rewr := Rewr_wait\<rparr>"
  have "tstep\<^sup>*\<^sup>* t t'"
    using n tstep.reinit [of "t\<lparr>tw := v, lun_completion := n\<rparr>"] assms(3)
    by (simp add: t'_def rtranclp.rtrancl_into_rtrancl)
  moreover have "asleep (b # bs) (wmem (tw t)) t'"
    using v submit_nil [OF v(2)] by (simp add: asleep_def t'_def)
  moreover have "asleep (b # bs) (wmem (tw t)) t''" if "tstep\<^sup>*\<^sup>* t' t''" for t''
    using that \<open>asleep (b # bs) (wmem (tw t)) t'\<close> by (induction rule: rtranclp_induct) (auto intro: asleep_step)
  ultimately show ?thesis
    by (auto simp: asleep_def)
qed

theorem lost_wakeup_witness:
  "\<exists>s t'. waiting_ftl = Some s \<and> tstep\<^sup>*\<^sup>* (tinit s) t' \<and> (\<forall>t''. tstep\<^sup>*\<^sup>* t' t'' \<longrightarrow>
    (\<exists>cs. requeue_wr_bios (ctl (wftl (tw t''))) = wbio # cs) \<and> wmem (tw t'') = Map.empty)"
proof -
  obtain s where s: "waiting_ftl = Some s" "started s" "requeue_wr_bios (ctl s) = [wbio]"
    using waiting_started by blast
  then show ?thesis
    using lost_wakeup [OF s(2) rtranclp.rtrancl_refl, of wbio "[]"] by (auto simp: tinit_def winit_def)
qed

end
