(* ===== verification/Pblk_Defs.thy ===== *)
theory Pblk_Defs
  imports FTL_Prelude
begin

text \<open>
  The data of \<open>lightnvm/pblk.h\<close>: write contexts and entries of the ring buffer, the rate limiter, lines
  and their management, the instance \<open>pblk\<close> that holds them, and the inline functions on generic
  addresses. Locks, memory pools, timers and the counters of \<open>CONFIG_NVM_DEBUG\<close> are left out; an
  operation that runs under a lock is one step.
\<close>

section \<open>Generic addresses\<close>

text \<open>
  \<open>struct ppa_addr\<close> is a union over 64 bits: the address of a sector (\<open>g\<close>), a line of the write buffer
  (\<open>c\<close>), or the empty address.
\<close>

type_synonym ppa_addr = u64

definition ADDR_EMPTY :: u64 where "ADDR_EMPTY = - 1"

definition g_blk :: "ppa_addr \<Rightarrow> u64" where "g_blk p = bf_get 0 16 p"
definition g_pg :: "ppa_addr \<Rightarrow> u64" where "g_pg p = bf_get 16 16 p"
definition g_sec :: "ppa_addr \<Rightarrow> u64" where "g_sec p = bf_get 32 8 p"
definition g_pl :: "ppa_addr \<Rightarrow> u64" where "g_pl p = bf_get 40 8 p"
definition g_lun :: "ppa_addr \<Rightarrow> u64" where "g_lun p = bf_get 48 8 p"
definition g_ch :: "ppa_addr \<Rightarrow> u64" where "g_ch p = bf_get 56 7 p"
definition c_line :: "ppa_addr \<Rightarrow> u64" where "c_line p = bf_get 0 63 p"
definition c_is_cached :: "ppa_addr \<Rightarrow> u64" where "c_is_cached p = bf_get 63 1 p"

definition ppa_empty :: "ppa_addr \<Rightarrow> bool" where
  "ppa_empty p \<longleftrightarrow> p = ADDR_EMPTY"

definition nvm_addr_in_cache :: "ppa_addr \<Rightarrow> bool" where
  "nvm_addr_in_cache p \<longleftrightarrow> p \<noteq> ADDR_EMPTY \<and> c_is_cached p \<noteq> 0"

definition nvm_addr_to_cacheline :: "ppa_addr \<Rightarrow> u64" where
  "nvm_addr_to_cacheline p = c_line p"

definition pblk_cacheline_to_ppa :: "u64 \<Rightarrow> ppa_addr" where
  "pblk_cacheline_to_ppa addr = bf_set 63 1 1 (bf_set 0 63 addr 0)"

definition pblk_dev_addr_to_ppa :: "u64 \<Rightarrow> ppa_addr" where
  "pblk_dev_addr_to_ppa addr = bf_set 63 1 0 addr"

definition pblk_ppa_to_line :: "ppa_addr \<Rightarrow> u64" where
  "pblk_ppa_to_line p = g_blk p"

record pblk_addr_format =
  pg_offset :: nat
  lun_offset :: nat
  ch_offset :: nat
  pln_offset :: nat
  sec_offset :: nat

definition pblk_ppa_to_line_addr :: "pblk_addr_format \<Rightarrow> ppa_addr \<Rightarrow> u64" where
  "pblk_ppa_to_line_addr f p = push_bit (pg_offset f) (g_pg p) OR push_bit (lun_offset f) (g_lun p) OR
     push_bit (ch_offset f) (g_ch p) OR push_bit (pln_offset f) (g_pl p) OR push_bit (sec_offset f) (g_sec p)"

section \<open>The write buffer\<close>

definition PBLK_IOTYPE_USER :: u32 where "PBLK_IOTYPE_USER = 1"
definition PBLK_IOTYPE_GC :: u32 where "PBLK_IOTYPE_GC = 2"
definition PBLK_FLUSH_ENTRY :: u32 where "PBLK_FLUSH_ENTRY = push_bit 6 1"
definition PBLK_WRITTEN_DATA :: u32 where "PBLK_WRITTEN_DATA = push_bit 7 1"
definition PBLK_SUBMITTED_ENTRY :: u32 where "PBLK_SUBMITTED_ENTRY = push_bit 8 1"
definition PBLK_WRITABLE_ENTRY :: u32 where "PBLK_WRITABLE_ENTRY = push_bit 9 1"

text \<open>Requests waiting on an entry are known by a number.\<close>

record pblk_w_ctx =
  wx_bios :: "nat list"
  wx_lba :: u64
  wx_paddr :: u64
  wx_ppa :: ppa_addr
  wx_flags :: u32

record pblk_rb_entry =
  re_cacheline :: ppa_addr
  re_data :: page
  re_w_ctx :: pblk_w_ctx

definition EMPTY_ENTRY :: u32 where "EMPTY_ENTRY = NOT 0"

record pblk_rb =
  rb_entries :: "pblk_rb_entry list"
  rb_mem :: u32
  rb_subm :: u32
  rb_sync :: u32
  rb_sync_point :: u32
  rb_l2p_update :: u32
  rb_nr_entries :: u32
  rb_seg_size :: u32
  rb_pages :: "nat list"

text \<open>The completion context of a write request, with the address list of the request around it.\<close>

record pblk_c_ctx =
  cc_sentry :: u32
  cc_nr_valid :: u32
  cc_nr_padded :: u32
  cc_ppa_list :: "ppa_addr list"

section \<open>Rate limiter and garbage collector\<close>

definition PBLK_MAX_REQ_ADDRS :: nat where [simp]: "PBLK_MAX_REQ_ADDRS = 64"
definition PBLK_MAX_REQ_ADDRS_PW :: nat where [simp]: "PBLK_MAX_REQ_ADDRS_PW = 6"
definition PBLK_USER_LOW_THRS :: nat where [simp]: "PBLK_USER_LOW_THRS = 50"
definition PBLK_USER_HIGH_THRS :: nat where [simp]: "PBLK_USER_HIGH_THRS = 4"

record pblk_gc =
  gc_active :: bool
  gc_enabled :: bool
  gc_forced :: bool

text \<open>The last field of the limiter tells whether its timer is armed.\<close>

record pblk_rl =
  rl_high_pw :: u32
  rl_low_pw :: u32
  rl_rb_windows_pw :: int
  rl_rb_budget :: int
  rl_rb_user_max :: int
  rl_rb_user_cnt :: int
  rl_rb_gc_max :: int
  rl_rb_gc_rsv :: int
  rl_rb_gc_cnt :: int
  rl_rb_user_active :: bool
  rl_nr_secs :: u64
  rl_total_blocks :: u64
  rl_free_blocks :: u64
  rl_u_timer :: bool

section \<open>Lines\<close>

datatype line_state = PBLK_LINESTATE_FREE | PBLK_LINESTATE_OPEN | PBLK_LINESTATE_CLOSED | PBLK_LINESTATE_GC
  | PBLK_LINESTATE_BAD | PBLK_LINESTATE_CORRUPT

datatype line_gc = PBLK_LINEGC_NONE | PBLK_LINEGC_EMPTY | PBLK_LINEGC_LOW | PBLK_LINEGC_MID | PBLK_LINEGC_HIGH | PBLK_LINEGC_FULL

record pblk_line =
  pl_id :: u32
  pl_state :: line_state
  pl_gc_group :: line_gc
  pl_sec_in_line :: u32
  pl_blk_in_line :: u32
  pl_invalid_bitmap :: "u64 set"
  pl_left_ssecs :: int
  pl_vsc :: u32
  pl_ref :: nat

text \<open>The lists a line can be on.\<close>

datatype line_list = Free_list | Corrupt_list | Gc_full_list | Gc_high_list | Gc_mid_list | Gc_low_list | Gc_empty_list

record pblk_line_mgmt =
  mg_lists :: "line_list \<Rightarrow> nat list"
  mg_nr_free_lines :: int

record pblk_line_meta =
  lm_mid_thrs :: u32
  lm_high_thrs :: u32

text \<open>\<open>pb_close_ws\<close> are the lines whose closing has been handed to the work queue.\<close>

record pblk =
  pb_lines :: "pblk_line list"
  pb_l_mg :: pblk_line_mgmt
  pb_lm :: pblk_line_meta
  pb_ppaf :: pblk_addr_format
  pb_rwb :: pblk_rb
  pb_min_write_pgs :: int
  pb_max_write_pgs :: int
  pb_rl :: pblk_rl
  pb_trans_map :: "ppa_addr list"
  pb_compl_list :: "pblk_c_ctx list"
  pb_gc :: pblk_gc
  pb_close_ws :: "nat list"

section \<open>Flags\<close>

lemmas flag_defs = PBLK_FLUSH_ENTRY_def PBLK_WRITTEN_DATA_def PBLK_SUBMITTED_ENTRY_def PBLK_WRITABLE_ENTRY_def
  PBLK_IOTYPE_USER_def PBLK_IOTYPE_GC_def

text \<open>A test of a flag of one bit reads that bit.\<close>

lemma and_bit_zero: "(w AND push_bit n 1 = 0) \<longleftrightarrow> \<not> bit w n" for w :: "'w::len word"
proof -
  have "w AND push_bit n 1 = (if bit w n then push_bit n 1 else 0)"
    by (rule bit_word_eqI) (auto simp: bit_simps)
  moreover have "push_bit n (1 :: 'w word) \<noteq> 0" if "bit w n"
    using that by (metis bit_imp_le_length bit_push_bit_iff bit_1_iff bit_0_eq bot_apply bot_bool_def diff_self_eq_0 le_refl possible_bit_word)
  ultimately show ?thesis
    by auto
qed

lemma flag_tests:
  "(w AND PBLK_FLUSH_ENTRY = 0) \<longleftrightarrow> \<not> bit w 6" "(w AND PBLK_WRITTEN_DATA = 0) \<longleftrightarrow> \<not> bit w 7"
  "(w AND PBLK_SUBMITTED_ENTRY = 0) \<longleftrightarrow> \<not> bit w 8" "(w AND PBLK_WRITABLE_ENTRY = 0) \<longleftrightarrow> \<not> bit w 9"
  "(w AND PBLK_IOTYPE_USER = 0) \<longleftrightarrow> \<not> bit w 0" "(w AND PBLK_IOTYPE_GC = 0) \<longleftrightarrow> \<not> bit w 1"
proof -
  have "push_bit 0 1 = (1 :: u32)" "push_bit 1 1 = (2 :: u32)"
    by (simp_all add: push_bit_eq_mult)
  then show "(w AND PBLK_IOTYPE_USER = 0) \<longleftrightarrow> \<not> bit w 0" "(w AND PBLK_IOTYPE_GC = 0) \<longleftrightarrow> \<not> bit w 1"
    unfolding flag_defs by (metis and_bit_zero)+
qed (simp_all only: flag_defs and_bit_zero)

lemma flag_bits:
  "bit PBLK_FLUSH_ENTRY i \<longleftrightarrow> i = 6" "bit PBLK_WRITTEN_DATA i \<longleftrightarrow> i = 7"
  "bit PBLK_SUBMITTED_ENTRY i \<longleftrightarrow> i = 8" "bit PBLK_WRITABLE_ENTRY i \<longleftrightarrow> i = 9"
  "bit PBLK_IOTYPE_USER i \<longleftrightarrow> i = 0" "bit PBLK_IOTYPE_GC i \<longleftrightarrow> i = 1"
proof -
  have one: "bit (push_bit n (1 :: u32)) i \<longleftrightarrow> i = n" if "n < 32" for n
    using that by (auto simp: bit_exp_iff)
  show "bit PBLK_FLUSH_ENTRY i \<longleftrightarrow> i = 6" "bit PBLK_WRITTEN_DATA i \<longleftrightarrow> i = 7"
      "bit PBLK_SUBMITTED_ENTRY i \<longleftrightarrow> i = 8" "bit PBLK_WRITABLE_ENTRY i \<longleftrightarrow> i = 9"
    unfolding flag_defs by (rule one, simp)+
qed (auto simp: flag_defs bit_simps bit_2_iff)

section \<open>Addresses of cache lines\<close>

lemma bit_cacheline: "bit (pblk_cacheline_to_ppa addr) i \<longleftrightarrow> i = 63 \<or> i < 63 \<and> bit addr i"
  by (auto simp: pblk_cacheline_to_ppa_def bit_bf_set bit_simps)

lemma cached_bit: "c_is_cached p \<noteq> 0 \<longleftrightarrow> bit p 63"
proof -
  have "bit (c_is_cached p) i \<longleftrightarrow> i = 0 \<and> bit p 63" for i
    by (auto simp: c_is_cached_def bit_bf_get)
  then show ?thesis
    by (metis bit_0_eq bit_word_eqI bot_apply bot_bool_def)
qed

lemma empty_bit: "bit ADDR_EMPTY i \<longleftrightarrow> i < 64"
  by (simp add: ADDR_EMPTY_def bit_simps)

text \<open>An index of the ring buffer survives the way into an address and back.\<close>

lemma cacheline_addr:
  assumes "addr < 2 ^ 32"
  shows "nvm_addr_to_cacheline (pblk_cacheline_to_ppa addr) = addr" "nvm_addr_in_cache (pblk_cacheline_to_ppa addr)"
    "pblk_cacheline_to_ppa addr \<noteq> ADDR_EMPTY"
proof -
  have low: "\<not> bit addr i" if "32 \<le> i" for i
  proof -
    have "addr = take_bit 32 addr"
      using assms by (simp add: word_unat_eq_iff unsigned_take_bit_eq take_bit_nat_eq_self word_less_nat_alt)
    with that show ?thesis
      by (metis bit_take_bit_iff linorder_not_less)
  qed
  show "nvm_addr_to_cacheline (pblk_cacheline_to_ppa addr) = addr"
  proof (rule bit_word_eqI)
    fix i
    show "bit (nvm_addr_to_cacheline (pblk_cacheline_to_ppa addr)) i \<longleftrightarrow> bit addr i"
      using low [of i] by (cases "32 \<le> i") (auto simp: nvm_addr_to_cacheline_def c_line_def bit_bf_get bit_cacheline)
  qed
  have "\<not> bit (pblk_cacheline_to_ppa addr) 62"
    using low [of 62] by (simp add: bit_cacheline)
  then show "pblk_cacheline_to_ppa addr \<noteq> ADDR_EMPTY"
    using empty_bit [of 62] by auto
  then show "nvm_addr_in_cache (pblk_cacheline_to_ppa addr)"
    by (simp add: nvm_addr_in_cache_def cached_bit bit_cacheline)
qed

lemma cacheline_inj: "a < 2 ^ 32 \<Longrightarrow> b < 2 ^ 32 \<Longrightarrow> pblk_cacheline_to_ppa a = pblk_cacheline_to_ppa b \<Longrightarrow> a = b"
  by (metis cacheline_addr(1))

end
