(* ===== verification/Pblk_Rl.thy ===== *)
theory Pblk_Rl
  imports Pblk_Defs
begin

text \<open>
  The rate limiter of \<open>pblk-rl.c\<close>, which shares the entries of the write buffer between user writes and
  garbage collection, with the switch of the collector in \<open>pblk-gc.c\<close>. Counters of type \<open>int\<close> count
  entries of the buffer and never come near the bounds of the type.
\<close>

section \<open>Orders of magnitude\<close>

text \<open>\<open>fls\<close> and \<open>get_count_order\<close> of the kernel: the position of the highest bit, and the exponent of
  the next power of two; the order of 0 is -1.\<close>

fun fls :: "nat \<Rightarrow> nat" where
  "fls n = (if n = 0 then 0 else Suc (fls (n div 2)))"

declare fls.simps [simp del]

definition get_count_order :: "nat \<Rightarrow> int" where
  "get_count_order count = (let order = int (fls count) - 1 in
     if count AND (count - 1) \<noteq> 0 then order + 1 else order)"

section \<open>The garbage collector's switch\<close>

definition pblk_gc_start :: "pblk_gc \<Rightarrow> pblk_gc" where
  "pblk_gc_start gc = gc\<lparr>gc_active := True\<rparr>"

definition pblk_gc_status :: "pblk_gc \<Rightarrow> bool" where
  "pblk_gc_status gc = gc_active gc"

definition pblk_gc_should_start :: "pblk_gc \<Rightarrow> pblk_gc" where
  "pblk_gc_should_start gc = (if gc_enabled gc \<and> \<not> gc_active gc then pblk_gc_start gc else gc)"

definition pblk_gc_stop :: "pblk_gc \<Rightarrow> pblk_gc" where
  "pblk_gc_stop gc = gc\<lparr>gc_active := False\<rparr>"

definition pblk_gc_should_stop :: "pblk_gc \<Rightarrow> pblk_gc" where
  "pblk_gc_should_stop gc = (if gc_active gc \<and> \<not> gc_forced gc then pblk_gc_stop gc else gc)"

section \<open>The limiter\<close>

definition pblk_rl_kick_u_timer :: "pblk_rl \<Rightarrow> pblk_rl" where
  "pblk_rl_kick_u_timer rl = rl\<lparr>rl_u_timer := True\<rparr>"

definition pblk_rl_user_may_insert :: "pblk_rl \<Rightarrow> int \<Rightarrow> bool" where
  "pblk_rl_user_may_insert rl nr_entries \<longleftrightarrow> \<not> rl_rb_user_cnt rl + nr_entries > rl_rb_user_max rl"

definition pblk_rl_gc_may_insert :: "pblk_rl \<Rightarrow> int \<Rightarrow> bool" where
  "pblk_rl_gc_may_insert rl nr_entries \<longleftrightarrow> \<not> (rl_rb_gc_cnt rl + nr_entries > rl_rb_gc_max rl \<and> rl_rb_user_active rl)"

definition pblk_rl_user_in :: "pblk_rl \<Rightarrow> int \<Rightarrow> pblk_rl" where
  "pblk_rl_user_in rl nr_entries = pblk_rl_kick_u_timer
     (rl\<lparr>rl_rb_user_cnt := rl_rb_user_cnt rl + nr_entries, rl_rb_user_active := True\<rparr>)"

definition pblk_rl_gc_in :: "pblk_rl \<Rightarrow> int \<Rightarrow> pblk_rl" where
  "pblk_rl_gc_in rl nr_entries = rl\<lparr>rl_rb_gc_cnt := rl_rb_gc_cnt rl + nr_entries\<rparr>"

text \<open>The first result is the condition of the \<open>WARN_ON\<close>.\<close>

definition pblk_rl_out :: "pblk_rl \<Rightarrow> int \<Rightarrow> int \<Rightarrow> bool \<times> pblk_rl" where
  "pblk_rl_out rl nr_user nr_gc = (let
     rl = rl\<lparr>rl_rb_user_cnt := rl_rb_user_cnt rl - nr_user, rl_rb_gc_cnt := rl_rb_gc_cnt rl - nr_gc\<rparr>
   in (rl_rb_user_cnt rl < 0 \<or> rl_rb_gc_cnt rl < 0, rl))"

datatype rl_ret = PBLK_RL_START_GC | PBLK_RL_STOP_GC

text \<open>A shift by a negative or by too large an amount has no defined result.\<close>

definition pblk_rl_update_rates :: "pblk_rl \<Rightarrow> int \<Rightarrow> (rl_ret \<times> pblk_rl) option" where
  "pblk_rl_update_rates rl mx = do {
     guard (unat (rl_high_pw rl) < 31 \<and> unat (rl_low_pw rl) < 31);
     let high = 2 ^ unat (rl_high_pw rl);
     let low = 2 ^ unat (rl_low_pw rl);
     let free = unat (rl_free_blocks rl);
     if free \<ge> high then
       Some (PBLK_RL_STOP_GC, rl\<lparr>rl_rb_user_max := mx - rl_rb_gc_rsv rl, rl_rb_gc_max := rl_rb_gc_rsv rl\<rparr>)
     else if free > low \<and> free < high then do {
       let shift = int (unat (rl_high_pw rl)) - rl_rb_windows_pw rl;
       guard (0 \<le> shift \<and> shift < 64);
       let user_windows = int (free div 2 ^ nat shift);
       let user_max = user_windows * 2 ^ PBLK_MAX_REQ_ADDRS_PW;
       let gc_max = mx - user_max;
       Some (PBLK_RL_START_GC, rl\<lparr>rl_rb_user_max := user_max, rl_rb_gc_max := max gc_max (rl_rb_gc_rsv rl)\<rparr>)
     }
     else Some (PBLK_RL_START_GC, rl\<lparr>rl_rb_user_max := 0, rl_rb_gc_max := mx\<rparr>)
   }"

definition pblk_rl_set_gc_rsc :: "pblk_rl \<Rightarrow> int \<Rightarrow> pblk_rl" where
  "pblk_rl_set_gc_rsc rl rsv = rl\<lparr>rl_rb_gc_rsv := rsv, rl_rb_gc_max := rsv\<rparr>"

definition pblk_rl_switch_gc :: "rl_ret \<Rightarrow> pblk \<Rightarrow> pblk" where
  "pblk_rl_switch_gc ret pb = (case ret of
     PBLK_RL_START_GC \<Rightarrow> pb\<lparr>pb_gc := pblk_gc_should_start (pb_gc pb)\<rparr>
   | PBLK_RL_STOP_GC \<Rightarrow> pb\<lparr>pb_gc := pblk_gc_should_stop (pb_gc pb)\<rparr>)"

definition pblk_rl_free_lines_inc :: "pblk \<Rightarrow> pblk_line \<Rightarrow> pblk option" where
  "pblk_rl_free_lines_inc pb line = do {
     let rl = (pb_rl pb)\<lparr>rl_free_blocks := rl_free_blocks (pb_rl pb) + ucast (pl_blk_in_line line)\<rparr>;
     (ret, rl) \<leftarrow> pblk_rl_update_rates rl (rl_rb_budget rl);
     Some (pblk_rl_switch_gc ret (pb\<lparr>pb_rl := rl\<rparr>))
   }"

definition pblk_rl_free_lines_dec :: "pblk \<Rightarrow> pblk_line \<Rightarrow> pblk option" where
  "pblk_rl_free_lines_dec pb line = do {
     let rl = (pb_rl pb)\<lparr>rl_free_blocks := rl_free_blocks (pb_rl pb) - ucast (pl_blk_in_line line)\<rparr>;
     (ret, rl) \<leftarrow> pblk_rl_update_rates rl (rl_rb_budget rl);
     Some (pblk_rl_switch_gc ret (pb\<lparr>pb_rl := rl\<rparr>))
   }"

definition pblk_gc_sysfs_force :: "pblk \<Rightarrow> bool \<Rightarrow> pblk" where
  "pblk_gc_sysfs_force pb force = (let
     gc = (if force then (pb_gc pb)\<lparr>gc_enabled := True\<rparr> else pb_gc pb);
     rsv = (if force then 64 else 0);
     rl = pblk_rl_set_gc_rsc (pb_rl pb) rsv;
     gc = pblk_gc_should_start (gc\<lparr>gc_forced := force\<rparr>)
   in pb\<lparr>pb_rl := rl, pb_gc := gc\<rparr>)"

definition pblk_rl_nr_free_blks :: "pblk_rl \<Rightarrow> u64" where
  "pblk_rl_nr_free_blks rl = rl_free_blocks rl"

definition pblk_rl_gc_thrs :: "pblk_rl \<Rightarrow> int" where
  "pblk_rl_gc_thrs rl = 2 ^ unat (rl_high_pw rl) + 1"

definition pblk_rl_sysfs_rate_show :: "pblk_rl \<Rightarrow> int" where
  "pblk_rl_sysfs_rate_show rl = rl_rb_user_max rl"

definition pblk_rl_u_timer :: "pblk_rl \<Rightarrow> pblk_rl" where
  "pblk_rl_u_timer rl = rl\<lparr>rl_rb_user_active := False, rl_u_timer := False\<rparr>"

definition pblk_rl_free :: "pblk_rl \<Rightarrow> pblk_rl" where
  "pblk_rl_free rl = rl\<lparr>rl_u_timer := False\<rparr>"

definition pblk_rl_init :: "pblk_rl \<Rightarrow> int \<Rightarrow> pblk_rl" where
  "pblk_rl_init rl budget = (let rb_windows = nat budget div PBLK_MAX_REQ_ADDRS in
     rl\<lparr>rl_high_pw := of_int (get_count_order (unat (rl_total_blocks rl) div PBLK_USER_HIGH_THRS)),
        rl_low_pw := of_int (get_count_order (unat (rl_total_blocks rl) div PBLK_USER_LOW_THRS)),
        rl_rb_windows_pw := get_count_order rb_windows,
        rl_rb_budget := budget, rl_rb_user_max := budget, rl_rb_user_cnt := 0, rl_rb_gc_max := 0, rl_rb_gc_cnt := 0,
        rl_u_timer := False, rl_rb_user_active := False\<rparr>)"

section \<open>Laws\<close>

lemma fls_bounds: "0 < n \<Longrightarrow> 2 ^ (fls n - 1) \<le> n \<and> n < 2 ^ fls n \<and> 0 < fls n"
proof (induction n rule: fls.induct)
  case (1 n)
  show ?case
  proof (cases "n div 2 = 0")
    case True
    with 1 show ?thesis
      by (simp add: fls.simps [of n] fls.simps [of 0])
  next
    case False
    with 1 have i: "2 ^ (fls (n div 2) - 1) \<le> n div 2" "n div 2 < 2 ^ fls (n div 2)" "0 < fls (n div 2)"
      by auto
    have f: "fls n = Suc (fls (n div 2))"
      using 1 by (simp add: fls.simps [of n])
    have "2 * 2 ^ (fls (n div 2) - 1) = (2 :: nat) ^ fls (n div 2)"
      using i(3) by (cases "fls (n div 2)") simp_all
    then have "2 ^ fls (n div 2) \<le> n" "n < 2 * 2 ^ fls (n div 2)"
      using i(1,2) by linarith+
    with f show ?thesis
      by simp
  qed
qed

text \<open>A power of two is recognised by its bits.\<close>

lemma pow2_and_pred: "(2 :: nat) ^ k AND (2 ^ k - 1) = 0"
proof -
  have "(2 :: nat) ^ k AND mask k = 2 ^ k mod 2 ^ k"
    by (metis take_bit_eq_mask take_bit_eq_mod)
  then show ?thesis
    by (simp add: mask_eq_exp_minus_1)
qed

lemma count_order_pow2: "get_count_order (2 ^ k) = int k"
proof -
  have b: "2 ^ (fls (2 ^ k) - 1) \<le> (2 :: nat) ^ k" "(2 :: nat) ^ k < 2 ^ fls (2 ^ k)" "0 < fls (2 ^ k)"
    using fls_bounds [of "2 ^ k"] by auto
  then have "fls (2 ^ k) - 1 \<le> k" "k < fls (2 ^ k)"
    by simp_all
  then have "fls (2 ^ k) = Suc k"
    by simp
  then show ?thesis
    using pow2_and_pred [of k] by (simp add: get_count_order_def Let_def)
qed

text \<open>
  While the user is being limited, the user's share is a number of whole windows of 64 entries below the
  budget: the collector always gets the room of one window.
\<close>

lemma rates_limited:
  assumes "pblk_rl_update_rates rl mx = Some (ret, rl')" and "mx = 64 * 2 ^ w" and "rl_rb_windows_pw rl = int w"
    and "2 ^ unat (rl_low_pw rl) < unat (rl_free_blocks rl)" and "unat (rl_free_blocks rl) < 2 ^ unat (rl_high_pw rl)"
  shows "ret = PBLK_RL_START_GC \<and> 0 \<le> rl_rb_user_max rl' \<and> rl_rb_user_max rl' \<le> mx - 64 \<and> 64 \<le> rl_rb_gc_max rl' \<and>
    mx \<le> rl_rb_user_max rl' + rl_rb_gc_max rl'"
proof -
  define h f where "h = unat (rl_high_pw rl)" and "f = unat (rl_free_blocks rl)"
  have w: "w \<le> h" and r: "ret = PBLK_RL_START_GC" "rl_rb_user_max rl' = int (f div 2 ^ (h - w)) * 64"
      "rl_rb_gc_max rl' = max (mx - int (f div 2 ^ (h - w)) * 64) (rl_rb_gc_rsv rl)"
    using assms by (auto simp: pblk_rl_update_rates_def Let_def res_simps h_def f_def bind_eq_Some_conv nat_diff_distrib split: if_splits)
      (metis of_nat_le_iff uint_nat)
  have "f < 2 ^ w * 2 ^ (h - w)"
    using assms(5) w by (simp add: power_add [symmetric] h_def f_def)
  then have "f div 2 ^ (h - w) < 2 ^ w"
    by (simp add: less_mult_imp_div_less)
  then have "int (f div 2 ^ (h - w)) + 1 \<le> 2 ^ w"
    by (metis Suc_eq_plus1 Suc_leI of_nat_1 of_nat_add of_nat_le_iff of_nat_numeral of_nat_power)
  with r assms(2) show ?thesis
    by (simp add: max_def)
qed

end
