(* ===== verification/Pblk_Core.thy ===== *)
theory Pblk_Core
  imports Pblk_Rl
begin

text \<open>
  The part of \<open>pblk-core.c\<close> the write buffer rests on: the translation map, the invalidation of sectors
  and the lists and reference counts of lines.
\<close>

section \<open>Lines\<close>

definition put_line :: "nat \<Rightarrow> pblk_line \<Rightarrow> pblk \<Rightarrow> pblk" where
  "put_line i line pb = pb\<lparr>pb_lines := (pb_lines pb)[i := line]\<rparr>"

text \<open>A line is on at most one list.\<close>

definition list_move_tail :: "nat \<Rightarrow> line_list \<Rightarrow> pblk \<Rightarrow> pblk" where
  "list_move_tail i l pb = (let mg = pb_l_mg pb; ls = (\<lambda>l. removeAll i (mg_lists mg l)) in
     pb\<lparr>pb_l_mg := mg\<lparr>mg_lists := ls(l := ls l @ [i])\<rparr>\<rparr>)"

definition list_add_tail :: "nat \<Rightarrow> line_list \<Rightarrow> pblk \<Rightarrow> pblk" where
  "list_add_tail i l pb = (let mg = pb_l_mg pb in
     pb\<lparr>pb_l_mg := mg\<lparr>mg_lists := (mg_lists mg)(l := mg_lists mg l @ [i])\<rparr>\<rparr>)"

definition pblk_line_gc_list :: "pblk_line_meta \<Rightarrow> pblk_line \<Rightarrow> line_list option \<times> pblk_line" where
  "pblk_line_gc_list lm line = (
     if pl_vsc line = 0 then
       if pl_gc_group line \<noteq> PBLK_LINEGC_FULL then (Some Gc_full_list, line\<lparr>pl_gc_group := PBLK_LINEGC_FULL\<rparr>) else (None, line)
     else if pl_vsc line < lm_mid_thrs lm then
       if pl_gc_group line \<noteq> PBLK_LINEGC_HIGH then (Some Gc_high_list, line\<lparr>pl_gc_group := PBLK_LINEGC_HIGH\<rparr>) else (None, line)
     else if pl_vsc line < lm_high_thrs lm then
       if pl_gc_group line \<noteq> PBLK_LINEGC_MID then (Some Gc_mid_list, line\<lparr>pl_gc_group := PBLK_LINEGC_MID\<rparr>) else (None, line)
     else if pl_vsc line < pl_sec_in_line line then
       if pl_gc_group line \<noteq> PBLK_LINEGC_LOW then (Some Gc_low_list, line\<lparr>pl_gc_group := PBLK_LINEGC_LOW\<rparr>) else (None, line)
     else if pl_vsc line = pl_sec_in_line line then
       if pl_gc_group line \<noteq> PBLK_LINEGC_EMPTY then (Some Gc_empty_list, line\<lparr>pl_gc_group := PBLK_LINEGC_EMPTY\<rparr>) else (None, line)
     else (Some Corrupt_list, line\<lparr>pl_state := PBLK_LINESTATE_CORRUPT, pl_gc_group := PBLK_LINEGC_NONE\<rparr>))"

text \<open>The second invalidation of a sector only warns.\<close>

definition pblk_page_invalidate :: "pblk \<Rightarrow> ppa_addr \<Rightarrow> pblk option" where
  "pblk_page_invalidate pb ppa = do {
     let i = unat (pblk_ppa_to_line ppa);
     line \<leftarrow> aget (pb_lines pb) i;
     if pl_state line = PBLK_LINESTATE_GC \<or> pl_state line = PBLK_LINESTATE_FREE then Some pb
     else do {
       let paddr = pblk_ppa_to_line_addr (pb_ppaf pb) ppa;
       if paddr \<in> pl_invalid_bitmap line then Some pb
       else do {
         let line = line\<lparr>pl_invalid_bitmap := insert paddr (pl_invalid_bitmap line), pl_vsc := pl_vsc line - 1\<rparr>;
         let (move_list, line) = (if pl_state line = PBLK_LINESTATE_CLOSED then pblk_line_gc_list (pb_lm pb) line else (None, line));
         let pb = put_line i line pb;
         Some (case move_list of None \<Rightarrow> pb | Some l \<Rightarrow> list_move_tail i l pb)
       }
     }
   }"

definition pblk_line_free :: "pblk_line \<Rightarrow> pblk_line" where
  "pblk_line_free line = line\<lparr>pl_invalid_bitmap := {}\<rparr>"

definition pblk_line_put :: "pblk \<Rightarrow> nat \<Rightarrow> pblk option" where
  "pblk_line_put pb i = do {
     line \<leftarrow> aget (pb_lines pb) i;
     guard (pl_state line = PBLK_LINESTATE_GC);
     let line = pblk_line_free (line\<lparr>pl_state := PBLK_LINESTATE_FREE, pl_gc_group := PBLK_LINEGC_NONE\<rparr>);
     let pb = list_add_tail i Free_list (put_line i line pb);
     let pb = pb\<lparr>pb_l_mg := (pb_l_mg pb)\<lparr>mg_nr_free_lines := mg_nr_free_lines (pb_l_mg pb) + 1\<rparr>\<rparr>;
     pblk_rl_free_lines_inc pb line
   }"

text \<open>\<open>kref_get\<close> and \<open>kref_put (\<dots>, pblk_line_put)\<close> on the reference count of a line.\<close>

definition line_kref_get :: "pblk \<Rightarrow> nat \<Rightarrow> pblk option" where
  "line_kref_get pb i = do {
     line \<leftarrow> aget (pb_lines pb) i;
     Some (put_line i (line\<lparr>pl_ref := pl_ref line + 1\<rparr>) pb)
   }"

definition line_kref_put :: "pblk \<Rightarrow> nat \<Rightarrow> pblk option" where
  "line_kref_put pb i = do {
     line \<leftarrow> aget (pb_lines pb) i;
     guard (0 < pl_ref line);
     let pb = put_line i (line\<lparr>pl_ref := pl_ref line - 1\<rparr>) pb;
     if pl_ref line = 1 then pblk_line_put pb i else Some pb
   }"

section \<open>The translation map\<close>

definition pblk_update_map_cache :: "pblk \<Rightarrow> u64 \<Rightarrow> ppa_addr \<Rightarrow> pblk option" where
  "pblk_update_map_cache pb lba ppa = do {
     guard (lba < rl_nr_secs (pb_rl pb));
     l2p_ppa \<leftarrow> aget (pb_trans_map pb) (unat lba);
     pb \<leftarrow> (if \<not> nvm_addr_in_cache l2p_ppa \<and> \<not> ppa_empty l2p_ppa then pblk_page_invalidate pb l2p_ppa else Some pb);
     Some (pb\<lparr>pb_trans_map := (pb_trans_map pb)[unat lba := ppa]\<rparr>)
   }"

text \<open>An address outside the device only warns here; the access to the map then fails.\<close>

definition pblk_update_map_gc :: "pblk \<Rightarrow> u64 \<Rightarrow> ppa_addr \<Rightarrow> pblk_line \<Rightarrow> pblk option" where
  "pblk_update_map_gc pb lba ppa gc_line = do {
     l2p_ppa \<leftarrow> aget (pb_trans_map pb) (unat lba);
     if nvm_addr_in_cache l2p_ppa \<or> ppa_empty l2p_ppa \<or> pblk_ppa_to_line l2p_ppa \<noteq> ucast (pl_id gc_line) then Some pb
     else Some (pb\<lparr>pb_trans_map := (pb_trans_map pb)[unat lba := ppa]\<rparr>)
   }"

definition pblk_update_map_dev :: "pblk \<Rightarrow> u64 \<Rightarrow> ppa_addr \<Rightarrow> ppa_addr \<Rightarrow> pblk option" where
  "pblk_update_map_dev pb lba ppa entry_line = do {
     guard (lba < rl_nr_secs (pb_rl pb));
     l2p_line \<leftarrow> aget (pb_trans_map pb) (unat lba);
     if l2p_line \<noteq> entry_line \<and> \<not> ppa_empty ppa then pblk_page_invalidate pb ppa
     else Some (pb\<lparr>pb_trans_map := (pb_trans_map pb)[unat lba := ppa]\<rparr>)
   }"

definition pblk_get_lba_map :: "pblk \<Rightarrow> u64 \<Rightarrow> ppa_addr option" where
  "pblk_get_lba_map pb lba = aget (pb_trans_map pb) (unat lba)"

fun pblk_lookup_l2p_seq :: "pblk \<Rightarrow> u64 \<Rightarrow> nat \<Rightarrow> ppa_addr list option" where
  "pblk_lookup_l2p_seq pb blba 0 = Some []"
| "pblk_lookup_l2p_seq pb blba (Suc n) = do {
     ppa \<leftarrow> aget (pb_trans_map pb) (unat blba);
     ppas \<leftarrow> pblk_lookup_l2p_seq pb (blba + 1) n;
     Some (ppa # ppas)
   }"

fun pblk_lookup_l2p_rand :: "pblk \<Rightarrow> u64 list \<Rightarrow> ppa_addr list option" where
  "pblk_lookup_l2p_rand pb [] = Some []"
| "pblk_lookup_l2p_rand pb (lba # lbas) = do {
     ppa \<leftarrow> (if lba = ADDR_EMPTY then Some ADDR_EMPTY
            else do { guard (lba < rl_nr_secs (pb_rl pb)); aget (pb_trans_map pb) (unat lba) });
     ppas \<leftarrow> pblk_lookup_l2p_rand pb lbas;
     Some (ppa # ppas)
   }"

fun invalidate_lbas :: "pblk \<Rightarrow> u64 \<Rightarrow> nat \<Rightarrow> pblk option" where
  "invalidate_lbas pb lba 0 = Some pb"
| "invalidate_lbas pb lba (Suc n) = do {
     ppa \<leftarrow> aget (pb_trans_map pb) (unat lba);
     pb \<leftarrow> (if \<not> nvm_addr_in_cache ppa \<and> \<not> ppa_empty ppa then pblk_page_invalidate pb ppa else Some pb);
     invalidate_lbas (pb\<lparr>pb_trans_map := (pb_trans_map pb)[unat lba := ADDR_EMPTY]\<rparr>) (lba + 1) n
   }"

definition pblk_invalidate_range :: "pblk \<Rightarrow> u64 \<Rightarrow> u32 \<Rightarrow> pblk option" where
  "pblk_invalidate_range pb slba nr_secs = invalidate_lbas pb slba (unat (slba + ucast nr_secs) - unat slba)"

text \<open>How many sectors the write thread takes at a time.\<close>

definition pblk_calc_secs :: "pblk \<Rightarrow> u64 \<Rightarrow> u64 \<Rightarrow> int option" where
  "pblk_calc_secs pb secs_avail secs_to_flush = (let mx = pb_max_write_pgs pb; mn = pb_min_write_pgs pb; min = (word_of_int mn :: u64) in
     if word_of_int mx \<le> secs_avail then Some mx
     else if min \<le> secs_avail then do { guard (min \<noteq> 0); Some (sint (ucast (min * (secs_avail div min)) :: u32)) }
     else if secs_to_flush \<noteq> 0 then Some mn
     else Some 0)"

section \<open>Laws\<close>

text \<open>
  Invalidation touches lines and lists only, and keeps every reference count. \<open>same_refs\<close> relates two
  states that differ in nothing else.
\<close>

definition same_refs :: "pblk \<Rightarrow> pblk \<Rightarrow> bool" where
  "same_refs pb pb' \<longleftrightarrow> pb' = pb\<lparr>pb_lines := pb_lines pb', pb_l_mg := pb_l_mg pb'\<rparr> \<and> map pl_ref (pb_lines pb') = map pl_ref (pb_lines pb)"

lemma same_refs_refl [simp]: "same_refs pb pb"
  by (simp add: same_refs_def)

lemma same_refs_put: "i < length (pb_lines pb) \<Longrightarrow> pl_ref line = pl_ref (pb_lines pb ! i) \<Longrightarrow> same_refs pb (put_line i line pb)"
  by (auto simp: same_refs_def put_line_def list_eq_iff_nth_eq nth_list_update)

lemma same_refs_move: "same_refs pb pb' \<Longrightarrow> same_refs pb (list_move_tail i l pb')"
  by (cases pb; cases pb') (auto simp: same_refs_def list_move_tail_def Let_def)

lemma gc_list_ref [simp]: "pl_ref (snd (pblk_line_gc_list lm line)) = pl_ref line"
  by (simp add: pblk_line_gc_list_def)

lemma page_invalidate_ok:
  assumes "unat (pblk_ppa_to_line ppa) < length (pb_lines pb)"
  shows "\<exists>pb'. pblk_page_invalidate pb ppa = Some pb' \<and> same_refs pb pb'"
proof -
  define line where "line = pb_lines pb ! unat (pblk_ppa_to_line ppa)"
  define line' where "line' = line\<lparr>pl_invalid_bitmap := insert (pblk_ppa_to_line_addr (pb_ppaf pb) ppa) (pl_invalid_bitmap line),
    pl_vsc := pl_vsc line - 1\<rparr>"
  obtain mv new where new: "(if pl_state line' = PBLK_LINESTATE_CLOSED then pblk_line_gc_list (pb_lm pb) line' else (None, line')) = (mv, new)"
    by fastforce
  have "pl_ref line' = pl_ref line"
    by (simp add: line'_def)
  then have "pl_ref new = pl_ref line"
    using new by (metis gc_list_ref snd_conv)
  then have s: "same_refs pb (put_line (unat (pblk_ppa_to_line ppa)) new pb)"
    using assms by (auto intro: same_refs_put simp: line_def)
  show ?thesis
    using assms s by (simp add: pblk_page_invalidate_def Let_def line_def [symmetric] line'_def [symmetric] new same_refs_move split: option.split)
qed

lemma same_refsD:
  assumes "same_refs pb pb'"
  shows "pb_rwb pb' = pb_rwb pb" "pb_rl pb' = pb_rl pb" "pb_trans_map pb' = pb_trans_map pb" "pb_compl_list pb' = pb_compl_list pb"
    "length (pb_lines pb') = length (pb_lines pb)" "pb_min_write_pgs pb' = pb_min_write_pgs pb" "pb_max_write_pgs pb' = pb_max_write_pgs pb"
    "\<And>i. i < length (pb_lines pb) \<Longrightarrow> pl_ref (pb_lines pb' ! i) = pl_ref (pb_lines pb ! i)"
proof -
  define ls where "ls = pb_lines pb'"
  define mg where "mg = pb_l_mg pb'"
  have l: "pb' = pb\<lparr>pb_lines := ls, pb_l_mg := mg\<rparr>" "map pl_ref ls = map pl_ref (pb_lines pb)"
    using assms by (simp_all add: same_refs_def ls_def mg_def)
  show "pb_rwb pb' = pb_rwb pb" "pb_rl pb' = pb_rl pb" "pb_trans_map pb' = pb_trans_map pb" "pb_compl_list pb' = pb_compl_list pb"
      "pb_min_write_pgs pb' = pb_min_write_pgs pb" "pb_max_write_pgs pb' = pb_max_write_pgs pb"
    by (simp_all add: l(1))
  show len: "length (pb_lines pb') = length (pb_lines pb)"
    using map_eq_imp_length_eq [OF l(2)] by (simp add: l(1))
  show "pl_ref (pb_lines pb' ! i) = pl_ref (pb_lines pb ! i)" if "i < length (pb_lines pb)" for i
    using that len arg_cong [OF l(2), of "\<lambda>xs. xs ! i"] by (simp add: l(1))
qed

text \<open>What the updates of the map do when the sector they replace lies on a line of the device.\<close>

definition dev_addr_ok :: "pblk \<Rightarrow> ppa_addr \<Rightarrow> bool" where
  "dev_addr_ok pb p \<longleftrightarrow> unat (pblk_ppa_to_line p) < length (pb_lines pb)"

lemma update_map_cache_ok:
  assumes "lba < rl_nr_secs (pb_rl pb)" "unat lba < length (pb_trans_map pb)"
    "\<not> nvm_addr_in_cache (pb_trans_map pb ! unat lba) \<Longrightarrow> \<not> ppa_empty (pb_trans_map pb ! unat lba) \<Longrightarrow> dev_addr_ok pb (pb_trans_map pb ! unat lba)"
  shows "\<exists>pb1. pblk_update_map_cache pb lba ppa = Some (pb1\<lparr>pb_trans_map := (pb_trans_map pb)[unat lba := ppa]\<rparr>) \<and> same_refs pb pb1"
proof (cases "\<not> nvm_addr_in_cache (pb_trans_map pb ! unat lba) \<and> \<not> ppa_empty (pb_trans_map pb ! unat lba)")
  case True
  then obtain pb1 where "pblk_page_invalidate pb (pb_trans_map pb ! unat lba) = Some pb1" "same_refs pb pb1"
    using assms(3) page_invalidate_ok unfolding dev_addr_ok_def by blast
  then show ?thesis
    using True assms(1,2) by (auto simp: pblk_update_map_cache_def guard_def same_refsD(3))
next
  case False
  then have "pblk_update_map_cache pb lba ppa = Some (pb\<lparr>pb_trans_map := (pb_trans_map pb)[unat lba := ppa]\<rparr>)"
    using assms(1,2) by (auto simp: pblk_update_map_cache_def guard_def)
  then show ?thesis
    using same_refs_refl by blast
qed

lemma update_map_dev_ok:
  assumes "lba < rl_nr_secs (pb_rl pb)" "unat lba < length (pb_trans_map pb)" "dev_addr_ok pb ppa" "\<not> ppa_empty ppa"
  shows "\<exists>pb1. pblk_update_map_dev pb lba ppa cl = Some (pb1\<lparr>pb_trans_map :=
      (if pb_trans_map pb ! unat lba = cl then (pb_trans_map pb)[unat lba := ppa] else pb_trans_map pb)\<rparr>) \<and> same_refs pb pb1"
proof (cases "pb_trans_map pb ! unat lba = cl")
  case True
  then have "pblk_update_map_dev pb lba ppa cl = Some (pb\<lparr>pb_trans_map := (pb_trans_map pb)[unat lba := ppa]\<rparr>)"
    using assms(1,2) by (simp add: pblk_update_map_dev_def guard_def)
  with True show ?thesis
    by (intro exI [of _ pb]) simp
next
  case False
  obtain pb1 where pb1: "pblk_page_invalidate pb ppa = Some pb1" "same_refs pb pb1"
    using assms(3) page_invalidate_ok unfolding dev_addr_ok_def by blast
  moreover have "pb1\<lparr>pb_trans_map := pb_trans_map pb\<rparr> = pb1"
    using same_refsD(3) [OF pb1(2)] by simp
  ultimately show ?thesis
    using False assms by (intro exI [of _ pb1]) (simp add: pblk_update_map_dev_def guard_def)
qed

lemma kref_put_ok:
  assumes "i < length (pb_lines pb)" "1 < pl_ref (pb_lines pb ! i)"
  shows "line_kref_put pb i = Some (put_line i ((pb_lines pb ! i)\<lparr>pl_ref := pl_ref (pb_lines pb ! i) - 1\<rparr>) pb)"
  using assms by (simp add: line_kref_put_def guard_def)

end
