(* ===== verification/Pblk_Rb.thy ===== *)
theory Pblk_Rb
  imports Pblk_Core
begin

text \<open>
  The ring buffer of \<open>pblk-rb.c\<close>. Four indices chase each other around it: \<open>mem\<close>, where requests
  reserve entries, \<open>subm\<close>, up to where the write thread has taken them, \<open>sync\<close>, up to where they are on
  the device, and \<open>l2p_update\<close>, up to where the map points to the device. The flags of an entry tell who
  may touch it.
\<close>

section \<open>Set-up and tear-down\<close>

definition pblk_rb_data_free :: "pblk_rb \<Rightarrow> pblk_rb" where
  "pblk_rb_data_free rb = rb\<lparr>rb_pages := []\<rparr>"

text \<open>The first entry of a set of pages keeps the list of requests it was allocated with.\<close>

fun rb_init_set :: "pblk_rb_entry list \<Rightarrow> nat \<Rightarrow> bool \<Rightarrow> nat \<Rightarrow> pblk_rb_entry list option" where
  "rb_init_set entries init_entry first 0 = Some entries"
| "rb_init_set entries init_entry first (Suc n) = do {
     entries \<leftarrow> amod entries init_entry (\<lambda>e. e\<lparr>re_cacheline := pblk_cacheline_to_ppa (of_nat init_entry),
       re_w_ctx := (re_w_ctx e)\<lparr>wx_flags := PBLK_WRITABLE_ENTRY, wx_bios := (if first then wx_bios (re_w_ctx e) else [])\<rparr>\<rparr>);
     rb_init_set entries (init_entry + 1) False n
   }"

text \<open>
  The outcomes of the allocations of a round are the two functions. A failed \<open>alloc_pages\<close> calls
  \<^term>\<open>pblk_rb_data_free\<close>, which waits for the lock its caller holds.
\<close>

fun rb_init_sets :: "(nat \<Rightarrow> bool) \<Rightarrow> (nat \<Rightarrow> bool) \<Rightarrow> nat \<Rightarrow> pblk_rb \<Rightarrow> nat \<Rightarrow> nat \<Rightarrow> (int \<times> pblk_rb) option" where
  "rb_init_sets kmalloc_ok pages_ok order rb init_entry 0 = Some (0, rb)"
| "rb_init_sets kmalloc_ok pages_ok order rb init_entry (Suc iter) =
     (if \<not> kmalloc_ok iter then Some (- 12, rb)
      else if \<not> pages_ok iter then None
      else do {
        entries \<leftarrow> rb_init_set (rb_entries rb) init_entry True (2 ^ order);
        rb_init_sets kmalloc_ok pages_ok order (rb\<lparr>rb_entries := entries, rb_pages := rb_pages rb @ [order]\<rparr>) (init_entry + 2 ^ order) iter
      })"

definition pblk_rb_init :: "(nat \<Rightarrow> bool) \<Rightarrow> (nat \<Rightarrow> bool) \<Rightarrow> nat \<Rightarrow> pblk \<Rightarrow> pblk_rb_entry list \<Rightarrow> nat \<Rightarrow> nat \<Rightarrow> (int \<times> pblk) option" where
  "pblk_rb_init kmalloc_ok pages_ok max_order pb rb_entry_base power_size power_seg_sz = do {
     guard (power_size < 31 \<and> power_seg_sz < 31);
     let rb = (pb_rwb pb)\<lparr>rb_entries := rb_entry_base, rb_seg_size := 2 ^ power_seg_sz, rb_nr_entries := 2 ^ power_size,
       rb_mem := 0, rb_subm := 0, rb_sync := 0, rb_l2p_update := 0, rb_sync_point := EMPTY_ENTRY, rb_pages := []\<rparr>;
     let order = min max_order power_size;
     let iter = (if power_size \<ge> max_order then 2 ^ (power_size - max_order) else 1);
     (ret, rb) \<leftarrow> rb_init_sets kmalloc_ok pages_ok order rb 0 iter;
     let pb = pb\<lparr>pb_rwb := rb\<rparr>;
     if ret \<noteq> 0 then Some (ret, pb)
     else Some (0, pb\<lparr>pb_rl := pblk_rl_init (pb_rl pb) (uint (rb_nr_entries rb))\<rparr>)
   }"

definition pblk_rb_calculate_size :: "nat \<Rightarrow> u32 option" where
  "pblk_rb_calculate_size nr_entries = do {
     let p = nat (max (get_count_order nr_entries) 7);
     guard (p < 31);
     Some (2 ^ p)
   }"

definition zero_entry :: pblk_rb_entry where
  "zero_entry = \<lparr>re_cacheline = 0, re_data = replicate 4096 0, re_w_ctx = \<lparr>wx_bios = [], wx_lba = 0, wx_paddr = 0, wx_ppa = 0, wx_flags = 0\<rparr>\<rparr>"

text \<open>\<open>pblk_rwb_init\<close> of \<open>pblk-init.c\<close>; the first flag is the outcome of \<open>vzalloc\<close>.\<close>

definition pblk_rwb_init :: "bool \<Rightarrow> (nat \<Rightarrow> bool) \<Rightarrow> (nat \<Rightarrow> bool) \<Rightarrow> nat \<Rightarrow> pblk \<Rightarrow> nat \<Rightarrow> nat \<Rightarrow> (int \<times> pblk) option" where
  "pblk_rwb_init vzalloc_ok kmalloc_ok pages_ok max_order pb pgs_in_buffer sec_size = do {
     nr_entries \<leftarrow> pblk_rb_calculate_size pgs_in_buffer;
     if \<not> vzalloc_ok then Some (- 12, pb)
     else pblk_rb_init kmalloc_ok pages_ok max_order pb (replicate (unat nr_entries) zero_entry)
            (nat (get_count_order (unat nr_entries))) (nat (get_count_order sec_size))
   }"

definition pblk_rwb_free :: "pblk \<Rightarrow> pblk" where
  "pblk_rwb_free pb = pb\<lparr>pb_rwb := (pblk_rb_data_free (pb_rwb pb))\<lparr>rb_entries := []\<rparr>, pb_rl := pblk_rl_free (pb_rl pb)\<rparr>"

text \<open>With no entries the last loop reads through a null pointer.\<close>

definition pblk_rb_tear_down_check :: "pblk_rb \<Rightarrow> bool option" where
  "pblk_rb_tear_down_check rb =
     (if rb_mem rb = rb_subm rb \<and> rb_subm rb = rb_sync rb \<and> rb_sync rb = rb_l2p_update rb \<and> rb_sync_point rb = EMPTY_ENTRY
      then Some False
      else if rb_entries rb \<noteq> [] then Some False
      else do { guard (rb_nr_entries rb = 0); Some True })"

section \<open>Counting\<close>

text \<open>\<open>CIRC_CNT\<close> and \<open>CIRC_SPACE\<close> of the kernel.\<close>

definition CIRC_CNT :: "u32 \<Rightarrow> u32 \<Rightarrow> u32 \<Rightarrow> u32" where
  "CIRC_CNT head tail sz = (head - tail) AND (sz - 1)"

definition CIRC_SPACE :: "u32 \<Rightarrow> u32 \<Rightarrow> u32 \<Rightarrow> u32" where
  "CIRC_SPACE head tail sz = CIRC_CNT tail (head + 1) sz"

definition pblk_rb_space :: "pblk_rb \<Rightarrow> u32" where
  "pblk_rb_space rb = CIRC_SPACE (rb_mem rb) (rb_sync rb) (rb_nr_entries rb)"

definition pblk_rb_read_count :: "pblk_rb \<Rightarrow> u32" where
  "pblk_rb_read_count rb = CIRC_CNT (rb_mem rb) (rb_subm rb) (rb_nr_entries rb)"

definition pblk_rb_wrap_pos :: "pblk_rb \<Rightarrow> u32 \<Rightarrow> u32" where
  "pblk_rb_wrap_pos rb pos = pos AND (rb_nr_entries rb - 1)"

definition pblk_rb_pos_oob :: "pblk_rb \<Rightarrow> u64 \<Rightarrow> bool" where
  "pblk_rb_pos_oob rb pos \<longleftrightarrow> pos \<ge> ucast (rb_nr_entries rb)"

definition pblk_rb_read_commit :: "pblk_rb \<Rightarrow> u32 \<Rightarrow> u32 \<times> pblk_rb" where
  "pblk_rb_read_commit rb nr_entries = (rb_subm rb, rb\<lparr>rb_subm := (rb_subm rb + nr_entries) AND (rb_nr_entries rb - 1)\<rparr>)"

definition pblk_rb_sync_point_count :: "pblk_rb \<Rightarrow> u32" where
  "pblk_rb_sync_point_count rb = (if rb_sync_point rb = EMPTY_ENTRY then 0
     else CIRC_CNT (rb_sync_point rb) (rb_subm rb) (rb_nr_entries rb) + 1)"

section \<open>Retiring entries\<close>

text \<open>The context must have been submitted: the loop of the code waits for it.\<close>

definition clean_wctx :: "pblk_w_ctx \<Rightarrow> pblk_w_ctx option" where
  "clean_wctx w = do {
     guard (wx_flags w AND PBLK_SUBMITTED_ENTRY \<noteq> 0);
     Some (w\<lparr>wx_flags := PBLK_WRITABLE_ENTRY, wx_ppa := ADDR_EMPTY\<rparr>)
   }"

text \<open>One turn of the loop of \<open>__pblk_rb_update_l2p\<close>, and the loop.\<close>

definition rb_update_l2p_entry :: "pblk \<Rightarrow> pblk option" where
  "rb_update_l2p_entry pb = do {
     let i = unat (rb_l2p_update (pb_rwb pb));
     entry \<leftarrow> aget (rb_entries (pb_rwb pb)) i;
     let w_ctx = re_w_ctx entry;
     pb \<leftarrow> pblk_update_map_dev pb (wx_lba w_ctx) (wx_ppa w_ctx) (re_cacheline entry);
     pb \<leftarrow> line_kref_put pb (unat (pblk_ppa_to_line (wx_ppa w_ctx)));
     w_ctx \<leftarrow> clean_wctx w_ctx;
     let rb = pb_rwb pb;
     Some (pb\<lparr>pb_rwb := rb\<lparr>rb_entries := (rb_entries rb)[i := entry\<lparr>re_w_ctx := w_ctx\<rparr>],
       rb_l2p_update := (rb_l2p_update rb + 1) AND (rb_nr_entries rb - 1)\<rparr>\<rparr>)
   }"

fun pblk_rb_update_l2p_n :: "pblk \<Rightarrow> nat \<Rightarrow> pblk option" where
  "pblk_rb_update_l2p_n pb 0 = Some pb"
| "pblk_rb_update_l2p_n pb (Suc to_update) = do { pb \<leftarrow> rb_update_l2p_entry pb; pblk_rb_update_l2p_n pb to_update }"

definition pblk_rb_update_l2p :: "pblk \<Rightarrow> u32 \<Rightarrow> u32 \<Rightarrow> pblk option" where
  "pblk_rb_update_l2p pb nr_entries mem = (let
     space = CIRC_SPACE mem (rb_l2p_update (pb_rwb pb)) (rb_nr_entries (pb_rwb pb)) in
     if space > nr_entries then Some pb else pblk_rb_update_l2p_n pb (unat (nr_entries - space)))"

definition pblk_rb_sync_l2p :: "pblk \<Rightarrow> pblk option" where
  "pblk_rb_sync_l2p pb = (let rb = pb_rwb pb in
     pblk_rb_update_l2p_n pb (unat (CIRC_CNT (rb_sync rb) (rb_l2p_update rb) (rb_nr_entries rb))))"

section \<open>Inserting\<close>

definition pblk_rb_write_entry :: "pblk_rb \<Rightarrow> page \<Rightarrow> pblk_w_ctx \<Rightarrow> u32 \<Rightarrow> (ppa_addr \<times> pblk_rb) option" where
  "pblk_rb_write_entry rb data w_ctx ring_pos = do {
     entry \<leftarrow> aget (rb_entries rb) (unat ring_pos);
     guard (wx_flags (re_w_ctx entry) AND PBLK_WRITABLE_ENTRY \<noteq> 0);
     let w = (re_w_ctx entry)\<lparr>wx_lba := wx_lba w_ctx, wx_ppa := wx_ppa w_ctx, wx_paddr := wx_paddr w_ctx,
       wx_flags := wx_flags w_ctx OR PBLK_WRITTEN_DATA\<rparr>;
     Some (re_cacheline entry, rb\<lparr>rb_entries := (rb_entries rb)[unat ring_pos := entry\<lparr>re_data := data, re_w_ctx := w\<rparr>]\<rparr>)
   }"

definition pblk_rb_sync_point_set :: "pblk_rb \<Rightarrow> nat \<Rightarrow> u32 \<Rightarrow> (bool \<times> pblk_rb) option" where
  "pblk_rb_sync_point_set rb bio pos =
     (if pos = rb_subm rb then Some (False, rb)
      else do {
        let sync_point = (if pos = 0 then rb_nr_entries rb - 1 else pos - 1);
        entries \<leftarrow> amod (rb_entries rb) (unat sync_point) (\<lambda>e. e\<lparr>re_w_ctx := (re_w_ctx e)\<lparr>
          wx_flags := wx_flags (re_w_ctx e) OR PBLK_FLUSH_ENTRY, wx_bios := wx_bios (re_w_ctx e) @ [bio]\<rparr>\<rparr>);
        Some (True, rb\<lparr>rb_entries := entries, rb_sync_point := sync_point\<rparr>)
      })"

text \<open>\<open>__pblk_rb_may_write\<close>: the position, when there is room.\<close>

definition pblk_rb_may_write_pos :: "pblk \<Rightarrow> u32 \<Rightarrow> (u32 option \<times> pblk) option" where
  "pblk_rb_may_write_pos pb nr_entries = (let rb = pb_rwb pb in
     if CIRC_SPACE (rb_mem rb) (rb_sync rb) (rb_nr_entries rb) < nr_entries then Some (None, pb)
     else do {
       pb \<leftarrow> pblk_rb_update_l2p pb nr_entries (rb_mem rb);
       Some (Some (rb_mem rb), pb)
     })"

definition rb_set_mem :: "u32 \<Rightarrow> pblk \<Rightarrow> pblk" where
  "rb_set_mem mem pb = pb\<lparr>pb_rwb := (pb_rwb pb)\<lparr>rb_mem := mem\<rparr>\<rparr>"

definition pblk_rb_may_write :: "pblk \<Rightarrow> u32 \<Rightarrow> (u32 option \<times> pblk) option" where
  "pblk_rb_may_write pb nr_entries = do {
     (pos, pb) \<leftarrow> pblk_rb_may_write_pos pb nr_entries;
     case pos of
       None \<Rightarrow> Some (None, pb)
     | Some p \<Rightarrow> Some (Some p, rb_set_mem ((p + nr_entries) AND (rb_nr_entries (pb_rwb pb) - 1)) pb)
   }"

datatype nvm_io = NVM_IO_OK | NVM_IO_REQUEUE | NVM_IO_DONE | NVM_IO_ERR

definition pblk_rb_may_write_flush :: "pblk \<Rightarrow> u32 \<Rightarrow> nat \<Rightarrow> bool \<Rightarrow> ((u32 \<times> nvm_io) option \<times> pblk) option" where
  "pblk_rb_may_write_flush pb nr_entries bio preflush = do {
     (pos, pb) \<leftarrow> pblk_rb_may_write_pos pb nr_entries;
     case pos of
       None \<Rightarrow> Some (None, pb)
     | Some p \<Rightarrow> do {
         let mem = (p + nr_entries) AND (rb_nr_entries (pb_rwb pb) - 1);
         (queued, rb) \<leftarrow> (if preflush then pblk_rb_sync_point_set (pb_rwb pb) bio mem else Some (False, pb_rwb pb));
         Some (Some (p, if queued then NVM_IO_OK else NVM_IO_DONE), rb_set_mem mem (pb\<lparr>pb_rwb := rb\<rparr>))
       }
   }"

definition pblk_rb_may_write_user :: "pblk \<Rightarrow> nat \<Rightarrow> bool \<Rightarrow> u32 \<Rightarrow> ((nvm_io \<times> u32) \<times> pblk) option" where
  "pblk_rb_may_write_user pb bio preflush nr_entries =
     (if \<not> pblk_rl_user_may_insert (pb_rl pb) (sint nr_entries) then Some ((NVM_IO_REQUEUE, 0), pb)
      else do {
        (res, pb) \<leftarrow> pblk_rb_may_write_flush pb nr_entries bio preflush;
        case res of
          None \<Rightarrow> Some ((NVM_IO_REQUEUE, 0), pb)
        | Some (pos, flush_done) \<Rightarrow> Some ((flush_done, pos), pb\<lparr>pb_rl := pblk_rl_user_in (pb_rl pb) (sint nr_entries)\<rparr>)
      })"

definition pblk_rb_may_write_gc :: "pblk \<Rightarrow> u32 \<Rightarrow> (u32 option \<times> pblk) option" where
  "pblk_rb_may_write_gc pb nr_entries =
     (if \<not> pblk_rl_gc_may_insert (pb_rl pb) (sint nr_entries) then Some (None, pb)
      else do {
        (res, pb) \<leftarrow> pblk_rb_may_write pb nr_entries;
        case res of
          None \<Rightarrow> Some (None, pb)
        | Some pos \<Rightarrow> Some (Some pos, pb\<lparr>pb_rl := pblk_rl_gc_in (pb_rl pb) (sint nr_entries)\<rparr>)
      })"

section \<open>Taking entries to the device\<close>

text \<open>
  One turn of the loop of \<open>pblk_rb_read_to_bio\<close>, for an entry whose data has been copied: the page that
  joins the request, and whether it is the user's or the garbage collector's. An entry that is neither
  only warns. The flag tells whether \<open>bio_add_page\<close> took the page.
\<close>

definition rb_read_entry :: "pblk_rb \<Rightarrow> u32 \<Rightarrow> bool \<Rightarrow> ((int \<times> int) \<times> pblk_rb) option" where
  "rb_read_entry rb pos added = do {
     entry \<leftarrow> aget (rb_entries rb) (unat pos);
     let flags = wx_flags (re_w_ctx entry);
     guard (flags AND PBLK_WRITTEN_DATA \<noteq> 0);
     let io = (if flags AND PBLK_IOTYPE_USER \<noteq> 0 then (1, 0) else if flags AND PBLK_IOTYPE_GC \<noteq> 0 then (0, 1) else (0, 0));
     let flush = (added \<and> flags AND PBLK_FLUSH_ENTRY \<noteq> 0);
     let sync_point = (if flush \<and> rb_sync_point rb = pos then EMPTY_ENTRY else rb_sync_point rb);
     let flags = (if flush then flags AND NOT PBLK_FLUSH_ENTRY else flags);
     let flags = flags AND NOT PBLK_WRITTEN_DATA OR PBLK_SUBMITTED_ENTRY;
     let entry = entry\<lparr>re_w_ctx := (re_w_ctx entry)\<lparr>wx_flags := flags\<rparr>\<rparr>;
     Some (io, rb\<lparr>rb_entries := (rb_entries rb)[unat pos := entry], rb_sync_point := sync_point\<rparr>)
   }"

text \<open>The loop; the second result tells whether every page was taken.\<close>

fun rb_read_entries :: "(nat \<Rightarrow> bool) \<Rightarrow> pblk_rb \<Rightarrow> u32 \<Rightarrow> int \<times> int \<Rightarrow> nat \<Rightarrow> ((int \<times> int) \<times> bool \<times> pblk_rb) option" where
  "rb_read_entries added rb pos io 0 = Some (io, True, rb)"
| "rb_read_entries added rb pos io (Suc n) = do {
     (d, rb) \<leftarrow> rb_read_entry rb pos (added n);
     let io = (fst io + fst d, snd io + snd d);
     if \<not> added n then Some (io, False, rb)
     else rb_read_entries added rb ((pos + 1) AND (rb_nr_entries rb - 1)) io n
   }"

definition rb_read_ctx :: "u32 \<Rightarrow> u32 \<Rightarrow> u32 \<Rightarrow> pblk_c_ctx" where
  "rb_read_ctx pos nr_entries count = (let (to_read, pad) = (if count < nr_entries then (count, nr_entries - count) else (nr_entries, 0)) in
     \<lparr>cc_sentry = pos, cc_nr_valid = to_read, cc_nr_padded = pad, cc_ppa_list = []\<rparr>)"

definition pblk_rb_read_to_bio :: "(nat \<Rightarrow> bool) \<Rightarrow> pblk \<Rightarrow> u32 \<Rightarrow> u32 \<Rightarrow> u32 \<Rightarrow> (u32 \<times> pblk_c_ctx \<times> pblk) option" where
  "pblk_rb_read_to_bio added pb pos nr_entries count = do {
     let c_ctx = rb_read_ctx pos nr_entries count;
     (io, all, rb) \<leftarrow> rb_read_entries added (pb_rwb pb) pos (0, 0) (unat (cc_nr_valid c_ctx));
     let pb = pb\<lparr>pb_rwb := rb\<rparr>;
     if \<not> all then Some (0, c_ctx, pb)
     else Some (cc_nr_valid c_ctx, c_ctx, pb\<lparr>pb_rl := snd (pblk_rl_out (pb_rl pb) (fst io) (snd io))\<rparr>)
   }"

text \<open>Pages of failed entries join a request of their own, at most one more than the bound.\<close>

fun pblk_rb_read_to_bio_list :: "(nat \<Rightarrow> bool) \<Rightarrow> nat list \<Rightarrow> nat \<Rightarrow> nat \<Rightarrow> nat" where
  "pblk_rb_read_to_bio_list added [] mx read = read"
| "pblk_rb_read_to_bio_list added (e # es) mx read =
     (if read > mx \<or> \<not> added e then read else pblk_rb_read_to_bio_list added es mx (read + 1))"

text \<open>A copy to a read request, unless the entry holds another sector by now or may be overwritten.\<close>

definition pblk_rb_copy_to_bio :: "pblk_rb \<Rightarrow> u64 \<Rightarrow> u64 \<Rightarrow> page option option" where
  "pblk_rb_copy_to_bio rb lba pos = do {
     entry \<leftarrow> aget (rb_entries rb) (unat pos);
     if wx_lba (re_w_ctx entry) \<noteq> lba \<or> wx_flags (re_w_ctx entry) AND PBLK_WRITABLE_ENTRY \<noteq> 0 then Some None
     else Some (Some (re_data entry))
   }"

section \<open>Completing\<close>

definition pblk_rb_w_ctx :: "pblk_rb \<Rightarrow> u32 \<Rightarrow> nat" where
  "pblk_rb_w_ctx rb pos = unat (pos AND (rb_nr_entries rb - 1))"

fun rb_sync_walk :: "pblk_rb \<Rightarrow> u32 \<Rightarrow> nat \<Rightarrow> u32" where
  "rb_sync_walk rb sync 0 = sync"
| "rb_sync_walk rb sync (Suc n) = rb_sync_walk rb ((sync + 1) AND (rb_nr_entries rb - 1)) n"

definition pblk_rb_sync_advance :: "pblk_rb \<Rightarrow> u32 \<Rightarrow> u32 \<times> pblk_rb" where
  "pblk_rb_sync_advance rb nr_entries = (let sync = rb_sync_walk rb (rb_sync rb) (unat nr_entries) in (sync, rb\<lparr>rb_sync := sync\<rparr>))"

text \<open>The scan walks to the submission pointer and finds nothing.\<close>

definition pblk_rb_sync_scan_entry :: "pblk_rb \<Rightarrow> ppa_addr \<Rightarrow> nat option" where
  "pblk_rb_sync_scan_entry rb ppa = (let
     sync = rb_sync_walk rb (rb_sync rb) (unat (CIRC_CNT (rb_subm rb) (rb_sync rb) (rb_nr_entries rb))) in None)"

end
