(* ===== verification/Pblk_Ring.thy ===== *)
theory Pblk_Ring
  imports Pblk_Rb
begin

text \<open>
  The positions of the ring buffer counted without wrapping. The ring has \<open>2 ^ k\<close> entries and a position
  \<open>a\<close> of the unbounded count is the index \<open>ring k a\<close>.
\<close>

definition ring :: "nat \<Rightarrow> nat \<Rightarrow> u32" where
  "ring k a = take_bit k (of_nat a)"

lemma unat_ring: "k < 32 \<Longrightarrow> unat (ring k a) = a mod 2 ^ k"
proof -
  assume "k < 32"
  then have "(2 :: nat) ^ k dvd 2 ^ 32"
    by (intro le_imp_power_dvd) simp
  moreover have "unat (ring k a) = take_bit k (unat (of_nat a :: u32))"
    unfolding ring_def by (rule unsigned_take_bit_eq)
  ultimately show ?thesis
    by (simp only: unat_of_nat take_bit_eq_mod mod_mod_cancel len_num1 len_bit0 mult_numeral_1_right) (simp add: mod_mod_cancel)
qed

lemma small_nat: "k < 32 \<Longrightarrow> c \<le> 2 ^ k \<Longrightarrow> unat (of_nat c :: u32) = c"
proof -
  assume "k < 32" "c \<le> 2 ^ k"
  moreover have "(2 :: nat) ^ k \<le> 2 ^ 31"
    using \<open>k < 32\<close> by (intro power_increasing) auto
  ultimately show ?thesis
    by (simp add: unat_of_nat)
qed

lemma and_ring: "k < 32 \<Longrightarrow> w AND (2 ^ k - 1) = take_bit k w" for w :: u32
  by (simp add: take_bit_eq_mask mask_eq_exp_minus_1)

lemma word_take_bit_ariths:
  fixes a b :: u32
  assumes "k < 32"
  shows "take_bit k (take_bit k a + take_bit k b) = take_bit k (a + b)" "take_bit k (take_bit k a - take_bit k b) = take_bit k (a - b)"
  using assms by (transfer, simp add: min_absorb1 min_absorb2 take_bit_add take_bit_diff)+

lemma ring_add: "k < 32 \<Longrightarrow> (ring k a + of_nat c) AND (2 ^ k - 1) = ring k (a + c)"
proof -
  assume k: "k < 32"
  have "take_bit k (take_bit k (of_nat a) + of_nat c) = take_bit k (take_bit k (take_bit k (of_nat a)) + take_bit k (of_nat c :: u32))"
    by (rule word_take_bit_ariths(1) [OF k, symmetric])
  also have "\<dots> = take_bit k (of_nat a + of_nat c)"
    by (simp only: take_bit_take_bit min.idem word_take_bit_ariths(1) [OF k])
  finally show ?thesis
    by (simp only: and_ring [OF k] ring_def of_nat_add)
qed

lemma ring_suc: "k < 32 \<Longrightarrow> (ring k a + 1) AND (2 ^ k - 1) = ring k (Suc a)"
  using ring_add [of k a 1] by simp

lemma ring_period: "k < 32 \<Longrightarrow> ring k (a + 2 ^ k) = ring k a"
  by (simp add: word_unat_eq_iff unat_ring)

lemma ring_cnt:
  assumes "k < 32" "b \<le> a" "a < b + 2 ^ k"
  shows "CIRC_CNT (ring k a) (ring k b) (2 ^ k) = of_nat (a - b)"
proof -
  have "take_bit k (take_bit k (of_nat a) - take_bit k (of_nat b)) = take_bit k (of_nat a - of_nat b :: u32)"
    by (rule word_take_bit_ariths(2) [OF assms(1)])
  also have "of_nat a - of_nat b = (of_nat (a - b) :: u32)"
    using assms(2) by (simp add: of_nat_diff)
  also have "take_bit k (of_nat (a - b)) = (of_nat (a - b) :: u32)"
  proof -
    have "ring k (a - b) = of_nat (a - b)"
    proof -
      have "unat (ring k (a - b)) = a - b"
        using assms unat_ring [OF assms(1), of "a - b"] by simp
      then show ?thesis
        using small_nat [OF assms(1), of "a - b"] assms by (simp add: word_unat_eq_iff)
    qed
    then show ?thesis
      by (simp add: ring_def)
  qed
  finally show ?thesis
    using assms(1) by (simp add: CIRC_CNT_def and_ring ring_def)
qed

lemma ring_space:
  assumes "k < 32" "l \<le> m" "m < l + 2 ^ k"
  shows "CIRC_SPACE (ring k m) (ring k l) (2 ^ k) = of_nat (l + 2 ^ k - Suc m)"
proof -
  have "CIRC_CNT (ring k l) (ring k m + 1) (2 ^ k) = CIRC_CNT (ring k (l + 2 ^ k)) (ring k (Suc m)) (2 ^ k)"
  proof -
    have "take_bit k (ring k l - (ring k m + 1)) = take_bit k (ring k l - take_bit k (ring k m + 1))"
    proof -
      have "take_bit k (ring k l - (ring k m + 1)) = take_bit k (take_bit k (ring k l) - take_bit k (ring k m + 1))"
        by (rule word_take_bit_ariths(2) [OF assms(1), symmetric])
      then show ?thesis
        by (simp only: ring_def take_bit_take_bit min.idem)
    qed
    then show ?thesis
      using assms(1) ring_suc [OF assms(1), of m] by (simp add: CIRC_CNT_def and_ring ring_period)
  qed
  also have "\<dots> = of_nat (l + 2 ^ k - Suc m)"
    using assms by (intro ring_cnt) auto
  finally show ?thesis
    by (simp add: CIRC_SPACE_def)
qed

lemma ring_inj: "k < 32 \<Longrightarrow> ring k a = ring k b \<Longrightarrow> a \<le> b \<Longrightarrow> b < a + 2 ^ k \<Longrightarrow> a = b"
proof -
  assume k: "k < 32" and eq: "ring k a = ring k b" and ab: "a \<le> b" "b < a + 2 ^ k"
  have "a mod 2 ^ k = b mod 2 ^ k"
    using unat_ring [OF k, of a] unat_ring [OF k, of b] eq by simp
  then have "2 ^ k dvd b - a"
    using ab(1) by (metis mod_eq_dvd_iff_nat)
  moreover have "b - a < 2 ^ k"
    using ab by simp
  ultimately have "b - a = 0"
    by (meson dvd_imp_le linorder_not_less not_gr_zero)
  with ab show ?thesis
    by simp
qed

end
