(* ===== verification/Pblk_Cache.thy ===== *)
theory Pblk_Cache
  imports Pblk_Ring
begin

text \<open>
  The users of the ring buffer: requests that copy their sectors into it (\<open>pblk-cache.c\<close>), the write
  thread that takes sectors out, the mapping of sectors (\<open>pblk-map.c\<close>) and the completion of writes
  (\<open>pblk-write.c\<close>), and the lookup of a read (\<open>pblk-read.c\<close>).
\<close>

section \<open>Into the buffer\<close>

definition user_w_ctx :: "u32 \<Rightarrow> u64 \<Rightarrow> pblk_w_ctx" where
  "user_w_ctx flags lba = \<lparr>wx_bios = [], wx_lba = lba, wx_paddr = 0, wx_ppa = ADDR_EMPTY, wx_flags = flags\<rparr>"

text \<open>The copy of sector \<open>i\<close> of a request into its entry; the map is updated next.\<close>

definition cache_copy :: "pblk \<Rightarrow> u32 \<Rightarrow> u32 \<Rightarrow> u64 \<Rightarrow> nat \<Rightarrow> page \<Rightarrow> (ppa_addr \<times> pblk) option" where
  "cache_copy pb flags bpos lba i data = do {
     let pos = pblk_rb_wrap_pos (pb_rwb pb) (bpos + of_nat i);
     (ppa, rb) \<leftarrow> pblk_rb_write_entry (pb_rwb pb) data (user_w_ctx flags lba) pos;
     Some (ppa, pb\<lparr>pb_rwb := rb\<rparr>)
   }"

fun write_sectors :: "pblk \<Rightarrow> u32 \<Rightarrow> u32 \<Rightarrow> u64 \<Rightarrow> nat \<Rightarrow> page list \<Rightarrow> pblk option" where
  "write_sectors pb flags bpos lba i [] = Some pb"
| "write_sectors pb flags bpos lba i (data # rest) = do {
     (ppa, pb) \<leftarrow> cache_copy pb flags bpos (lba + of_nat i) i data;
     pb \<leftarrow> pblk_update_map_cache pb (lba + of_nat i) ppa;
     write_sectors pb flags bpos lba (Suc i) rest
   }"

text \<open>One attempt; the code tries again after \<^term>\<open>NVM_IO_REQUEUE\<close>.\<close>

definition pblk_write_to_cache :: "pblk \<Rightarrow> nat \<Rightarrow> bool \<Rightarrow> u64 \<Rightarrow> page list \<Rightarrow> u32 \<Rightarrow> (nvm_io \<times> pblk) option" where
  "pblk_write_to_cache pb bio preflush lba data flags = do {
     ((ret, bpos), pb) \<leftarrow> pblk_rb_may_write_user pb bio preflush (of_nat (length data));
     if ret = NVM_IO_REQUEUE then Some (ret, pb)
     else do { pb \<leftarrow> write_sectors pb flags bpos lba 0 data; Some (ret, pb) }
   }"

fun write_gc_sectors :: "pblk \<Rightarrow> u32 \<Rightarrow> u32 \<Rightarrow> pblk_line \<Rightarrow> nat \<Rightarrow> u64 list \<Rightarrow> page list \<Rightarrow> pblk option" where
  "write_gc_sectors pb flags bpos gc_line valid_entries [] data = Some pb"
| "write_gc_sectors pb flags bpos gc_line valid_entries (lba # lbas) data =
     (if lba = ADDR_EMPTY then write_gc_sectors pb flags bpos gc_line valid_entries lbas data
      else case data of
        [] \<Rightarrow> None
      | d # rest \<Rightarrow> do {
          (ppa, pb) \<leftarrow> cache_copy pb flags bpos lba valid_entries d;
          pb \<leftarrow> pblk_update_map_gc pb lba ppa gc_line;
          write_gc_sectors pb flags bpos gc_line (Suc valid_entries) lbas rest
        })"

definition pblk_write_gc_to_cache :: "pblk \<Rightarrow> page list \<Rightarrow> u64 list \<Rightarrow> u32 \<Rightarrow> pblk_line \<Rightarrow> u32 \<Rightarrow> (nvm_io \<times> pblk) option" where
  "pblk_write_gc_to_cache pb data lba_list nr_rec_entries gc_line flags = do {
     (pos, pb) \<leftarrow> pblk_rb_may_write_gc pb nr_rec_entries;
     case pos of
       None \<Rightarrow> Some (NVM_IO_REQUEUE, pb)
     | Some bpos \<Rightarrow> do { pb \<leftarrow> write_gc_sectors pb flags bpos gc_line 0 lba_list data; Some (NVM_IO_OK, pb) }
   }"

section \<open>Out of the buffer\<close>

definition pblk_sync_line :: "pblk \<Rightarrow> nat \<Rightarrow> pblk option" where
  "pblk_sync_line pb i = do {
     line \<leftarrow> aget (pb_lines pb) i;
     let line = line\<lparr>pl_left_ssecs := pl_left_ssecs line - 1\<rparr>;
     let pb = put_line i line pb;
     Some (if pl_left_ssecs line = 0 then pb\<lparr>pb_close_ws := pb_close_ws pb @ [i]\<rparr> else pb)
   }"

definition pblk_page_pad_invalidate :: "pblk \<Rightarrow> nat \<Rightarrow> u64 \<Rightarrow> pblk option" where
  "pblk_page_pad_invalidate pb i paddr = do {
     line \<leftarrow> aget (pb_lines pb) i;
     let pb = put_line i (line\<lparr>pl_invalid_bitmap := insert paddr (pl_invalid_bitmap line), pl_vsc := pl_vsc line - 1\<rparr>) pb;
     pblk_sync_line pb i
   }"

text \<open>
  The sectors of one page, as the allocator hands them out: each with its address on its line and its
  address on the device. A reference is taken for each.
\<close>

definition map_sector :: "pblk \<Rightarrow> u32 \<Rightarrow> nat \<Rightarrow> u64 \<times> ppa_addr \<Rightarrow> bool \<Rightarrow> pblk option" where
  "map_sector pb sentry i sec valid = do {
     let line = unat (pblk_ppa_to_line (snd sec));
     pb \<leftarrow> line_kref_get pb line;
     if valid then do {
       let j = pblk_rb_w_ctx (pb_rwb pb) (sentry + of_nat i);
       entries \<leftarrow> amod (rb_entries (pb_rwb pb)) j (\<lambda>e. e\<lparr>re_w_ctx := (re_w_ctx e)\<lparr>wx_paddr := fst sec, wx_ppa := snd sec\<rparr>\<rparr>);
       Some (pb\<lparr>pb_rwb := (pb_rwb pb)\<lparr>rb_entries := entries\<rparr>\<rparr>)
     } else pblk_page_pad_invalidate pb line (fst sec)
   }"

fun pblk_map_page_data :: "pblk \<Rightarrow> u32 \<Rightarrow> nat \<Rightarrow> (u64 \<times> ppa_addr) list \<Rightarrow> nat \<Rightarrow> pblk option" where
  "pblk_map_page_data pb sentry i [] valid_secs = Some pb"
| "pblk_map_page_data pb sentry i (sec # secs) valid_secs = do {
     pb \<leftarrow> map_sector pb sentry i sec (i < valid_secs);
     pblk_map_page_data pb sentry (Suc i) secs valid_secs
   }"

fun pblk_map_rq :: "pblk \<Rightarrow> u32 \<Rightarrow> nat \<Rightarrow> nat \<Rightarrow> (u64 \<times> ppa_addr) list list \<Rightarrow> pblk option" where
  "pblk_map_rq pb sentry valid_secs i [] = Some pb"
| "pblk_map_rq pb sentry valid_secs i (page # pages) = do {
     let min = nat (pb_min_write_pgs pb);
     guard (min \<noteq> 0);
     let map_secs = (if i + min > valid_secs then valid_secs mod min else min);
     pb \<leftarrow> pblk_map_page_data pb (sentry + of_nat i) 0 page map_secs;
     pblk_map_rq pb sentry valid_secs (i + min) pages
   }"

text \<open>
  The write thread. \<open>submit_commit\<close> is the first half of \<open>pblk_submit_write\<close>: it decides how many
  sectors to write and moves \<open>subm\<close>. It does nothing when there is too little to write.
\<close>

definition submit_commit :: "pblk \<Rightarrow> (pblk_c_ctx option \<times> pblk) option" where
  "submit_commit pb = (let rb = pb_rwb pb; secs_avail = pblk_rb_read_count rb; secs_to_flush = pblk_rb_sync_point_count rb in
     if secs_avail = 0 then Some (None, pb)
     else if secs_to_flush = 0 \<and> secs_avail < word_of_int (pb_max_write_pgs pb) then Some (None, pb)
     else do {
       secs \<leftarrow> pblk_calc_secs pb (ucast secs_avail) (ucast secs_to_flush);
       let secs_to_sync = word_of_int secs;
       let secs_to_com = (if secs_to_sync > secs_avail then secs_avail else secs_to_sync);
       let (pos, rb) = pblk_rb_read_commit rb secs_to_com;
       Some (Some (rb_read_ctx pos secs_to_sync secs_avail), pb\<lparr>pb_rwb := rb\<rparr>)
     })"

text \<open>The second half, once every page has been read: the accounts, the mapping and the request.\<close>

definition submit_finish :: "pblk \<Rightarrow> pblk_c_ctx \<Rightarrow> int \<times> int \<Rightarrow> (u64 \<times> ppa_addr) list list \<Rightarrow> (pblk_c_ctx \<times> pblk) option" where
  "submit_finish pb c_ctx io pages = do {
     let pb = pb\<lparr>pb_rl := snd (pblk_rl_out (pb_rl pb) (fst io) (snd io))\<rparr>;
     pb \<leftarrow> pblk_map_rq pb (cc_sentry c_ctx) (unat (cc_nr_valid c_ctx)) 0 pages;
     Some (c_ctx\<lparr>cc_ppa_list := map snd (concat pages)\<rparr>, pb)
   }"

text \<open>
  The whole, when nobody else runs. The flags are the outcomes of allocating the request, its bio, the
  pages that pad it and its lists, and of handing it to the device.
\<close>

record submit_env =
  se_rqd :: bool
  se_bio :: bool
  se_added :: "nat \<Rightarrow> bool"
  se_pad :: bool
  se_setup :: bool
  se_submit :: bool

definition pblk_submit_write :: "submit_env \<Rightarrow> (u64 \<times> ppa_addr) list list \<Rightarrow> pblk \<Rightarrow> (int \<times> pblk_c_ctx option \<times> pblk) option" where
  "pblk_submit_write env pages pb = do {
     (c, pb') \<leftarrow> submit_commit pb;
     case c of
       None \<Rightarrow> Some (1, None, pb)
     | Some c_ctx \<Rightarrow>
         if \<not> se_rqd env \<or> \<not> se_bio env then Some (1, None, pb)
         else do {
           (io, all, rb) \<leftarrow> rb_read_entries (se_added env) (pb_rwb pb') (cc_sentry c_ctx) (0, 0) (unat (cc_nr_valid c_ctx));
           let pb = pb'\<lparr>pb_rwb := rb\<rparr>;
           if \<not> all then Some (1, None, pb)
           else if (cc_nr_padded c_ctx \<noteq> 0 \<and> \<not> se_pad env) \<or> \<not> se_setup env then
             Some (1, None, pb\<lparr>pb_rl := snd (pblk_rl_out (pb_rl pb) (fst io) (snd io))\<rparr>)
           else do {
             (c_ctx, pb) \<leftarrow> submit_finish pb c_ctx io pages;
             if \<not> se_submit env then Some (1, None, pb) else Some (0, Some c_ctx, pb)
           }
         }
   }"

section \<open>Completion\<close>

text \<open>The requests that wait on an entry end when its write does.\<close>

fun end_w_entries :: "pblk \<Rightarrow> pblk_c_ctx \<Rightarrow> nat \<Rightarrow> nat \<Rightarrow> (nat list \<times> pblk) option" where
  "end_w_entries pb c i 0 = Some ([], pb)"
| "end_w_entries pb c i (Suc n) = do {
     let j = pblk_rb_w_ctx (pb_rwb pb) (cc_sentry c + of_nat i);
     p \<leftarrow> aget (cc_ppa_list c) i;
     pb \<leftarrow> pblk_sync_line pb (unat (pblk_ppa_to_line p));
     entry \<leftarrow> aget (rb_entries (pb_rwb pb)) j;
     let entries = (rb_entries (pb_rwb pb))[j := entry\<lparr>re_w_ctx := (re_w_ctx entry)\<lparr>wx_bios := []\<rparr>\<rparr>];
     (ended, pb) \<leftarrow> end_w_entries (pb\<lparr>pb_rwb := (pb_rwb pb)\<lparr>rb_entries := entries\<rparr>\<rparr>) c (Suc i) n;
     Some (wx_bios (re_w_ctx entry) @ ended, pb)
   }"

definition pblk_end_w_bio :: "pblk \<Rightarrow> pblk_c_ctx \<Rightarrow> (u32 \<times> nat list \<times> pblk) option" where
  "pblk_end_w_bio pb c = do {
     (ended, pb) \<leftarrow> end_w_entries pb c 0 (unat (cc_nr_valid c));
     let (pos, rb) = pblk_rb_sync_advance (pb_rwb pb) (cc_nr_valid c);
     Some (pos, ended, pb\<lparr>pb_rwb := rb\<rparr>)
   }"

definition pblk_end_queued_w_bio :: "pblk \<Rightarrow> pblk_c_ctx \<Rightarrow> (u32 \<times> nat list \<times> pblk) option" where
  "pblk_end_queued_w_bio pb c = pblk_end_w_bio (pb\<lparr>pb_compl_list := remove1 c (pb_compl_list pb)\<rparr>) c"

text \<open>The scan starts over after every request it ends; \<open>n\<close> bounds the number of scans that end one.\<close>

fun complete_queued :: "nat \<Rightarrow> pblk \<Rightarrow> u32 \<Rightarrow> (nat list \<times> pblk) option" where
  "complete_queued 0 pb pos = Some ([], pb)"
| "complete_queued (Suc n) pb pos = (case List.find (\<lambda>c. cc_sentry c = pos) (pb_compl_list pb) of
     None \<Rightarrow> Some ([], pb)
   | Some c \<Rightarrow> do {
       (pos, ended, pb) \<leftarrow> pblk_end_queued_w_bio pb c;
       (more, pb) \<leftarrow> complete_queued n pb pos;
       Some (ended @ more, pb)
     })"

text \<open>Every scan that ends a request takes it off the list, so its length is enough.\<close>

definition pblk_complete_write :: "pblk \<Rightarrow> pblk_c_ctx \<Rightarrow> (nat list \<times> pblk) option" where
  "pblk_complete_write pb c =
     (if rb_sync (pb_rwb pb) = cc_sentry c then do {
        (pos, ended, pb) \<leftarrow> pblk_end_w_bio pb c;
        (more, pb) \<leftarrow> complete_queued (length (pb_compl_list pb)) pb pos;
        Some (ended @ more, pb)
      } else Some ([], pb\<lparr>pb_compl_list := pb_compl_list pb @ [c]\<rparr>))"

text \<open>\<open>pblk_recov_setup_rq\<close> of \<open>pblk-recovery.c\<close>: the context of the rest of a request that stopped early.\<close>

definition pblk_recov_setup_rq :: "bool \<Rightarrow> pblk \<Rightarrow> pblk_c_ctx \<Rightarrow> u32 \<Rightarrow> (pblk_c_ctx \<times> pblk_c_ctx) option" where
  "pblk_recov_setup_rq rqd_ok pb c ncomp =
     (if \<not> rqd_ok then None
      else let nr_entries = cc_nr_valid c + cc_nr_padded c; sentry = pblk_rb_wrap_pos (pb_rwb pb) (cc_sentry c + ncomp) in
        if ncomp \<ge> cc_nr_valid c then
          Some (c\<lparr>cc_nr_padded := ncomp - cc_nr_valid c\<rparr>,
                \<lparr>cc_sentry = sentry, cc_nr_valid = 0, cc_nr_padded = nr_entries - ncomp, cc_ppa_list = []\<rparr>)
        else
          Some (c\<lparr>cc_nr_valid := ncomp, cc_nr_padded := 0\<rparr>,
                \<lparr>cc_sentry = sentry, cc_nr_valid = cc_nr_valid c - ncomp, cc_nr_padded = cc_nr_padded c, cc_ppa_list = []\<rparr>))"

text \<open>The entries of the sectors the device reports as failed; \<^term>\<open>Some None\<close> when one is not found.\<close>

fun failed_entries :: "pblk_rb \<Rightarrow> pblk_c_ctx \<Rightarrow> nat list \<Rightarrow> nat list option option" where
  "failed_entries rb c [] = Some (Some [])"
| "failed_entries rb c (b # bits) = do {
     guard (b \<le> unat (cc_nr_valid c));
     ppa \<leftarrow> aget (cc_ppa_list c) b;
     case pblk_rb_sync_scan_entry rb ppa of
       None \<Rightarrow> Some None
     | Some e \<Rightarrow> do { r \<leftarrow> failed_entries rb c bits; Some (map_option (\<lambda>es. e # es) r) }
   }"

text \<open>The first result is the context of the request to be written again, when one is queued.\<close>

definition pblk_end_w_fail :: "bool \<Rightarrow> bool \<Rightarrow> pblk \<Rightarrow> pblk_c_ctx \<Rightarrow> u64 \<Rightarrow> (pblk_c_ctx option \<times> nat list \<times> pblk) option" where
  "pblk_end_w_fail recovery_ok rqd_ok pb c status =
     (if \<not> recovery_ok then Some (None, [], pb)
      else do {
        let nr_ppas = length (cc_ppa_list c);
        let bits = filter (bit status) [0..<nr_ppas];
        failed \<leftarrow> failed_entries (pb_rwb pb) c bits;
        let rec = (case failed of None \<Rightarrow> None
          | Some es \<Rightarrow> pblk_recov_setup_rq rqd_ok pb c (of_nat (case bits of [] \<Rightarrow> nr_ppas | b # bs \<Rightarrow> b)));
        let c = (case rec of None \<Rightarrow> c | Some (c, r) \<Rightarrow> c);
        (ended, pb) \<leftarrow> pblk_complete_write pb c;
        Some (map_option snd rec, ended, pb)
      })"

text \<open>The device's answer; \<open>error\<close> tells whether a sector failed.\<close>

definition pblk_end_io_write :: "bool \<Rightarrow> bool \<Rightarrow> bool \<Rightarrow> pblk \<Rightarrow> pblk_c_ctx \<Rightarrow> u64 \<Rightarrow> (pblk_c_ctx option \<times> nat list \<times> pblk) option" where
  "pblk_end_io_write error recovery_ok rqd_ok pb c status =
     (if error then pblk_end_w_fail recovery_ok rqd_ok pb c status
      else do { (ended, pb) \<leftarrow> pblk_complete_write pb c; Some (None, ended, pb) })"

text \<open>A discard names its sectors of 512 bytes and its length in bytes.\<close>

definition pblk_get_lba :: "u64 \<Rightarrow> u64" where
  "pblk_get_lba bi_sector = bi_sector div 8"

definition pblk_get_secs :: "u32 \<Rightarrow> u32" where
  "pblk_get_secs bi_size = bi_size div 4096"

definition pblk_discard :: "pblk \<Rightarrow> u64 \<Rightarrow> u32 \<Rightarrow> pblk option" where
  "pblk_discard pb bi_sector bi_size = pblk_invalidate_range pb (pblk_get_lba bi_sector) (pblk_get_secs bi_size)"

section \<open>Reading\<close>

datatype read_src = Hole | Cached page | Media ppa_addr

text \<open>
  Where a read finds a sector. A failed copy from the buffer looks the sector up again; with nobody else
  running it would do so for ever.
\<close>

definition read_sector :: "pblk \<Rightarrow> u64 \<Rightarrow> read_src option" where
  "read_sector pb lba = do {
     ppa \<leftarrow> pblk_get_lba_map pb lba;
     if ppa_empty ppa then Some Hole
     else if nvm_addr_in_cache ppa then do {
       r \<leftarrow> pblk_rb_copy_to_bio (pb_rwb pb) lba (nvm_addr_to_cacheline ppa);
       map_option Cached r
     } else Some (Media ppa)
   }"

definition pblk_read_ppalist_rq :: "pblk \<Rightarrow> u64 \<Rightarrow> nat \<Rightarrow> read_src list option" where
  "pblk_read_ppalist_rq pb blba nr_secs = do {
     guard (blba + of_nat nr_secs < rl_nr_secs (pb_rl pb));
     those (map (\<lambda>i. read_sector pb (blba + of_nat i)) [0..<nr_secs])
   }"

end
