(* ===== verification/Pblk_Inv.thy ===== *)
theory Pblk_Inv
  imports Pblk_Cache
begin

text \<open>
  The invariant of the ring buffer. Positions are counted without wrapping: sectors before \<open>l\<close> have been
  retired, before \<open>s\<close> they are on the device, before \<open>q\<close> they have an address there, before \<open>r\<close> the
  write thread has read them, before \<open>b\<close> it has claimed them, and before \<open>m\<close> they are reserved. \<open>T\<close> is the
  set of indices that are reserved and not yet copied.
\<close>

record rpos =
  p_l :: nat
  p_s :: nat
  p_q :: nat
  p_r :: nat
  p_b :: nat
  p_m :: nat
  p_T :: "u32 set"

definition slot :: "nat \<Rightarrow> pblk_rb \<Rightarrow> nat \<Rightarrow> pblk_rb_entry" where
  "slot k rb a = rb_entries rb ! (a mod 2 ^ k)"

abbreviation fl :: "nat \<Rightarrow> pblk_rb \<Rightarrow> nat \<Rightarrow> u32" where "fl k rb a \<equiv> wx_flags (re_w_ctx (slot k rb a))"
abbreviation lb :: "nat \<Rightarrow> pblk_rb \<Rightarrow> nat \<Rightarrow> nat" where "lb k rb a \<equiv> unat (wx_lba (re_w_ctx (slot k rb a)))"
abbreviation pp :: "nat \<Rightarrow> pblk_rb \<Rightarrow> nat \<Rightarrow> ppa_addr" where "pp k rb a \<equiv> wx_ppa (re_w_ctx (slot k rb a))"
abbreviation dt :: "nat \<Rightarrow> pblk_rb \<Rightarrow> nat \<Rightarrow> page" where "dt k rb a \<equiv> re_data (slot k rb a)"
abbreviation cl :: "nat \<Rightarrow> nat \<Rightarrow> ppa_addr" where "cl k a \<equiv> pblk_cacheline_to_ppa (ucast (ring k a))"
abbreviation ln :: "ppa_addr \<Rightarrow> nat" where "ln p \<equiv> unat (pblk_ppa_to_line p)"

definition rb_shape :: "nat \<Rightarrow> pblk_rb \<Rightarrow> bool" where
  "rb_shape k rb \<longleftrightarrow> k < 31 \<and> length (rb_entries rb) = 2 ^ k \<and> rb_nr_entries rb = 2 ^ k \<and> (\<forall>a. re_cacheline (slot k rb a) = cl k a)"

definition rb_idx :: "nat \<Rightarrow> rpos \<Rightarrow> pblk_rb \<Rightarrow> bool" where
  "rb_idx k g rb \<longleftrightarrow> rb_l2p_update rb = ring k (p_l g) \<and> rb_sync rb = ring k (p_s g) \<and> rb_subm rb = ring k (p_b g) \<and> rb_mem rb = ring k (p_m g) \<and>
     p_l g \<le> p_s g \<and> p_s g \<le> p_q g \<and> p_q g \<le> p_r g \<and> p_r g \<le> p_b g \<and> p_b g \<le> p_m g \<and> p_m g < p_l g + 2 ^ k"

definition fl_ok :: "nat \<Rightarrow> rpos \<Rightarrow> nat \<Rightarrow> nat \<Rightarrow> pblk_rb_entry \<Rightarrow> bool" where
  "fl_ok k g nr a e \<longleftrightarrow>
     (if a < p_r g then bit (wx_flags (re_w_ctx e)) 8 \<and> \<not> bit (wx_flags (re_w_ctx e)) 9 \<and> unat (wx_lba (re_w_ctx e)) < nr
      else if a < p_m g \<and> ring k a \<notin> p_T g then bit (wx_flags (re_w_ctx e)) 7 \<and> \<not> bit (wx_flags (re_w_ctx e)) 9 \<and> unat (wx_lba (re_w_ctx e)) < nr
      else bit (wx_flags (re_w_ctx e)) 9 \<and> \<not> bit (wx_flags (re_w_ctx e)) 7)"

definition rb_flags :: "nat \<Rightarrow> rpos \<Rightarrow> nat \<Rightarrow> pblk_rb \<Rightarrow> bool" where
  "rb_flags k g nr rb \<longleftrightarrow> (\<forall>a. p_l g \<le> a \<and> a < p_l g + 2 ^ k \<longrightarrow> fl_ok k g nr a (slot k rb a)) \<and> p_T g \<subseteq> ring k ` {p_r g ..< p_m g}"

definition rb_ppas :: "nat \<Rightarrow> rpos \<Rightarrow> pblk_rb \<Rightarrow> pblk_line list \<Rightarrow> bool" where
  "rb_ppas k g rb lines \<longleftrightarrow>
     (\<forall>a. p_l g \<le> a \<and> a < p_q g \<longrightarrow> pp k rb a \<noteq> ADDR_EMPTY \<and> \<not> nvm_addr_in_cache (pp k rb a) \<and> ln (pp k rb a) < length lines) \<and>
     (\<forall>i < length lines. length (filter (\<lambda>a. ln (pp k rb a) = i) [p_l g ..< p_q g]) < pl_ref (lines ! i))"

definition map_typed :: "nat \<Rightarrow> nat \<Rightarrow> ppa_addr list \<Rightarrow> pblk_line list \<Rightarrow> bool" where
  "map_typed k nr tm lines \<longleftrightarrow> length tm = nr \<and> (\<forall>x < nr. (\<exists>a. tm ! x = cl k a) \<or> ppa_empty (tm ! x) \<or> ln (tm ! x) < length lines)"

lemma map_typed_upd:
  assumes "map_typed k nr tm lines" "(\<exists>a. p = cl k a) \<or> ppa_empty p \<or> ln p < length lines"
  shows "map_typed k nr (tm[x := p]) lines"
  using assms by (cases "x < length tm") (auto simp: map_typed_def nth_list_update)

lemma map_typed_lines: "map_typed k nr tm lines \<Longrightarrow> length lines' = length lines \<Longrightarrow> map_typed k nr tm lines'"
  by (simp add: map_typed_def)

text \<open>What a read finds: the newest data of every sector, in the buffer or on the device.\<close>

definition sec_ok :: "nat \<Rightarrow> rpos \<Rightarrow> pblk_rb \<Rightarrow> (ppa_addr \<rightharpoonup> page) \<Rightarrow> nat \<Rightarrow> ppa_addr \<Rightarrow> page option \<Rightarrow> bool" where
  "sec_ok k g rb flash x p nw \<longleftrightarrow> p = ADDR_EMPTY \<and> nw = None \<or>
     p \<noteq> ADDR_EMPTY \<and> \<not> nvm_addr_in_cache p \<and> nw \<noteq> None \<and> flash p = nw \<or>
     (\<exists>a. p_l g \<le> a \<and> a < p_m g \<and> ring k a \<notin> p_T g \<and> p = cl k a \<and> lb k rb a = x \<and> nw = Some (dt k rb a))"

lemma sec_ok_cases:
  assumes "sec_ok k g rb flash x p nw"
  obtains (hole) "p = ADDR_EMPTY" "nw = None"
    | (device) "p \<noteq> ADDR_EMPTY" "\<not> nvm_addr_in_cache p" "nw \<noteq> None" "flash p = nw"
    | (buffer) a where "p_l g \<le> a" "a < p_m g" "ring k a \<notin> p_T g" "p = cl k a" "lb k rb a = x" "nw = Some (dt k rb a)"
  using assms unfolding sec_ok_def by (elim disjE exE conjE) (erule that; assumption)+

lemma sec_okI:
  "p = ADDR_EMPTY \<Longrightarrow> nw = None \<Longrightarrow> sec_ok k g rb flash x p nw"
  "p \<noteq> ADDR_EMPTY \<Longrightarrow> \<not> nvm_addr_in_cache p \<Longrightarrow> nw \<noteq> None \<Longrightarrow> flash p = nw \<Longrightarrow> sec_ok k g rb flash x p nw"
  "p_l g \<le> a \<Longrightarrow> a < p_m g \<Longrightarrow> ring k a \<notin> p_T g \<Longrightarrow> p = cl k a \<Longrightarrow> lb k rb a = x \<Longrightarrow> nw = Some (dt k rb a) \<Longrightarrow> sec_ok k g rb flash x p nw"
  unfolding sec_ok_def by (rule disjI1, simp) (rule disjI2, rule disjI1, simp, rule disjI2, rule disjI2, rule exI [of _ a], simp)

definition rb_data :: "nat \<Rightarrow> rpos \<Rightarrow> pblk_rb \<Rightarrow> ppa_addr list \<Rightarrow> (ppa_addr \<rightharpoonup> page) \<Rightarrow> (nat \<rightharpoonup> page) \<Rightarrow> bool" where
  "rb_data k g rb tm flash newest \<longleftrightarrow>
     (\<forall>a. p_l g \<le> a \<and> a < p_s g \<longrightarrow> flash (pp k rb a) = Some (dt k rb a)) \<and>
     (\<forall>x < length tm. sec_ok k g rb flash x (tm ! x) (newest x))"

text \<open>The flag tells whether the data is to be followed as well.\<close>

definition rb_core :: "bool \<Rightarrow> nat \<Rightarrow> rpos \<Rightarrow> (ppa_addr \<rightharpoonup> page) \<Rightarrow> (nat \<rightharpoonup> page) \<Rightarrow> pblk \<Rightarrow> bool" where
  "rb_core d k g flash newest pb \<longleftrightarrow> rb_shape k (pb_rwb pb) \<and> rb_idx k g (pb_rwb pb) \<and>
     rb_flags k g (unat (rl_nr_secs (pb_rl pb))) (pb_rwb pb) \<and> rb_ppas k g (pb_rwb pb) (pb_lines pb) \<and>
     map_typed k (unat (rl_nr_secs (pb_rl pb))) (pb_trans_map pb) (pb_lines pb) \<and>
     (d \<longrightarrow> rb_data k g (pb_rwb pb) (pb_trans_map pb) flash newest)"

lemma core_D:
  assumes "rb_core d k g flash newest pb"
  shows core_shape: "rb_shape k (pb_rwb pb)" and core_idx: "rb_idx k g (pb_rwb pb)"
    and core_flags: "rb_flags k g (unat (rl_nr_secs (pb_rl pb))) (pb_rwb pb)" and core_ppas: "rb_ppas k g (pb_rwb pb) (pb_lines pb)"
    and core_map: "map_typed k (unat (rl_nr_secs (pb_rl pb))) (pb_trans_map pb) (pb_lines pb)"
    and core_data: "d \<Longrightarrow> rb_data k g (pb_rwb pb) (pb_trans_map pb) flash newest"
  using assms by (simp_all add: rb_core_def)

lemma core_fl: "rb_core d k g flash newest pb \<Longrightarrow> p_l g \<le> a \<Longrightarrow> a < p_l g + 2 ^ k \<Longrightarrow>
    fl_ok k g (unat (rl_nr_secs (pb_rl pb))) a (slot k (pb_rwb pb) a)"
  by (simp add: rb_core_def rb_flags_def)

lemma core_pos:
  assumes "rb_core d k g flash newest pb"
  shows "p_l g \<le> p_s g" "p_s g \<le> p_q g" "p_q g \<le> p_r g" "p_r g \<le> p_b g" "p_b g \<le> p_m g" "p_m g < p_l g + 2 ^ k"
  using core_idx [OF assms] by (auto simp: rb_idx_def)

section \<open>Slots\<close>

lemma mod_window: "a mod n = b mod n \<Longrightarrow> l \<le> a \<Longrightarrow> a < l + n \<Longrightarrow> l \<le> b \<Longrightarrow> b < l + n \<Longrightarrow> a = b" for a b l n :: nat
proof (induction a b rule: linorder_wlog)
  case (le a b)
  then have "n dvd b - a"
    by (metis mod_eq_dvd_iff_nat)
  moreover have "b - a < n"
    using le by simp
  ultimately have "b - a = 0"
    by (meson dvd_imp_le linorder_not_less not_gr_zero)
  with le show ?case
    by simp
qed auto

lemma shape_D:
  assumes "rb_shape k rb"
  shows "k < 31" "k < 32" "length (rb_entries rb) = 2 ^ k" "rb_nr_entries rb = 2 ^ k" "re_cacheline (slot k rb a) = cl k a"
    "a mod 2 ^ k < length (rb_entries rb)" "unat (ring k a) = a mod 2 ^ k"
  using assms by (auto simp: rb_shape_def unat_ring)

lemma slot_get: "rb_shape k rb \<Longrightarrow> aget (rb_entries rb) (a mod 2 ^ k) = Some (slot k rb a)"
  by (simp add: slot_def shape_D)

text \<open>Changing the entry of one position changes that slot only, within a window of the size of the ring.\<close>

lemma slot_upd:
  assumes "rb_shape k rb" "l \<le> a" "a < l + 2 ^ k" "l \<le> b" "b < l + 2 ^ k"
  shows "slot k (rb\<lparr>rb_entries := (rb_entries rb)[a mod 2 ^ k := e]\<rparr>) b = (if a = b then e else slot k rb b)"
  using assms mod_window [of a "2 ^ k" b l] by (auto simp: slot_def shape_D nth_list_update)

lemma slot_other [simp]:
  "slot k (rb\<lparr>rb_mem := v\<rparr>) a = slot k rb a" "slot k (rb\<lparr>rb_subm := v\<rparr>) a = slot k rb a" "slot k (rb\<lparr>rb_sync := v\<rparr>) a = slot k rb a"
  "slot k (rb\<lparr>rb_l2p_update := v\<rparr>) a = slot k rb a" "slot k (rb\<lparr>rb_sync_point := v\<rparr>) a = slot k rb a"
  by (simp_all add: slot_def)

lemma shape_upd:
  assumes "rb_shape k rb" "re_cacheline e = cl k a"
  shows "rb_shape k (rb\<lparr>rb_entries := (rb_entries rb)[a mod 2 ^ k := e]\<rparr>)"
proof -
  have "re_cacheline ((rb_entries rb)[a mod 2 ^ k := e] ! (b mod 2 ^ k)) = cl k b" for b
  proof (cases "b mod 2 ^ k = a mod 2 ^ k")
    case True
    then have "ring k b = ring k a"
      using shape_D(2,7) [OF assms(1)] by (metis word_unat_eq_iff)
    with True assms show ?thesis
      by (simp add: shape_D)
  next
    case False
    then show ?thesis
      using shape_D(5) [OF assms(1), of b] by (simp add: slot_def)
  qed
  with assms(1) show ?thesis
    by (auto simp: rb_shape_def slot_def)
qed

lemma shape_other [simp]:
  "rb_shape k (rb\<lparr>rb_mem := v\<rparr>) = rb_shape k rb" "rb_shape k (rb\<lparr>rb_subm := v\<rparr>) = rb_shape k rb" "rb_shape k (rb\<lparr>rb_sync := v\<rparr>) = rb_shape k rb"
  "rb_shape k (rb\<lparr>rb_l2p_update := v\<rparr>) = rb_shape k rb" "rb_shape k (rb\<lparr>rb_sync_point := v\<rparr>) = rb_shape k rb"
  by (simp_all add: rb_shape_def)

lemma unat_up: "unat (ucast (w :: u32) :: u64) = unat w"
proof -
  have "unat w < 2 ^ 32"
    using unsigned_less [of w] by simp
  then show ?thesis
    by (simp add: unsigned_ucast_eq take_bit_nat_eq_self)
qed

lemma cl_inj: "ucast (ring k a) = (ucast (ring k b) :: u64) \<longleftrightarrow> ring k a = ring k b"
  by (metis unat_up word_unat_eq_iff)

lemma cl_facts: "nvm_addr_in_cache (cl k a)" "cl k a \<noteq> ADDR_EMPTY" "nvm_addr_to_cacheline (cl k a) = ucast (ring k a)"
proof -
  have "(ucast (ring k a) :: u64) < 2 ^ 32"
    using unsigned_less [of "ring k a", where 'a = nat] by (simp add: word_less_nat_alt unat_up)
  then show "nvm_addr_in_cache (cl k a)" "cl k a \<noteq> ADDR_EMPTY" "nvm_addr_to_cacheline (cl k a) = ucast (ring k a)"
    by (simp_all add: cacheline_addr)
qed

lemma cl_eq: "k < 32 \<Longrightarrow> cl k a = cl k b \<Longrightarrow> l \<le> a \<Longrightarrow> a < l + 2 ^ k \<Longrightarrow> l \<le> b \<Longrightarrow> b < l + 2 ^ k \<Longrightarrow> a = b"
proof -
  assume k: "k < 32" and eq: "cl k a = cl k b" and w: "l \<le> a" "a < l + 2 ^ k" "l \<le> b" "b < l + 2 ^ k"
  have "ring k a = ring k b"
    using eq cl_facts(3) cl_inj by metis
  then have "a mod 2 ^ k = b mod 2 ^ k"
    using unat_ring [OF k] by metis
  then show ?thesis
    using w mod_window by blast
qed

end
