(* ===== verification/Pblk_Ops.thy ===== *)
theory Pblk_Ops
  imports Pblk_Inv
begin

text \<open>What every operation on the ring buffer does to its invariant.\<close>

definition pb_frame :: "pblk \<Rightarrow> pblk \<Rightarrow> bool" where
  "pb_frame pb pb' \<longleftrightarrow> rl_nr_secs (pb_rl pb') = rl_nr_secs (pb_rl pb) \<and> pb_compl_list pb' = pb_compl_list pb \<and>
     pb_min_write_pgs pb' = pb_min_write_pgs pb \<and> pb_max_write_pgs pb' = pb_max_write_pgs pb \<and> length (pb_lines pb') = length (pb_lines pb)"

lemma pb_frame_refl [simp]: "pb_frame pb pb"
  by (simp add: pb_frame_def)

lemma pb_frame_trans: "pb_frame a b \<Longrightarrow> pb_frame b c \<Longrightarrow> pb_frame a c"
  by (simp add: pb_frame_def)

lemma same_refs_frame: "same_refs pb pb' \<Longrightarrow> pb_frame pb pb'"
  by (simp add: pb_frame_def same_refsD)

section \<open>Retiring an entry\<close>

text \<open>The entry at \<open>l\<close> after it has been retired.\<close>

definition retired :: "pblk_rb_entry \<Rightarrow> pblk_rb_entry" where
  "retired e = e\<lparr>re_w_ctx := (re_w_ctx e)\<lparr>wx_flags := PBLK_WRITABLE_ENTRY, wx_ppa := ADDR_EMPTY\<rparr>\<rparr>"

definition rb_retire :: "nat \<Rightarrow> nat \<Rightarrow> pblk_rb \<Rightarrow> pblk_rb" where
  "rb_retire k l rb = rb\<lparr>rb_entries := (rb_entries rb)[l mod 2 ^ k := retired (slot k rb l)], rb_l2p_update := ring k (Suc l)\<rparr>"

lemma retire_result:
  assumes core: "rb_core d k g flash newest pb" and ls: "p_l g < p_s g"
  defines "rb \<equiv> pb_rwb pb" and "l \<equiv> p_l g" and "tm \<equiv> pb_trans_map pb"
  shows "\<exists>pb'. rb_update_l2p_entry pb = Some pb' \<and> pb_frame pb pb' \<and> pb_rwb pb' = rb_retire k l rb \<and> pb_rl pb' = pb_rl pb \<and>
    pb_trans_map pb' = (if tm ! lb k rb l = cl k l then tm[lb k rb l := pp k rb l] else tm) \<and>
    (\<forall>i < length (pb_lines pb). pl_ref (pb_lines pb' ! i) = pl_ref (pb_lines pb ! i) - (if ln (pp k rb l) = i then 1 else 0))"
proof -
  note sh = core_shape [OF core, folded rb_def]
  have pos: "l \<le> l" "l < p_q g" "l < p_r g" and idx: "unat (rb_l2p_update rb) = l mod 2 ^ k" "rb_l2p_update rb = ring k l"
    using core_idx [OF core] ls shape_D(2) [OF sh] by (auto simp: rb_idx_def rb_def l_def unat_ring)
  have pp: "pp k rb l \<noteq> ADDR_EMPTY" "ln (pp k rb l) < length (pb_lines pb)"
    using core_ppas [OF core] pos by (auto simp: rb_ppas_def rb_def l_def)
  have fl: "bit (fl k rb l) 8" "lb k rb l < unat (rl_nr_secs (pb_rl pb))"
    using core_fl [OF core, of l] pos core_pos [OF core] by (auto simp: fl_ok_def rb_def l_def)
  have tm: "lb k rb l < length tm"
    using fl(2) core_map [OF core] by (simp add: map_typed_def tm_def)
  have "[p_l g ..< p_q g] = l # [Suc l ..< p_q g]"
    using pos by (simp add: l_def upt_conv_Cons)
  then have ref: "1 < pl_ref (pb_lines pb ! ln (pp k rb l))"
    using core_ppas [OF core] pp(2) by (fastforce simp: rb_ppas_def rb_def)
  obtain pb1 where pb1: "pblk_update_map_dev pb (wx_lba (re_w_ctx (slot k rb l))) (pp k rb l) (cl k l) = Some (pb1\<lparr>pb_trans_map :=
      (if tm ! lb k rb l = cl k l then tm[lb k rb l := pp k rb l] else tm)\<rparr>)" "same_refs pb pb1"
  proof -
    have "wx_lba (re_w_ctx (slot k rb l)) < rl_nr_secs (pb_rl pb)" "dev_addr_ok pb (pp k rb l)" "\<not> ppa_empty (pp k rb l)"
      using fl(2) pp by (simp_all add: dev_addr_ok_def ppa_empty_def word_less_nat_alt)
    then show ?thesis
      using that update_map_dev_ok [OF _ tm [unfolded tm_def]] unfolding tm_def by blast
  qed
  define pb2 where "pb2 = pb1\<lparr>pb_trans_map := (if tm ! lb k rb l = cl k l then tm[lb k rb l := pp k rb l] else tm)\<rparr>"
  have put: "line_kref_put pb2 (ln (pp k rb l)) = Some (put_line (ln (pp k rb l)) ((pb_lines pb2 ! ln (pp k rb l))\<lparr>pl_ref := pl_ref (pb_lines pb2 ! ln (pp k rb l)) - 1\<rparr>) pb2)"
    using pp(2) ref same_refsD(5,8) [OF pb1(2)] by (intro kref_put_ok) (simp_all add: pb2_def)
  have clean: "clean_wctx (re_w_ctx (slot k rb l)) = Some (re_w_ctx (retired (slot k rb l)))"
    using fl(1) by (simp add: clean_wctx_def flag_tests retired_def)
  have rb2: "pb_rwb pb2 = rb" "length (pb_lines pb2) = length (pb_lines pb)"
    using same_refsD(1,5) [OF pb1(2)] by (simp_all add: pb2_def rb_def)
  have nr: "rb_nr_entries rb = 2 ^ k" "(ring k l + 1) AND (2 ^ k - 1) = ring k (Suc l)"
    using shape_D(2,4) [OF sh] by (simp_all add: ring_suc)
  have "rb_update_l2p_entry pb = Some ((put_line (ln (pp k rb l)) ((pb_lines pb2 ! ln (pp k rb l))\<lparr>pl_ref := pl_ref (pb_lines pb2 ! ln (pp k rb l)) - 1\<rparr>) pb2)
      \<lparr>pb_rwb := rb_retire k l rb\<rparr>)"
    using pb1(1) put clean rb2 idx nr slot_get [OF sh, of l]
    by (simp add: rb_update_l2p_entry_def rb_def [symmetric] pb2_def [symmetric] shape_D(5) [OF sh] put_line_def rb_retire_def retired_def Let_def)
  then show ?thesis
    using same_refs_frame [OF pb1(2)] same_refsD [OF pb1(2)] rb2(2) pp(2)
    by (auto simp: put_line_def pb_frame_def pb2_def nth_list_update)
qed

lemma slot_retire:
  assumes "rb_shape k rb" "l < a" "a \<le> l + 2 ^ k"
  shows "slot k (rb_retire k l rb) a = (if a = l + 2 ^ k then retired (slot k rb l) else slot k rb a)"
proof -
  have "slot k (rb\<lparr>rb_entries := (rb_entries rb)[(l + 2 ^ k) mod 2 ^ k := e]\<rparr>) a = (if l + 2 ^ k = a then e else slot k rb a)" for e
    using assms by (intro slot_upd [where l = "Suc l"]) auto
  then show ?thesis
    by (auto simp: rb_retire_def)
qed

lemma retire_shape:
  assumes "rb_shape k rb"
  shows "rb_shape k (rb_retire k l rb)"
  using shape_upd [OF assms, of "retired (slot k rb l)" l] shape_D(5) [OF assms, of l] by (simp add: rb_retire_def retired_def)

text \<open>The map follows a retired sector to the device unless a newer copy is in the buffer.\<close>

lemma retire_data:
  assumes core: "rb_core True k g flash newest pb" and ls: "p_l g < p_s g"
  defines "rb \<equiv> pb_rwb pb" and "l \<equiv> p_l g" and "tm \<equiv> pb_trans_map pb"
  shows "rb_data k (g\<lparr>p_l := Suc l\<rparr>) (rb_retire k l rb) (if tm ! lb k rb l = cl k l then tm[lb k rb l := pp k rb l] else tm) flash newest"
    (is "rb_data _ _ _ ?tm _ _")
proof -
  note sh = core_shape [OF core, folded rb_def]
  have pos: "l < p_s g" "p_s g \<le> p_q g" "p_q g \<le> p_r g" "p_r g \<le> p_m g" "p_m g < l + 2 ^ k"
    using core_idx [OF core] ls by (auto simp: rb_idx_def l_def)
  have old: "slot k (rb_retire k l rb) a = slot k rb a" if "l < a" "a < p_m g" for a
    using slot_retire [OF sh, of l a] that pos by simp
  have dev: "pp k rb l \<noteq> ADDR_EMPTY" "\<not> nvm_addr_in_cache (pp k rb l)" "flash (pp k rb l) = Some (dt k rb l)"
    using core_ppas [OF core] core_data [OF core] pos by (auto simp: rb_ppas_def rb_data_def rb_def l_def)
  have len: "lb k rb l < length tm"
    using core_fl [OF core, of l] core_map [OF core] pos by (simp add: fl_ok_def map_typed_def rb_def tm_def l_def)
  have new: "?tm ! x = (if x = lb k rb l \<and> tm ! x = cl k l then pp k rb l else tm ! x)" for x
    using len by (auto simp: nth_list_update)
  have "sec_ok k (g\<lparr>p_l := Suc l\<rparr>) (rb_retire k l rb) flash x (?tm ! x) (newest x)" if x: "x < length tm" for x
  proof -
    have "sec_ok k g rb flash x (tm ! x) (newest x)"
      using core_data [OF core] x unfolding rb_data_def rb_def tm_def by simp
    then show ?thesis
    proof (cases rule: sec_ok_cases)
      case hole
      then show ?thesis
        unfolding new using cl_facts(2) [of k l] by (auto intro: sec_okI)
    next
      case device
      then show ?thesis
        unfolding new using cl_facts(1) [of k l] by (auto intro: sec_okI(2))
    next
      case (buffer a)
      show ?thesis
      proof (cases "a = l")
        case True
        with buffer dev show ?thesis
          unfolding new by (auto intro: sec_okI(2))
      next
        case False
        then have a: "cl k a \<noteq> cl k l" "l < a"
          using buffer pos cl_eq [OF shape_D(2) [OF sh], of a l l] by (auto simp: l_def)
        with buffer old [of a] show ?thesis
          unfolding new by (intro sec_okI(3) [of _ a]) simp_all
      qed
    qed
  qed
  moreover have "flash (pp k (rb_retire k l rb) a) = Some (dt k (rb_retire k l rb) a)" if "Suc l \<le> a" "a < p_s g" for a
    using core_data [OF core] that old [of a] pos by (simp add: rb_data_def rb_def l_def)
  moreover have "length ?tm = length tm"
    by simp
  ultimately show ?thesis
    unfolding rb_data_def by (simp split del: if_split)
qed

lemma retire_ok:
  assumes core: "rb_core d k g flash newest pb" and ls: "p_l g < p_s g"
  shows "\<exists>pb'. rb_update_l2p_entry pb = Some pb' \<and> rb_core d k (g\<lparr>p_l := Suc (p_l g)\<rparr>) flash newest pb' \<and> pb_frame pb pb' \<and>
    pb_rwb pb' = rb_retire k (p_l g) (pb_rwb pb) \<and> pb_rl pb' = pb_rl pb"
proof -
  define rb l tm where "rb = pb_rwb pb" and "l = p_l g" and "tm = pb_trans_map pb"
  obtain pb' where pb': "rb_update_l2p_entry pb = Some pb'" "pb_frame pb pb'" "pb_rwb pb' = rb_retire k l rb" "pb_rl pb' = pb_rl pb"
      "pb_trans_map pb' = (if tm ! lb k rb l = cl k l then tm[lb k rb l := pp k rb l] else tm)"
      "\<forall>i < length (pb_lines pb). pl_ref (pb_lines pb' ! i) = pl_ref (pb_lines pb ! i) - (if ln (pp k rb l) = i then 1 else 0)"
    using retire_result [OF core ls] unfolding rb_def l_def tm_def by blast
  note sh = core_shape [OF core, folded rb_def]
  have pos: "l < p_s g" "p_s g \<le> p_q g" "p_q g \<le> p_r g" "p_r g \<le> p_b g" "p_b g \<le> p_m g" "p_m g < l + 2 ^ k"
    using core_idx [OF core] ls by (auto simp: rb_idx_def l_def)
  note old = slot_retire [OF sh, of l]
  have len: "length (pb_lines pb') = length (pb_lines pb)"
    using pb'(2) by (simp add: pb_frame_def)
  have idx: "rb_idx k (g\<lparr>p_l := Suc l\<rparr>) (rb_retire k l rb)"
    using core_idx [OF core] pos by (auto simp: rb_idx_def rb_retire_def rb_def)
  have flags: "rb_flags k (g\<lparr>p_l := Suc l\<rparr>) (unat (rl_nr_secs (pb_rl pb))) (rb_retire k l rb)"
  proof -
    have "fl_ok k (g\<lparr>p_l := Suc l\<rparr>) n a (slot k (rb_retire k l rb) a)"
      if "l < a" "a \<le> l + 2 ^ k" "a \<noteq> l + 2 ^ k \<Longrightarrow> fl_ok k g n a (slot k rb a)" for a n
      using that pos by (cases "a = l + 2 ^ k") (simp_all add: old fl_ok_def retired_def flag_bits)
    then show ?thesis
      using core_flags [OF core] by (auto simp: rb_flags_def rb_def l_def)
  qed
  have cons: "[p_l g ..< p_q g] = l # [Suc l ..< p_q g]"
    using pos by (simp add: l_def upt_conv_Cons)
  have devs: "pp k rb a \<noteq> ADDR_EMPTY" "\<not> nvm_addr_in_cache (pp k rb a)" "ln (pp k rb a) < length (pb_lines pb)" if "l \<le> a" "a < p_q g" for a
    using core_ppas [OF core] that by (auto simp: rb_ppas_def rb_def l_def)
  have same: "filter (\<lambda>a. ln (pp k (rb_retire k l rb) a) = i) [Suc l ..< p_q g] = filter (\<lambda>a. ln (pp k rb a) = i) [Suc l ..< p_q g]" for i
    using pos by (intro filter_cong) (auto simp: old)
  have "length (filter (\<lambda>a. ln (pp k rb a) = i) [Suc l ..< p_q g]) < pl_ref (pb_lines pb' ! i)" if "i < length (pb_lines pb)" for i
  proof -
    have "length (filter (\<lambda>a. ln (pp k rb a) = i) (l # [Suc l ..< p_q g])) < pl_ref (pb_lines pb ! i)"
      using core_ppas [OF core] that unfolding rb_ppas_def cons rb_def by blast
    then show ?thesis
      using pb'(6) that by (auto split: if_splits)
  qed
  then have ppas: "rb_ppas k (g\<lparr>p_l := Suc l\<rparr>) (rb_retire k l rb) (pb_lines pb')"
    using devs pos by (simp add: rb_ppas_def len same old)
  have mt: "map_typed k (unat (rl_nr_secs (pb_rl pb))) (pb_trans_map pb') (pb_lines pb')"
    using core_map [OF core] devs [of l] pos by (intro map_typed_lines [OF _ len]) (auto simp: pb'(5) tm_def intro: map_typed_upd)
  have "d \<Longrightarrow> rb_data k (g\<lparr>p_l := Suc l\<rparr>) (rb_retire k l rb) (pb_trans_map pb') flash newest"
    unfolding pb'(5) rb_def l_def tm_def using core ls by (intro retire_data) simp_all
  then show ?thesis
    using pb'(1-4) retire_shape [OF sh, of l] idx flags ppas mt by (auto simp: rb_core_def rb_def l_def)
qed

text \<open>Two buffers that agree on the sectors of a range of positions.\<close>

definition same_secs :: "nat \<Rightarrow> nat \<Rightarrow> nat \<Rightarrow> pblk_rb \<Rightarrow> pblk_rb \<Rightarrow> bool" where
  "same_secs k lo hi rb rb' \<longleftrightarrow> (\<forall>a. lo \<le> a \<and> a < hi \<longrightarrow> pp k rb' a = pp k rb a \<and> dt k rb' a = dt k rb a)"

lemma same_secs_refl [simp]: "same_secs k lo hi rb rb"
  by (simp add: same_secs_def)

lemma same_secs_trans: "same_secs k lo hi a b \<Longrightarrow> same_secs k lo hi b c \<Longrightarrow> same_secs k lo hi a c"
  by (simp add: same_secs_def)

lemma update_l2p_n_ok:
  assumes "rb_core d k g flash newest pb" and "p_l g + n \<le> p_s g"
  shows "\<exists>pb'. pblk_rb_update_l2p_n pb n = Some pb' \<and> rb_core d k (g\<lparr>p_l := p_l g + n\<rparr>) flash newest pb' \<and> pb_frame pb pb' \<and>
    same_secs k (p_s g) (p_m g) (pb_rwb pb) (pb_rwb pb') \<and> pb_rl pb' = pb_rl pb"
  using assms
proof (induction n arbitrary: g pb)
  case 0
  then show ?case
    by simp
next
  case (Suc n)
  then obtain pb1 where 1: "rb_update_l2p_entry pb = Some pb1" "rb_core d k (g\<lparr>p_l := Suc (p_l g)\<rparr>) flash newest pb1" "pb_frame pb pb1"
      "pb_rwb pb1 = rb_retire k (p_l g) (pb_rwb pb)" "pb_rl pb1 = pb_rl pb"
    using retire_ok [OF Suc.prems(1)] by auto
  have "same_secs k (p_s g) (p_m g) (pb_rwb pb) (pb_rwb pb1)"
    using slot_retire [OF core_shape [OF Suc.prems(1)], of "p_l g"] core_pos [OF Suc.prems(1)] Suc.prems(2) by (simp add: same_secs_def 1(4))
  moreover obtain pb2 where 2: "pblk_rb_update_l2p_n pb1 n = Some pb2" "rb_core d k (g\<lparr>p_l := Suc (p_l g) + n\<rparr>) flash newest pb2" "pb_frame pb1 pb2"
      "same_secs k (p_s g) (p_m g) (pb_rwb pb1) (pb_rwb pb2)" "pb_rl pb2 = pb_rl pb1"
    using Suc.IH [OF 1(2)] Suc.prems(2) by auto
  ultimately show ?case
    using 1 2 pb_frame_trans same_secs_trans by auto
qed

section \<open>Changes that keep the sectors\<close>

lemma core_cong:
  assumes core: "rb_core d k g flash newest pb" and sh: "rb_shape k rb'"
    and ix: "rb_l2p_update rb' = rb_l2p_update (pb_rwb pb)" "rb_sync rb' = rb_sync (pb_rwb pb)" "rb_subm rb' = rb_subm (pb_rwb pb)" "rb_mem rb' = rb_mem (pb_rwb pb)"
    and fl: "\<And>a b. p_l g \<le> a \<Longrightarrow> a < p_l g + 2 ^ k \<Longrightarrow> b \<in> {7, 8, 9} \<Longrightarrow> bit (fl k rb' a) b = bit (fl k (pb_rwb pb) a) b"
    and sec: "\<And>a. p_l g \<le> a \<Longrightarrow> a < p_l g + 2 ^ k \<Longrightarrow> lb k rb' a = lb k (pb_rwb pb) a \<and> pp k rb' a = pp k (pb_rwb pb) a \<and> dt k rb' a = dt k (pb_rwb pb) a"
    and pb': "pb_rwb pb' = rb'" "rl_nr_secs (pb_rl pb') = rl_nr_secs (pb_rl pb)" "pb_trans_map pb' = pb_trans_map pb" "length (pb_lines pb') = length (pb_lines pb)"
    and ref: "\<And>i. i < length (pb_lines pb) \<Longrightarrow> pl_ref (pb_lines pb ! i) \<le> pl_ref (pb_lines pb' ! i)"
  shows "rb_core d k g flash newest pb'"
proof -
  note pos = core_pos [OF core]
  have "fl_ok k g n a (slot k rb' a) = fl_ok k g n a (slot k (pb_rwb pb) a)" if "p_l g \<le> a" "a < p_l g + 2 ^ k" for a n
    using fl [OF that] sec [OF that] by (simp add: fl_ok_def)
  then have 1: "rb_flags k g (unat (rl_nr_secs (pb_rl pb))) rb'"
    using core_flags [OF core] by (simp add: rb_flags_def)
  have "filter (\<lambda>a. ln (pp k rb' a) = i) [p_l g ..< p_q g] = filter (\<lambda>a. ln (pp k (pb_rwb pb) a) = i) [p_l g ..< p_q g]" for i
    using sec pos by (intro filter_cong) auto
  then have 2: "rb_ppas k g rb' (pb_lines pb')"
    using core_ppas [OF core] sec pos pb'(4) ref by (fastforce simp: rb_ppas_def)
  have "sec_ok k g rb' flash x p nw" if "sec_ok k g (pb_rwb pb) flash x p nw" for x p nw
    using that
  proof (cases rule: sec_ok_cases)
    case (buffer a)
    then show ?thesis
      using sec [of a] pos by (intro sec_okI(3) [of _ a]) simp_all
  qed (auto intro: sec_okI)
  then have "rb_data k g rb' (pb_trans_map pb) flash newest" if "rb_data k g (pb_rwb pb) (pb_trans_map pb) flash newest"
    using that sec pos by (auto simp: rb_data_def)
  then show ?thesis
    using core 1 2 sh ix pb' by (auto simp: rb_core_def rb_idx_def map_typed_def)
qed

text \<open>One entry gets other flags, without a change of the three that tell who owns it, or other waiting requests.\<close>

lemma core_touch:
  assumes core: "rb_core d k g flash newest pb" and a: "p_l g \<le> a" "a < p_l g + 2 ^ k"
    and e: "re_cacheline e = re_cacheline (slot k (pb_rwb pb) a)" "re_data e = dt k (pb_rwb pb) a"
      "wx_lba (re_w_ctx e) = wx_lba (re_w_ctx (slot k (pb_rwb pb) a))" "wx_ppa (re_w_ctx e) = pp k (pb_rwb pb) a"
      "\<And>b. b \<in> {7, 8, 9} \<Longrightarrow> bit (wx_flags (re_w_ctx e)) b = bit (fl k (pb_rwb pb) a) b"
    and pb': "pb_rwb pb' = (pb_rwb pb)\<lparr>rb_entries := (rb_entries (pb_rwb pb))[a mod 2 ^ k := e], rb_sync_point := v\<rparr>"
      "rl_nr_secs (pb_rl pb') = rl_nr_secs (pb_rl pb)" "pb_trans_map pb' = pb_trans_map pb" "length (pb_lines pb') = length (pb_lines pb)"
    and ref: "\<And>i. i < length (pb_lines pb) \<Longrightarrow> pl_ref (pb_lines pb ! i) \<le> pl_ref (pb_lines pb' ! i)"
  shows "rb_core d k g flash newest pb' \<and> same_secs k (p_l g) (p_l g + 2 ^ k) (pb_rwb pb) (pb_rwb pb')"
proof -
  note sh = core_shape [OF core]
  have slot: "slot k (pb_rwb pb') b = (if a = b then e else slot k (pb_rwb pb) b)" if "p_l g \<le> b" "b < p_l g + 2 ^ k" for b
    using slot_upd [OF sh a that, of e] by (simp add: pb'(1))
  have "rb_shape k (pb_rwb pb')"
    using shape_upd [OF sh, of e a] e(1) shape_D(5) [OF sh, of a] by (simp add: pb'(1))
  then show ?thesis
    using e slot by (intro conjI core_cong [OF core]) (auto simp: pb' ref same_secs_def)
qed

end
