(* ===== verification/Pblk_Insert.thy ===== *)
theory Pblk_Insert
  imports Pblk_Ops
begin

text \<open>Reserving room in the ring buffer and copying sectors into it.\<close>

section \<open>Reserving\<close>

lemma space_words:
  assumes "rb_core d k g flash newest pb"
  defines "rb \<equiv> pb_rwb pb"
  shows "unat (CIRC_SPACE (rb_mem rb) (rb_sync rb) (rb_nr_entries rb)) = p_s g + 2 ^ k - Suc (p_m g)"
    "unat (CIRC_SPACE (rb_mem rb) (rb_l2p_update rb) (rb_nr_entries rb)) = p_l g + 2 ^ k - Suc (p_m g)"
proof -
  note sh = shape_D(2,4) [OF core_shape [OF assms(1)], folded rb_def] and pos = core_pos [OF assms(1)] and ix = core_idx [OF assms(1), folded rb_def]
  have one: "unat (CIRC_SPACE (ring k m) (ring k l) (2 ^ k)) = l + 2 ^ k - Suc m" if "l \<le> m" "m < l + 2 ^ k" for l m
    unfolding ring_space [OF sh(1) that] using that by (intro small_nat [OF sh(1)]) simp
  show "unat (CIRC_SPACE (rb_mem rb) (rb_sync rb) (rb_nr_entries rb)) = p_s g + 2 ^ k - Suc (p_m g)"
      "unat (CIRC_SPACE (rb_mem rb) (rb_l2p_update rb) (rb_nr_entries rb)) = p_l g + 2 ^ k - Suc (p_m g)"
    using sh(2) pos ix one [of "p_s g" "p_m g"] one [of "p_l g" "p_m g"] by (simp_all add: rb_idx_def)
qed

lemma may_write_pos_ok:
  assumes core: "rb_core d k g flash newest pb" and c: "c < 2 ^ 32"
  shows "pblk_rb_may_write_pos pb (of_nat c) = Some (None, pb) \<or>
    (\<exists>pb' l'. pblk_rb_may_write_pos pb (of_nat c) = Some (Some (ring k (p_m g)), pb') \<and> p_l g \<le> l' \<and> l' \<le> p_s g \<and> p_m g + c < l' + 2 ^ k \<and>
      rb_core d k (g\<lparr>p_l := l'\<rparr>) flash newest pb' \<and> pb_frame pb pb' \<and> same_secs k (p_s g) (p_m g) (pb_rwb pb) (pb_rwb pb') \<and> pb_rl pb' = pb_rl pb)"
proof -
  define rb where "rb = pb_rwb pb"
  define sp where "sp = CIRC_SPACE (rb_mem rb) (rb_l2p_update rb) (rb_nr_entries rb)"
  note sw = space_words [OF core, folded rb_def] and pos = core_pos [OF core]
  have usp: "unat sp = p_l g + 2 ^ k - Suc (p_m g)"
    by (simp add: sp_def sw)
  have cw: "unat (of_nat c :: u32) = c"
    using c by (simp add: unat_of_nat)
  have mem: "rb_mem rb = ring k (p_m g)"
    using core_idx [OF core] by (simp add: rb_idx_def rb_def)
  show ?thesis
  proof (cases "p_s g + 2 ^ k - Suc (p_m g) < c")
    case True
    then show ?thesis
      using sw by (simp add: pblk_rb_may_write_pos_def Let_def word_less_nat_alt cw flip: rb_def)
  next
    case room: False
    define n where "n = (if c < unat sp then 0 else c - unat sp)"
    have "pblk_rb_update_l2p pb (of_nat c) (rb_mem rb) = pblk_rb_update_l2p_n pb n"
      by (simp add: pblk_rb_update_l2p_def Let_def word_less_nat_alt cw n_def unat_sub word_le_nat_alt flip: rb_def sp_def)
    moreover have n: "p_l g + n \<le> p_s g" "p_m g + c < p_l g + n + 2 ^ k"
      using room pos by (auto simp: n_def usp)
    then obtain pb' where "pblk_rb_update_l2p_n pb n = Some pb'" "rb_core d k (g\<lparr>p_l := p_l g + n\<rparr>) flash newest pb'" "pb_frame pb pb'"
        "same_secs k (p_s g) (p_m g) (pb_rwb pb) (pb_rwb pb')" "pb_rl pb' = pb_rl pb"
      using update_l2p_n_ok [OF core] by blast
    moreover have "\<not> CIRC_SPACE (rb_mem rb) (rb_sync rb) (rb_nr_entries rb) < of_nat c"
      using room by (simp add: word_less_nat_alt sw cw)
    ultimately show ?thesis
      using n mem by (intro disjI2 exI [of _ pb'] exI [of _ "p_l g + n"]) (simp add: pblk_rb_may_write_pos_def Let_def flip: rb_def)
  qed
qed

text \<open>Moving \<open>mem\<close> over free entries.\<close>

definition reserve_pos :: "nat \<Rightarrow> nat \<Rightarrow> rpos \<Rightarrow> rpos" where
  "reserve_pos k c g = g\<lparr>p_m := p_m g + c, p_T := p_T g \<union> ring k ` {p_m g ..< p_m g + c}\<rparr>"

lemma ring_window: "k < 32 \<Longrightarrow> ring k a = ring k b \<Longrightarrow> l \<le> a \<Longrightarrow> a < l + 2 ^ k \<Longrightarrow> l \<le> b \<Longrightarrow> b < l + 2 ^ k \<Longrightarrow> a = b"
  by (metis unat_ring mod_window)

lemma set_mem_ok:
  assumes core: "rb_core d k g flash newest pb" and c: "p_m g + c < p_l g + 2 ^ k"
  shows "rb_core d k (reserve_pos k c g) flash newest (rb_set_mem (ring k (p_m g + c)) pb)"
proof -
  note pos = core_pos [OF core] and k = shape_D(2) [OF core_shape [OF core]]
  have T: "p_T g \<subseteq> ring k ` {p_r g ..< p_m g}"
    using core_flags [OF core] by (simp add: rb_flags_def)
  have new: "ring k a \<notin> ring k ` {p_m g ..< p_m g + c}" if "p_l g \<le> a" "a < p_m g" for a
    using ring_window [OF k, of a _ "p_l g"] that c pos by fastforce
  have "fl_ok k (reserve_pos k c g) n a e" if "fl_ok k g n a e" "p_l g \<le> a" "a < p_l g + 2 ^ k" for n a e
    using that new [of a] pos by (auto simp: fl_ok_def reserve_pos_def split: if_splits)
  then have 1: "rb_flags k (reserve_pos k c g) (unat (rl_nr_secs (pb_rl pb))) ((pb_rwb pb)\<lparr>rb_mem := ring k (p_m g + c)\<rparr>)"
    using core_flags [OF core] T pos by (auto simp: rb_flags_def reserve_pos_def)
  have "sec_ok k (reserve_pos k c g) ((pb_rwb pb)\<lparr>rb_mem := ring k (p_m g + c)\<rparr>) flash x p nw" if "sec_ok k g (pb_rwb pb) flash x p nw" for x p nw
    using that
  proof (cases rule: sec_ok_cases)
    case (buffer a)
    then show ?thesis
      using new [of a] by (intro sec_okI(3) [of _ a]) (simp_all add: reserve_pos_def)
  qed (auto intro: sec_okI)
  then show ?thesis
    using core 1 c pos by (auto simp: rb_core_def rb_set_mem_def rb_idx_def rb_ppas_def rb_data_def reserve_pos_def)
qed

lemma ring_pred:
  assumes "k < 32" "0 < a"
  shows "(if ring k a = 0 then 2 ^ k - 1 else ring k a - 1) = ring k (a - 1)"
proof -
  have "unat (if ring k a = 0 then 2 ^ k - 1 else ring k a - 1) = (a - 1) mod 2 ^ k"
  proof (cases "a mod 2 ^ k = 0")
    case True
    then have "ring k a = 0"
      using unat_ring [OF assms(1), of a] by (simp add: unat_eq_zero)
    moreover have "unat (2 ^ k :: u32) = 2 ^ k"
      using small_nat [OF assms(1), of "2 ^ k"] by simp
    moreover have "(2 ^ k :: u32) \<noteq> 0"
      using assms(1) by auto
    moreover have "(a - 1) mod 2 ^ k = 2 ^ k - 1"
      using True assms(2) by (metis Suc_pred' diff_Suc_1 mod_Suc nat.distinct(1))
    ultimately show ?thesis
      by (simp add: unat_pred)
  next
    case False
    then have "ring k a \<noteq> 0"
      using unat_ring [OF assms(1), of a] by auto
    moreover have "(a - 1) mod 2 ^ k = a mod 2 ^ k - 1"
      using False assms(2) by (metis Suc_pred' diff_Suc_1 mod_Suc)
    ultimately show ?thesis
      using unat_ring [OF assms(1), of a] by (simp add: unat_pred)
  qed
  then show ?thesis
    by (simp add: word_unat_eq_iff unat_ring [OF assms(1)])
qed

text \<open>The point up to where to flush is the last reserved entry.\<close>

lemma sync_point_ok:
  assumes core: "rb_core d k g flash newest pb" and c: "p_m g + c < p_l g + 2 ^ k"
  shows "\<exists>q rb'. pblk_rb_sync_point_set (pb_rwb pb) bio (ring k (p_m g + c)) = Some (q, rb') \<and>
    rb_core d k g flash newest (pb\<lparr>pb_rwb := rb'\<rparr>) \<and> same_secs k (p_l g) (p_l g + 2 ^ k) (pb_rwb pb) rb'"
proof (cases "p_m g + c = p_b g")
  case True
  then show ?thesis
    using core core_idx [OF core] by (intro exI [of _ False] exI [of _ "pb_rwb pb"]) (simp add: pblk_rb_sync_point_set_def rb_idx_def)
next
  case False
  note pos = core_pos [OF core] and sh = core_shape [OF core] and k = shape_D(2) [OF core_shape [OF core]]
  define a where "a = p_m g + c - 1"
  define e where "e = slot k (pb_rwb pb) a"
  define e' where "e' = e\<lparr>re_w_ctx := (re_w_ctx e)\<lparr>wx_flags := wx_flags (re_w_ctx e) OR PBLK_FLUSH_ENTRY, wx_bios := wx_bios (re_w_ctx e) @ [bio]\<rparr>\<rparr>"
  have a: "p_l g \<le> a" "a < p_l g + 2 ^ k" "0 < p_m g + c"
    using False pos c by (auto simp: a_def)
  have ne: "ring k (p_m g + c) \<noteq> rb_subm (pb_rwb pb)"
    using ring_window [OF k, of "p_m g + c" "p_b g" "p_l g"] False pos c core_idx [OF core] by (auto simp: rb_idx_def)
  have sp: "(if ring k (p_m g + c) = 0 then rb_nr_entries (pb_rwb pb) - 1 else ring k (p_m g + c) - 1) = ring k a"
    unfolding shape_D(4) [OF sh] a_def by (rule ring_pred [OF k a(3)])
  have ix: "unat (ring k a) = a mod 2 ^ k" "a mod 2 ^ k < length (rb_entries (pb_rwb pb))"
    using shape_D(6,7) [OF sh] by blast+
  define rb' where "rb' = (pb_rwb pb)\<lparr>rb_entries := (rb_entries (pb_rwb pb))[a mod 2 ^ k := e'], rb_sync_point := ring k a\<rparr>"
  have "pblk_rb_sync_point_set (pb_rwb pb) bio (ring k (p_m g + c)) = Some (True, rb')"
    using ne ix by (simp add: pblk_rb_sync_point_set_def sp Let_def rb'_def e'_def e_def slot_def)
  moreover have "rb_core d k g flash newest (pb\<lparr>pb_rwb := rb'\<rparr>) \<and> same_secs k (p_l g) (p_l g + 2 ^ k) (pb_rwb pb) (pb_rwb (pb\<lparr>pb_rwb := rb'\<rparr>))"
    by (rule core_touch [OF core a(1,2), of e' _ "ring k a"]) (auto simp: e'_def e_def rb'_def bit_or_iff flag_bits)
  ultimately show ?thesis
    by auto
qed

lemma frame_simps [simp]:
  "pb_frame pb (pb'\<lparr>pb_rwb := rb\<rparr>) = pb_frame pb pb'" "pb_frame pb (rb_set_mem m pb') = pb_frame pb pb'"
  "pb_frame pb (pb'\<lparr>pb_trans_map := tm\<rparr>) = pb_frame pb pb'"
  by (simp_all add: pb_frame_def rb_set_mem_def)

lemma core_rl:
  assumes "rb_core d k g flash newest pb" "rl_nr_secs rl = rl_nr_secs (pb_rl pb)"
  shows "rb_core d k g flash newest (pb\<lparr>pb_rl := rl\<rparr>)"
  using assms by (simp add: rb_core_def)

lemma same_secs_sub: "same_secs k lo hi a b \<Longrightarrow> lo \<le> lo' \<Longrightarrow> hi' \<le> hi \<Longrightarrow> same_secs k lo' hi' a b"
  by (simp add: same_secs_def)

lemma may_write_flush_ok:
  assumes core: "rb_core d k g flash newest pb" and c: "c < 2 ^ 32"
  shows "pblk_rb_may_write_flush pb (of_nat c) bio fua = Some (None, pb) \<or>
    (\<exists>pb' l' r. pblk_rb_may_write_flush pb (of_nat c) bio fua = Some (Some (ring k (p_m g), r), pb') \<and> r \<noteq> NVM_IO_REQUEUE \<and>
      rb_core d k (reserve_pos k c (g\<lparr>p_l := l'\<rparr>)) flash newest pb' \<and> pb_frame pb pb' \<and> same_secs k (p_s g) (p_m g) (pb_rwb pb) (pb_rwb pb') \<and>
      pb_rl pb' = pb_rl pb \<and> p_l g \<le> l' \<and> p_m g + c < l' + 2 ^ k)"
proof (cases "pblk_rb_may_write_pos pb (of_nat c) = Some (None, pb)")
  case True
  then show ?thesis
    by (simp add: pblk_rb_may_write_flush_def)
next
  case False
  then obtain pb1 l' where 1: "pblk_rb_may_write_pos pb (of_nat c) = Some (Some (ring k (p_m g)), pb1)" "p_l g \<le> l'" "l' \<le> p_s g" "p_m g + c < l' + 2 ^ k"
      "rb_core d k (g\<lparr>p_l := l'\<rparr>) flash newest pb1" "pb_frame pb pb1" "same_secs k (p_s g) (p_m g) (pb_rwb pb) (pb_rwb pb1)" "pb_rl pb1 = pb_rl pb"
    using may_write_pos_ok [OF core c] by blast
  note sh = core_shape [OF 1(5)] and pos = core_pos [OF 1(5)]
  have mem: "(ring k (p_m g) + of_nat c) AND (rb_nr_entries (pb_rwb pb1) - 1) = ring k (p_m g + c)"
    using ring_add [OF shape_D(2) [OF sh]] shape_D(4) [OF sh] by simp
  obtain q rb where 2: "(if fua then pblk_rb_sync_point_set (pb_rwb pb1) bio (ring k (p_m g + c)) else Some (False, pb_rwb pb1)) = Some (q, rb)"
      "rb_core d k (g\<lparr>p_l := l'\<rparr>) flash newest (pb1\<lparr>pb_rwb := rb\<rparr>)" "same_secs k l' (l' + 2 ^ k) (pb_rwb pb1) rb"
    using sync_point_ok [OF 1(5), of c bio] 1(4,5) by (cases fua) auto
  have "rb_core d k (reserve_pos k c (g\<lparr>p_l := l'\<rparr>)) flash newest (rb_set_mem (ring k (p_m g + c)) (pb1\<lparr>pb_rwb := rb\<rparr>))"
    using set_mem_ok [OF 2(2), of c] 1(4) by simp
  moreover have "same_secs k (p_s g) (p_m g) (pb_rwb pb) rb"
    using same_secs_trans [OF 1(7) same_secs_sub [OF 2(3)]] 1(3) pos by simp
  then have "same_secs k (p_s g) (p_m g) (pb_rwb pb) (pb_rwb (rb_set_mem (ring k (p_m g + c)) (pb1\<lparr>pb_rwb := rb\<rparr>)))"
    by (simp add: same_secs_def rb_set_mem_def)
  moreover have "pblk_rb_may_write_flush pb (of_nat c) bio fua = Some (Some (ring k (p_m g), if q then NVM_IO_OK else NVM_IO_DONE),
      rb_set_mem (ring k (p_m g + c)) (pb1\<lparr>pb_rwb := rb\<rparr>))"
    using 2(1) by (cases fua) (auto simp: pblk_rb_may_write_flush_def 1(1) mem Let_def)
  ultimately show ?thesis
    using 1 by (intro disjI2 exI [of _ "rb_set_mem (ring k (p_m g + c)) (pb1\<lparr>pb_rwb := rb\<rparr>)"] exI [of _ l'] exI [of _ "if q then NVM_IO_OK else NVM_IO_DONE"])
      (simp add: rb_set_mem_def)
qed

lemma may_write_user_ok:
  assumes core: "rb_core d k g flash newest pb" and c: "c < 2 ^ 32"
  shows "pblk_rb_may_write_user pb bio fua (of_nat c) = Some ((NVM_IO_REQUEUE, 0), pb) \<or>
    (\<exists>pb' l' r. pblk_rb_may_write_user pb bio fua (of_nat c) = Some ((r, ring k (p_m g)), pb') \<and> r \<noteq> NVM_IO_REQUEUE \<and>
      rb_core d k (reserve_pos k c (g\<lparr>p_l := l'\<rparr>)) flash newest pb' \<and> pb_frame pb pb' \<and> same_secs k (p_s g) (p_m g) (pb_rwb pb) (pb_rwb pb') \<and>
      p_l g \<le> l' \<and> p_m g + c < l' + 2 ^ k)"
proof (cases "pblk_rl_user_may_insert (pb_rl pb) (sint (of_nat c :: u32)) \<and> pblk_rb_may_write_flush pb (of_nat c) bio fua \<noteq> Some (None, pb)")
  case False
  then show ?thesis
    by (auto simp: pblk_rb_may_write_user_def)
next
  case True
  then obtain pb1 l' r where 1: "pblk_rb_may_write_flush pb (of_nat c) bio fua = Some (Some (ring k (p_m g), r), pb1)" "r \<noteq> NVM_IO_REQUEUE"
      "rb_core d k (reserve_pos k c (g\<lparr>p_l := l'\<rparr>)) flash newest pb1" "pb_frame pb pb1" "same_secs k (p_s g) (p_m g) (pb_rwb pb) (pb_rwb pb1)"
      "p_l g \<le> l'" "p_m g + c < l' + 2 ^ k"
    using may_write_flush_ok [OF core c] by blast
  define rl where "rl = pblk_rl_user_in (pb_rl pb1) (sint (of_nat c :: u32))"
  have "rl_nr_secs rl = rl_nr_secs (pb_rl pb1)"
    by (simp add: rl_def pblk_rl_user_in_def pblk_rl_kick_u_timer_def)
  then have "rb_core d k (reserve_pos k c (g\<lparr>p_l := l'\<rparr>)) flash newest (pb1\<lparr>pb_rl := rl\<rparr>)" "pb_frame pb (pb1\<lparr>pb_rl := rl\<rparr>)"
    using core_rl [OF 1(3)] 1(4) by (simp_all add: pb_frame_def)
  moreover have "pblk_rb_may_write_user pb bio fua (of_nat c) = Some ((r, ring k (p_m g)), pb1\<lparr>pb_rl := rl\<rparr>)"
    using True 1(1) by (simp add: pblk_rb_may_write_user_def rl_def)
  ultimately show ?thesis
    using 1 by (intro disjI2 exI [of _ "pb1\<lparr>pb_rl := rl\<rparr>"] exI [of _ l'] exI [of _ r]) simp
qed

section \<open>Copying\<close>

text \<open>A reserved index belongs to one position.\<close>

lemma reserved_pos:
  assumes "rb_core d k g flash newest pb" "w \<in> p_T g"
  obtains a where "w = ring k a" "p_r g \<le> a" "a < p_m g"
  using core_flags [OF assms(1)] assms(2) by (auto simp: rb_flags_def)

text \<open>The entry after the copy.\<close>

definition copied :: "u32 \<Rightarrow> u64 \<Rightarrow> page \<Rightarrow> pblk_rb_entry \<Rightarrow> pblk_rb_entry" where
  "copied flags lba data e = e\<lparr>re_data := data, re_w_ctx := (re_w_ctx e)\<lparr>wx_lba := lba, wx_ppa := ADDR_EMPTY, wx_paddr := 0,
     wx_flags := flags OR PBLK_WRITTEN_DATA\<rparr>\<rparr>"

definition rb_copied :: "nat \<Rightarrow> nat \<Rightarrow> u32 \<Rightarrow> u64 \<Rightarrow> page \<Rightarrow> pblk_rb \<Rightarrow> pblk_rb" where
  "rb_copied k a flags lba data rb = rb\<lparr>rb_entries := (rb_entries rb)[a mod 2 ^ k := copied flags lba data (slot k rb a)]\<rparr>"

lemma copy_result:
  assumes core: "rb_core d k g flash newest pb" and a: "ring k a \<in> p_T g" "p_r g \<le> a" "a < p_m g"
    and pos: "pblk_rb_wrap_pos (pb_rwb pb) (bpos + of_nat i) = ring k a"
  shows "cache_copy pb flags bpos lba i data = Some (cl k a, pb\<lparr>pb_rwb := rb_copied k a flags lba data (pb_rwb pb)\<rparr>)"
proof -
  note sh = core_shape [OF core]
  have "bit (fl k (pb_rwb pb) a) 9"
    using core_fl [OF core, of a] a core_pos [OF core] by (simp add: fl_ok_def)
  then show ?thesis
    using slot_get [OF sh, of a] shape_D(5,7) [OF sh] pos
    by (simp add: cache_copy_def pblk_rb_write_entry_def flag_tests rb_copied_def copied_def user_w_ctx_def Let_def)
qed

definition copy_pos :: "nat \<Rightarrow> nat \<Rightarrow> rpos \<Rightarrow> rpos" where
  "copy_pos k a g = g\<lparr>p_T := p_T g - {ring k a}\<rparr>"

lemma slot_copied:
  assumes "rb_core d k g flash newest pb" "p_r g \<le> a" "a < p_m g" "p_l g \<le> b" "b < p_l g + 2 ^ k"
  shows "slot k (rb_copied k a flags lba data (pb_rwb pb)) b = (if a = b then copied flags lba data (slot k (pb_rwb pb) a) else slot k (pb_rwb pb) b)"
  unfolding rb_copied_def using assms core_pos [OF assms(1)] by (intro slot_upd [OF core_shape [OF assms(1)], where l = "p_l g"]) auto

lemma copy_core:
  assumes core: "rb_core d k g flash newest pb" and a: "ring k a \<in> p_T g" "p_r g \<le> a" "a < p_m g"
    and flags: "\<not> bit flags 9" and lba: "lba < rl_nr_secs (pb_rl pb)"
    and pb1: "same_refs (pb\<lparr>pb_rwb := rb_copied k a flags lba data (pb_rwb pb)\<rparr>) pb1"
    and tm: "map_typed k (unat (rl_nr_secs (pb_rl pb))) tm (pb_lines pb)"
    and data: "d \<Longrightarrow> rb_data k (copy_pos k a g) (rb_copied k a flags lba data (pb_rwb pb)) tm flash newest'"
  shows "rb_core d k (copy_pos k a g) flash newest' (pb1\<lparr>pb_trans_map := tm\<rparr>)"
proof -
  define rb' where "rb' = rb_copied k a flags lba data (pb_rwb pb)"
  note sh = core_shape [OF core] and pos = core_pos [OF core] and slot = slot_copied [OF core a(2,3), of _ flags lba data, folded rb'_def]
  have rest: "pb_rwb pb1 = rb'" "pb_rl pb1 = pb_rl pb" "length (pb_lines pb1) = length (pb_lines pb)"
      "\<And>i. i < length (pb_lines pb) \<Longrightarrow> pl_ref (pb_lines pb1 ! i) = pl_ref (pb_lines pb ! i)"
    using same_refsD(1,2,5,8) [OF pb1] by (simp_all add: rb'_def)
  have 1: "rb_shape k rb'"
    using shape_upd [OF sh, of "copied flags lba data (slot k (pb_rwb pb) a)" a] shape_D(5) [OF sh, of a] by (simp add: rb'_def rb_copied_def copied_def)
  have "fl_ok k (copy_pos k a g) n b (slot k rb' b)" if "p_l g \<le> b" "b < p_l g + 2 ^ k" "fl_ok k g n b (slot k (pb_rwb pb) b)" "unat lba < n" for b n
  proof (cases "b = a")
    case True
    then show ?thesis
      using that a pos flags by (simp add: slot fl_ok_def copy_pos_def copied_def bit_or_iff flag_bits)
  next
    case False
    then have "ring k b \<noteq> ring k a"
      using ring_window [OF shape_D(2) [OF sh], of b a "p_l g"] that a pos by auto
    then show ?thesis
      using False that by (simp add: slot fl_ok_def copy_pos_def)
  qed
  then have 2: "rb_flags k (copy_pos k a g) (unat (rl_nr_secs (pb_rl pb))) rb'"
    using core_flags [OF core] lba by (auto simp: rb_flags_def copy_pos_def word_less_nat_alt)
  have "filter (\<lambda>b. ln (pp k rb' b) = i) [p_l g ..< p_q g] = filter (\<lambda>b. ln (pp k (pb_rwb pb) b) = i) [p_l g ..< p_q g]" for i
    using slot pos a by (intro filter_cong) auto
  then have 3: "rb_ppas k (copy_pos k a g) rb' (pb_lines pb1)"
    using core_ppas [OF core] slot pos a rest by (auto simp: rb_ppas_def copy_pos_def)
  have 4: "rb_idx k (copy_pos k a g) rb'"
    using core_idx [OF core] by (simp add: rb_idx_def rb'_def rb_copied_def copy_pos_def)
  show ?thesis
    using 1 2 3 4 data map_typed_lines [OF tm] by (simp add: rb_core_def rest rb'_def)
qed

lemma copy_secs:
  assumes "rb_core d k g flash newest pb" "p_r g \<le> a" "a < p_m g"
  shows "same_secs k (p_l g) (p_r g) (pb_rwb pb) (rb_copied k a flags lba data (pb_rwb pb))"
  using slot_copied [OF assms] core_pos [OF assms(1)] assms(2) by (simp add: same_secs_def)

lemma copy_data:
  assumes core: "rb_core True k g flash newest pb" and a: "ring k a \<in> p_T g" "p_r g \<le> a" "a < p_m g"
    and lba: "lba < rl_nr_secs (pb_rl pb)"
  shows "rb_data k (copy_pos k a g) (rb_copied k a flags lba data (pb_rwb pb)) ((pb_trans_map pb)[unat lba := cl k a]) flash (newest(unat lba \<mapsto> data))"
proof -
  define rb' where "rb' = rb_copied k a flags lba data (pb_rwb pb)"
  note sh = core_shape [OF core] and pos = core_pos [OF core] and slot = slot_copied [OF core a(2,3), of _ flags lba data, folded rb'_def]
  have len: "unat lba < length (pb_trans_map pb)"
    using lba core_map [OF core] by (simp add: map_typed_def word_less_nat_alt)
  have "sec_ok k (copy_pos k a g) rb' flash x ((pb_trans_map pb)[unat lba := cl k a] ! x) ((newest(unat lba \<mapsto> data)) x)" if x: "x < length (pb_trans_map pb)" for x
  proof (cases "x = unat lba")
    case True
    then show ?thesis
      using len a pos slot [of a] by (intro sec_okI(3) [of _ a]) (auto simp: copy_pos_def copied_def)
  next
    case False
    have "sec_ok k g (pb_rwb pb) flash x (pb_trans_map pb ! x) (newest x)"
      using core_data [OF core] x by (simp add: rb_data_def)
    then show ?thesis
    proof (cases rule: sec_ok_cases)
      case (buffer b)
      then have "b \<noteq> a"
        using a(1) by auto
      with buffer show ?thesis
        using False slot [of b] pos by (intro sec_okI(3) [of _ b]) (simp_all add: copy_pos_def)
    qed (use False in \<open>auto intro: sec_okI\<close>)
  qed
  moreover have "flash (pp k rb' b) = Some (dt k rb' b)" if "p_l g \<le> b" "b < p_s g" for b
    using core_data [OF core] that slot [of b] pos a by (simp add: rb_data_def)
  ultimately show ?thesis
    by (simp add: rb_data_def copy_pos_def rb'_def)
qed

end
