(* ===== verification/Pblk_Drain.thy ===== *)
theory Pblk_Drain
  imports Pblk_Insert
begin

text \<open>The write thread and the completion of its requests.\<close>

section \<open>Claiming sectors\<close>

text \<open>The write thread takes whole pages of \<open>mn\<close> sectors at a time, or fewer than one page and pads it.\<close>

definition batch_ok :: "nat \<Rightarrow> pblk_c_ctx \<Rightarrow> bool" where
  "batch_ok mn c \<longleftrightarrow> 0 < unat (cc_nr_valid c) \<and> unat (cc_nr_valid c) + unat (cc_nr_padded c) < 2 ^ 31 \<and>
     (cc_nr_padded c = 0 \<and> mn dvd unat (cc_nr_valid c) \<or> unat (cc_nr_valid c) + unat (cc_nr_padded c) = mn)"

definition pgs_ok :: "nat \<Rightarrow> nat \<Rightarrow> pblk \<Rightarrow> bool" where
  "pgs_ok mn mx pb \<longleftrightarrow> pb_min_write_pgs pb = int mn \<and> pb_max_write_pgs pb = int mx \<and> 0 < mn \<and> mn dvd mx \<and> 0 < mx \<and> mx < 2 ^ 31"

lemma pblk_sint_small: "unat v < 2 ^ 31 \<Longrightarrow> sint v = int (unat v)" for v :: u32
proof -
  assume "unat v < 2 ^ 31"
  then have "int (unat v) < int (2 ^ 31)"
    by (simp only: of_nat_less_iff)
  then have "uint v < 2 ^ 31"
    by simp
  moreover have "- (2 ^ 31) \<le> uint v"
    by (rule order_trans [OF _ uint_ge_0]) simp
  ultimately have "signed_take_bit 31 (uint v) = uint v"
    by (intro signed_take_bit_int_eq_self)
  then show ?thesis
    by (simp add: sint_uint)
qed

lemma pblk_unat_ucast_small: "unat (w :: u64) < 2 ^ 31 \<Longrightarrow> unat (ucast w :: u32) = unat w"
  by (simp add: unsigned_ucast_eq take_bit_nat_eq_self)

lemma calc_secs_ok:
  assumes "pgs_ok mn mx pb" "av < 2 ^ 31" "f \<noteq> 0 \<or> mx \<le> av"
  shows "\<exists>n. pblk_calc_secs pb (of_nat av) f = Some (int n) \<and> 0 < n \<and> n < 2 ^ 31 \<and> (n \<le> av \<and> mn dvd n \<or> av < n \<and> n = mn)"
proof -
  note p = assms(1) [unfolded pgs_ok_def]
  have mn: "mn \<le> mx"
    using p by (auto intro: dvd_imp_le)
  have u: "unat (of_nat av :: u64) = av" "unat (of_nat mn :: u64) = mn" "unat (of_nat mx :: u64) = mx"
    using p assms(2) mn by (simp_all add: unat_of_nat)
  have z: "(of_nat mn :: u64) \<noteq> 0"
    using u(2) p by auto
  have m: "unat (of_nat mn * (of_nat av div of_nat mn) :: u64) = mn * (av div mn)"
  proof -
    have "mn * (av div mn) < 2 ^ 64"
      by (rule le_less_trans [of _ av]) (use assms(2) in simp_all)
    moreover have "unat (of_nat av div of_nat mn :: u64) = av div mn"
      by (simp add: unat_div u)
    ultimately show ?thesis
      by (simp add: unat_word_ariths(2) u)
  qed
  have le: "mn * (av div mn) < 2 ^ 31"
    by (rule le_less_trans [of _ av]) (use assms(2) in simp_all)
  have s: "sint (ucast (of_nat mn * (of_nat av div of_nat mn) :: u64) :: u32) = int (mn * (av div mn))"
  proof -
    define w where "w = (of_nat mn * (of_nat av div of_nat mn) :: u64)"
    have "unat w = mn * (av div mn)"
      using m by (simp only: w_def)
    moreover from this have "unat (ucast w :: u32) = unat w"
      using le by (intro pblk_unat_ucast_small) (simp only:)
    ultimately show ?thesis
      using le pblk_sint_small [of "ucast w"] by (simp only: w_def)
  qed
  consider "mx \<le> av" | "av < mx" "mn \<le> av" | "av < mx" "av < mn" "f \<noteq> 0"
    using assms(3) by fastforce
  then show ?thesis
  proof cases
    case 1
    then show ?thesis
      using p u by (intro exI [of _ mx]) (simp add: pblk_calc_secs_def Let_def word_le_nat_alt)
  next
    case 2
    moreover have "mn * (av div mn) \<le> av" "0 < mn * (av div mn)"
      using 2 p by (auto simp: div_greater_zero_iff)
    ultimately show ?thesis
      using p u z s le by (intro exI [of _ "mn * (av div mn)"]) (simp add: pblk_calc_secs_def Let_def word_le_nat_alt)
  next
    case 3
    then show ?thesis
      using p u mn by (intro exI [of _ mn]) (simp add: pblk_calc_secs_def Let_def word_le_nat_alt)
  qed
qed

lemma read_count_words:
  assumes "rb_core d k g flash newest pb"
  shows "unat (pblk_rb_read_count (pb_rwb pb)) = p_m g - p_b g" "p_m g - p_b g < 2 ^ 31"
proof -
  note sh = core_shape [OF assms] and pos = core_pos [OF assms]
  have "(2 :: nat) ^ k \<le> 2 ^ 30"
    using shape_D(1) [OF sh] by (intro power_increasing) auto
  then show "p_m g - p_b g < 2 ^ 31"
    using pos by simp
  have "pblk_rb_read_count (pb_rwb pb) = of_nat (p_m g - p_b g)"
    using core_idx [OF assms] pos ring_cnt [OF shape_D(2) [OF sh], of "p_b g" "p_m g"] shape_D(4) [OF sh] by (simp add: pblk_rb_read_count_def rb_idx_def)
  then show "unat (pblk_rb_read_count (pb_rwb pb)) = p_m g - p_b g"
    using pos by (simp only:) (rule small_nat [OF shape_D(2) [OF sh]], simp)
qed

lemma read_ctx_ok:
  assumes "0 < n" "n < 2 ^ 31" "av < 2 ^ 31" "0 < av" "n \<le> av \<and> mn dvd n \<or> av < n \<and> n = mn"
  shows "batch_ok mn (rb_read_ctx pos (of_nat n) (of_nat av))" "unat (cc_nr_valid (rb_read_ctx pos (of_nat n) (of_nat av))) = min n av"
    "cc_sentry (rb_read_ctx pos (of_nat n) (of_nat av)) = pos"
proof -
  have u: "unat (of_nat n :: u32) = n" "unat (of_nat av :: u32) = av"
    using assms by (simp_all add: unat_of_nat)
  then have lt: "(of_nat av :: u32) < of_nat n \<longleftrightarrow> av < n"
    by (simp add: word_less_nat_alt)
  have sub: "unat (of_nat n - of_nat av :: u32) = n - av" if "av < n"
    using that u by (simp add: unat_sub word_le_nat_alt)
  show "batch_ok mn (rb_read_ctx pos (of_nat n) (of_nat av))" "unat (cc_nr_valid (rb_read_ctx pos (of_nat n) (of_nat av))) = min n av"
      "cc_sentry (rb_read_ctx pos (of_nat n) (of_nat av)) = pos"
    using assms u lt sub by (cases "av < n"; simp add: batch_ok_def rb_read_ctx_def)+
qed

lemma commit_ok:
  assumes core: "rb_core d k g flash newest pb" and pgs: "pgs_ok mn mx pb"
  shows "submit_commit pb = Some (None, pb) \<or>
    (\<exists>c. submit_commit pb = Some (Some c, pb\<lparr>pb_rwb := (pb_rwb pb)\<lparr>rb_subm := ring k (p_b g + unat (cc_nr_valid c))\<rparr>\<rparr>) \<and>
      cc_sentry c = ring k (p_b g) \<and> batch_ok mn c \<and> p_b g + unat (cc_nr_valid c) \<le> p_m g)"
proof -
  define rb av f where "rb = pb_rwb pb" and "av = p_m g - p_b g" and "f = pblk_rb_sync_point_count rb"
  note sh = core_shape [OF core] and pos = core_pos [OF core]
  have av: "pblk_rb_read_count rb = of_nat av" "av < 2 ^ 31" "unat (of_nat av :: u32) = av" "(ucast (of_nat av :: u32) :: u64) = of_nat av"
  proof -
    show *: "av < 2 ^ 31" and "unat (of_nat av :: u32) = av"
      using read_count_words [OF core] by (simp_all add: av_def unat_of_nat)
    then show "pblk_rb_read_count rb = of_nat av" "(ucast (of_nat av :: u32) :: u64) = of_nat av"
      using read_count_words(1) [OF core] by (simp_all add: rb_def word_unat_eq_iff unat_up av_def unat_of_nat)
  qed
  have mx: "word_of_int (pb_max_write_pgs pb) = (of_nat mx :: u32)" "unat (of_nat mx :: u32) = mx"
    using pgs by (simp_all add: pgs_ok_def unat_of_nat)
  show ?thesis
  proof (cases "av = 0 \<or> f = 0 \<and> av < mx")
    case True
    then show ?thesis
      by (auto simp: submit_commit_def Let_def word_less_nat_alt av mx f_def simp flip: rb_def)
  next
    case False
    then have f: "ucast f \<noteq> (0 :: u64) \<or> mx \<le> av"
      using unat_up [of f] by (metis linorder_not_less unat_0 unat_eq_zero)
    then obtain n where n: "pblk_calc_secs pb (of_nat av) (ucast f) = Some (int n)" "0 < n" "n < 2 ^ 31" "n \<le> av \<and> mn dvd n \<or> av < n \<and> n = mn"
      using calc_secs_ok [OF pgs av(2) f] by blast
    define c where "c = rb_read_ctx (ring k (p_b g)) (of_nat n) (of_nat av)"
    have c: "batch_ok mn c" "unat (cc_nr_valid c) = min n av" "cc_sentry c = ring k (p_b g)"
      using read_ctx_ok [OF n(2,3) av(2) _ n(4), of "ring k (p_b g)"] False by (auto simp: c_def)
    have lt: "(of_nat av :: u32) < of_nat n \<longleftrightarrow> av < n"
      using n(3) av(3) by (simp add: word_less_nat_alt unat_of_nat)
    have "\<not> (of_nat av = (0 :: u32))" "\<not> (f = 0 \<and> (of_nat av :: u32) < of_nat mx)"
      using False av(3) by (auto simp: word_less_nat_alt mx)
    then have "submit_commit pb = Some (Some c, pb\<lparr>pb_rwb := rb\<lparr>rb_subm := ring k (p_b g + min n av)\<rparr>\<rparr>)"
      using core_idx [OF core] shape_D(4) [OF sh] ring_add [OF shape_D(2) [OF sh], of "p_b g"] n(1)
      unfolding submit_commit_def Let_def rb_def [symmetric] f_def [symmetric] av(1) av(4) mx(1) pblk_rb_read_commit_def
      by (simp add: lt c_def rb_idx_def min_def flip: rb_def)
    then show ?thesis
      using c pos by (intro disjI2 exI [of _ c]) (auto simp: rb_def av_def)
  qed
qed

lemma commit_core:
  assumes core: "rb_core d k g flash newest pb" and b: "p_b g \<le> b" "b \<le> p_m g"
  shows "rb_core d k (g\<lparr>p_b := b\<rparr>) flash newest (pb\<lparr>pb_rwb := (pb_rwb pb)\<lparr>rb_subm := ring k b\<rparr>\<rparr>)"
  using core b by (auto simp: rb_core_def rb_idx_def rb_flags_def fl_ok_def rb_ppas_def rb_data_def sec_ok_def)

section \<open>Reading the claimed sectors\<close>

definition taken :: "u32 \<Rightarrow> pblk_rb_entry \<Rightarrow> pblk_rb_entry" where
  "taken fw e = e\<lparr>re_w_ctx := (re_w_ctx e)\<lparr>wx_flags := fw AND NOT PBLK_WRITTEN_DATA OR PBLK_SUBMITTED_ENTRY\<rparr>\<rparr>"

text \<open>The thread waits exactly for the entries that are reserved and not yet copied.\<close>

lemma read_entry_waits:
  assumes core: "rb_core d k g flash newest pb" and a: "p_r g < p_m g"
  shows "rb_read_entry (pb_rwb pb) (ring k (p_r g)) added = None \<longleftrightarrow> ring k (p_r g) \<in> p_T g"
proof -
  note sh = core_shape [OF core] and pos = core_pos [OF core]
  have "rb_read_entry (pb_rwb pb) (ring k (p_r g)) added = None \<longleftrightarrow> \<not> bit (fl k (pb_rwb pb) (p_r g)) 7"
    using slot_get [OF sh, of "p_r g"] shape_D(7) [OF sh, of "p_r g"] by (simp add: rb_read_entry_def flag_tests Let_def guard_def)
  then show ?thesis
    using core_fl [OF core, of "p_r g"] pos a by (auto simp: fl_ok_def split: if_splits)
qed

lemma read_entry_ok:
  assumes core: "rb_core d k g flash newest pb" and a: "p_r g < p_b g" "ring k (p_r g) \<notin> p_T g"
  shows "\<exists>io rb'. rb_read_entry (pb_rwb pb) (ring k (p_r g)) True = Some (io, rb') \<and>
    rb_core d k (g\<lparr>p_r := Suc (p_r g)\<rparr>) flash newest (pb\<lparr>pb_rwb := rb'\<rparr>) \<and> same_secs k (p_l g) (p_l g + 2 ^ k) (pb_rwb pb) rb'"
proof -
  note sh = core_shape [OF core] and pos = core_pos [OF core]
  define r e where "r = p_r g" and "e = slot k (pb_rwb pb) r"
  have f: "bit (wx_flags (re_w_ctx e)) 7" "\<not> bit (wx_flags (re_w_ctx e)) 9" "unat (wx_lba (re_w_ctx e)) < unat (rl_nr_secs (pb_rl pb))"
    using core_fl [OF core, of r] pos a by (auto simp: fl_ok_def e_def r_def)
  obtain io sp fw where rd: "rb_read_entry (pb_rwb pb) (ring k r) True = Some (io, (pb_rwb pb)\<lparr>rb_entries := (rb_entries (pb_rwb pb))[r mod 2 ^ k := taken fw e], rb_sync_point := sp\<rparr>)"
      "\<not> bit fw 9"
    using slot_get [OF sh, of r] shape_D(7) [OF sh, of r] f
    by (auto simp: rb_read_entry_def Let_def flag_tests e_def [symmetric] taken_def bit_and_iff)
  define rb' where "rb' = (pb_rwb pb)\<lparr>rb_entries := (rb_entries (pb_rwb pb))[r mod 2 ^ k := taken fw e], rb_sync_point := sp\<rparr>"
  have w: "p_l g \<le> r" "r < p_l g + 2 ^ k"
    using pos a by (auto simp: r_def)
  have slot: "slot k rb' b = (if r = b then taken fw e else slot k (pb_rwb pb) b)" if "p_l g \<le> b" "b < p_l g + 2 ^ k" for b
    using slot_upd [OF sh w that, of "taken fw e"] by (simp add: rb'_def)
  have 1: "rb_shape k rb'"
    using shape_upd [OF sh, of "taken fw e" r] shape_D(5) [OF sh, of r] by (simp add: rb'_def taken_def e_def)
  have "fl_ok k (g\<lparr>p_r := Suc r\<rparr>) n b (slot k rb' b)" if "p_l g \<le> b" "b < p_l g + 2 ^ k" "fl_ok k g n b (slot k (pb_rwb pb) b)"
      "unat (wx_lba (re_w_ctx e)) < n" for b n
    using that rd(2) by (cases "b = r") (auto simp: slot fl_ok_def r_def [symmetric] taken_def bit_or_iff bit_and_iff bit_not_iff flag_bits)
  moreover have "p_T g \<subseteq> ring k ` {Suc r ..< p_m g}"
    using core_flags [OF core] a(2) by (fastforce simp: rb_flags_def r_def image_iff le_eq_less_or_eq Suc_le_eq)
  ultimately have 2: "rb_flags k (g\<lparr>p_r := Suc r\<rparr>) (unat (rl_nr_secs (pb_rl pb))) rb'"
    using core_flags [OF core] f by (simp add: rb_flags_def)
  have sec: "pp k rb' b = pp k (pb_rwb pb) b \<and> dt k rb' b = dt k (pb_rwb pb) b \<and> lb k rb' b = lb k (pb_rwb pb) b" if "p_l g \<le> b" "b < p_l g + 2 ^ k" for b
    using slot [OF that] by (simp add: taken_def e_def)
  have "filter (\<lambda>b. ln (pp k rb' b) = i) [p_l g ..< p_q g] = filter (\<lambda>b. ln (pp k (pb_rwb pb) b) = i) [p_l g ..< p_q g]" for i
    using sec pos by (intro filter_cong) auto
  then have 3: "rb_ppas k (g\<lparr>p_r := Suc r\<rparr>) rb' (pb_lines pb)"
    using core_ppas [OF core] sec pos by (auto simp: rb_ppas_def)
  have 4: "rb_idx k (g\<lparr>p_r := Suc r\<rparr>) rb'"
    using core_idx [OF core] a by (auto simp: rb_idx_def rb'_def r_def)
  have "sec_ok k (g\<lparr>p_r := Suc r\<rparr>) rb' flash x p nw" if "sec_ok k g (pb_rwb pb) flash x p nw" for x p nw
    using that
  proof (cases rule: sec_ok_cases)
    case (buffer b)
    then show ?thesis
      using sec [of b] pos by (intro sec_okI(3) [of _ b]) simp_all
  qed (auto intro: sec_okI)
  then have 5: "d \<Longrightarrow> rb_data k (g\<lparr>p_r := Suc r\<rparr>) rb' (pb_trans_map pb) flash newest"
    using core_data [OF core] sec pos by (auto simp: rb_data_def)
  have "rb_core d k (g\<lparr>p_r := Suc r\<rparr>) flash newest (pb\<lparr>pb_rwb := rb'\<rparr>)"
    using 1 2 3 4 5 core_map [OF core] by (simp add: rb_core_def)
  then show ?thesis
    using rd(1) sec by (intro exI [of _ io] exI [of _ rb']) (simp add: rb'_def r_def same_secs_def)
qed

end
