(* ===== verification/Pblk_Map.thy ===== *)
theory Pblk_Map
  imports Pblk_Drain
begin

text \<open>The mapping of the sectors the write thread has read to addresses of the device.\<close>

lemma wrap_ring:
  assumes "k < 32" "take_bit k w = ring k base"
  shows "(w + of_nat j) AND (2 ^ k - 1) = ring k (base + j)" "take_bit k (w + of_nat j) = ring k (base + j)"
proof -
  have "take_bit k (w + of_nat j) = take_bit k (take_bit k (of_nat base) + take_bit k (of_nat j :: u32))"
    using word_take_bit_ariths(1) [OF assms(1), of w "of_nat j"] assms(2) by (simp add: ring_def)
  then show "take_bit k (w + of_nat j) = ring k (base + j)"
    by (simp add: word_take_bit_ariths(1) [OF assms(1)] ring_def)
  then show "(w + of_nat j) AND (2 ^ k - 1) = ring k (base + j)"
    by (simp add: and_ring [OF assms(1)])
qed

lemma take_bit_ring [simp]: "take_bit k (ring k a) = ring k a"
  by (simp add: ring_def)

text \<open>The addresses of consecutive sectors have been set, and nothing else of them.\<close>

definition remapped :: "nat \<Rightarrow> nat \<Rightarrow> nat \<Rightarrow> ppa_addr list \<Rightarrow> pblk_rb \<Rightarrow> pblk_rb \<Rightarrow> bool" where
  "remapped k l lo ppas rb rb' \<longleftrightarrow> (\<forall>b. l \<le> b \<and> b < l + 2 ^ k \<longrightarrow> dt k rb' b = dt k rb b \<and>
     pp k rb' b = (if lo \<le> b \<and> b < lo + length ppas then ppas ! (b - lo) else pp k rb b))"

lemma remapped_nil: "same_secs k l (l + 2 ^ k) rb rb' \<Longrightarrow> remapped k l lo [] rb rb'"
  by (auto simp add: remapped_def same_secs_def)

lemma remapped_append:
  assumes "remapped k l lo xs a b" "remapped k l (lo + length xs) ys b c"
  shows "remapped k l lo (xs @ ys) a c"
  using assms by (auto simp: remapped_def nth_append)

lemma kref_get_lines:
  assumes "i < length (pb_lines pb)"
  shows "\<exists>ls. line_kref_get pb i = Some (pb\<lparr>pb_lines := ls\<rparr>) \<and> length ls = length (pb_lines pb) \<and>
    (\<forall>j < length (pb_lines pb). pl_ref (ls ! j) = pl_ref (pb_lines pb ! j) + (if i = j then 1 else 0))"
  using assms by (auto simp: line_kref_get_def put_line_def nth_list_update)

lemma sync_line_lines:
  assumes "i < length (pb_lines pb)"
  shows "\<exists>ls ws. pblk_sync_line pb i = Some (pb\<lparr>pb_lines := ls, pb_close_ws := ws\<rparr>) \<and> length ls = length (pb_lines pb) \<and>
    (\<forall>j < length (pb_lines pb). pl_ref (ls ! j) = pl_ref (pb_lines pb ! j))"
proof -
  define line where "line = (pb_lines pb ! i)\<lparr>pl_left_ssecs := pl_left_ssecs (pb_lines pb ! i) - 1\<rparr>"
  define ls where "ls = (pb_lines pb)[i := line]"
  define ws where "ws = (if pl_left_ssecs line = 0 then pb_close_ws pb @ [i] else pb_close_ws pb)"
  have "pblk_sync_line pb i = Some (pb\<lparr>pb_lines := ls, pb_close_ws := ws\<rparr>)"
    using assms by (simp add: pblk_sync_line_def Let_def put_line_def ls_def ws_def line_def)
  moreover have "\<forall>j < length (pb_lines pb). pl_ref (ls ! j) = pl_ref (pb_lines pb ! j)"
    using assms by (simp add: ls_def line_def nth_list_update)
  ultimately show ?thesis
    by (auto simp: ls_def)
qed

text \<open>A padded sector only changes its line.\<close>

lemma map_pad_ok:
  assumes core: "rb_core d k g flash newest pb" and i: "ln (snd sec) < length (pb_lines pb)"
  shows "\<exists>pb'. map_sector pb sentry j sec False = Some pb' \<and> rb_core d k g flash newest pb' \<and> pb_frame pb pb' \<and> pb_rwb pb' = pb_rwb pb"
proof -
  obtain l1 where 1: "line_kref_get pb (ln (snd sec)) = Some (pb\<lparr>pb_lines := l1\<rparr>)" "length l1 = length (pb_lines pb)"
      "\<forall>j < length (pb_lines pb). pl_ref (l1 ! j) = pl_ref (pb_lines pb ! j) + (if ln (snd sec) = j then 1 else 0)"
    using kref_get_lines [OF i] by blast
  define line where "line = (l1 ! ln (snd sec))\<lparr>pl_invalid_bitmap := insert (fst sec) (pl_invalid_bitmap (l1 ! ln (snd sec))), pl_vsc := pl_vsc (l1 ! ln (snd sec)) - 1\<rparr>"
  define pb2 where "pb2 = pb\<lparr>pb_lines := l1[ln (snd sec) := line]\<rparr>"
  obtain l3 ws where 3: "pblk_sync_line pb2 (ln (snd sec)) = Some (pb2\<lparr>pb_lines := l3, pb_close_ws := ws\<rparr>)" "length l3 = length (pb_lines pb)"
      "\<forall>j < length (pb_lines pb). pl_ref (l3 ! j) = pl_ref (l1[ln (snd sec) := line] ! j)"
    using sync_line_lines [of "ln (snd sec)" pb2] i 1(2) by (auto simp: pb2_def)
  have ref: "pl_ref (pb_lines pb ! j) \<le> pl_ref (l3 ! j)" if "j < length (pb_lines pb)" for j
    using 3(3) 1(2,3) that i by (cases "ln (snd sec) = j") (simp_all add: line_def)
  have "map_sector pb sentry j sec False = Some (pb2\<lparr>pb_lines := l3, pb_close_ws := ws\<rparr>)"
    using 1(1,2) 3(1) i by (simp add: map_sector_def pblk_page_pad_invalidate_def Let_def put_line_def pb2_def line_def)
  moreover have "rb_core d k g flash newest (pb2\<lparr>pb_lines := l3, pb_close_ws := ws\<rparr>)"
    using core_shape [OF core] 3(2) ref by (intro core_cong [OF core, of "pb_rwb pb"]) (simp_all add: pb2_def)
  ultimately show ?thesis
    using 3(2) by (simp add: pb2_def pb_frame_def)
qed

lemma map_valid_ok:
  assumes core: "rb_core d k g flash newest pb" and q: "p_q g < p_r g" and sec: "ln (snd sec) < length (pb_lines pb)" "snd sec \<noteq> ADDR_EMPTY" "\<not> nvm_addr_in_cache (snd sec)"
    and at: "take_bit k sentry = ring k base" "p_q g = base + j"
  shows "\<exists>pb'. map_sector pb sentry j sec True = Some pb' \<and> rb_core d k (g\<lparr>p_q := Suc (p_q g)\<rparr>) flash newest pb' \<and> pb_frame pb pb' \<and>
    remapped k (p_l g) (p_q g) [snd sec] (pb_rwb pb) (pb_rwb pb')"
proof -
  note sh = core_shape [OF core] and pos = core_pos [OF core]
  define q e where "q = p_q g" and "e = slot k (pb_rwb pb) q"
  define e' where "e' = e\<lparr>re_w_ctx := (re_w_ctx e)\<lparr>wx_paddr := fst sec, wx_ppa := snd sec\<rparr>\<rparr>"
  define rb' where "rb' = (pb_rwb pb)\<lparr>rb_entries := (rb_entries (pb_rwb pb))[q mod 2 ^ k := e']\<rparr>"
  obtain ls where ls: "line_kref_get pb (ln (snd sec)) = Some (pb\<lparr>pb_lines := ls\<rparr>)" "length ls = length (pb_lines pb)"
      "\<forall>j < length (pb_lines pb). pl_ref (ls ! j) = pl_ref (pb_lines pb ! j) + (if ln (snd sec) = j then 1 else 0)"
    using kref_get_lines [OF sec(1)] by blast
  have idx: "pblk_rb_w_ctx (pb_rwb pb) (sentry + of_nat j) = q mod 2 ^ k" "q mod 2 ^ k < length (rb_entries (pb_rwb pb))"
    using wrap_ring(1) [OF shape_D(2) [OF sh] at(1), of j] shape_D(4,6,7) [OF sh] by (simp_all add: pblk_rb_w_ctx_def at(2) q_def)
  have res: "map_sector pb sentry j sec True = Some (pb\<lparr>pb_lines := ls, pb_rwb := rb'\<rparr>)"
    using ls(1) idx by (simp add: map_sector_def Let_def rb'_def e'_def e_def slot_def)
  have w: "p_l g \<le> q" "q < p_l g + 2 ^ k"
    using pos q by (auto simp: q_def)
  have slot: "slot k rb' b = (if q = b then e' else slot k (pb_rwb pb) b)" if "p_l g \<le> b" "b < p_l g + 2 ^ k" for b
    using slot_upd [OF sh w that, of e'] by (simp add: rb'_def)
  have 1: "rb_shape k rb'"
    using shape_upd [OF sh, of e' q] shape_D(5) [OF sh, of q] by (simp add: rb'_def e'_def e_def)
  have "fl_ok k (g\<lparr>p_q := Suc q\<rparr>) n b (slot k rb' b)" if "p_l g \<le> b" "b < p_l g + 2 ^ k" "fl_ok k g n b (slot k (pb_rwb pb) b)" for b n
    using that by (simp add: slot fl_ok_def e'_def e_def)
  then have 2: "rb_flags k (g\<lparr>p_q := Suc q\<rparr>) (unat (rl_nr_secs (pb_rl pb))) rb'"
    using core_flags [OF core] by (simp add: rb_flags_def)
  have "filter (\<lambda>b. ln (pp k rb' b) = i) [p_l g ..< q] = filter (\<lambda>b. ln (pp k (pb_rwb pb) b) = i) [p_l g ..< q]" for i
    using slot w by (intro filter_cong) auto
  then have 3: "rb_ppas k (g\<lparr>p_q := Suc q\<rparr>) rb' ls"
    using core_ppas [OF core] slot w ls(2,3) sec by (auto simp: rb_ppas_def less_Suc_eq e'_def q_def)
  have 4: "rb_idx k (g\<lparr>p_q := Suc q\<rparr>) rb'"
    using core_idx [OF core] q by (auto simp: rb_idx_def rb'_def q_def)
  have dt: "dt k rb' b = dt k (pb_rwb pb) b \<and> lb k rb' b = lb k (pb_rwb pb) b" if "p_l g \<le> b" "b < p_l g + 2 ^ k" for b
    using slot [OF that] by (simp add: e'_def e_def)
  have "sec_ok k (g\<lparr>p_q := Suc q\<rparr>) rb' flash x p nw" if "sec_ok k g (pb_rwb pb) flash x p nw" for x p nw
    using that
  proof (cases rule: sec_ok_cases)
    case (buffer b)
    then show ?thesis
      using dt [of b] pos by (intro sec_okI(3) [of _ b]) simp_all
  qed (auto intro: sec_okI)
  then have 5: "d \<Longrightarrow> rb_data k (g\<lparr>p_q := Suc q\<rparr>) rb' (pb_trans_map pb) flash newest"
    using core_data [OF core] slot pos by (auto simp: rb_data_def q_def)
  have "rb_core d k (g\<lparr>p_q := Suc q\<rparr>) flash newest (pb\<lparr>pb_lines := ls, pb_rwb := rb'\<rparr>)"
    using 1 2 3 4 5 map_typed_lines [OF core_map [OF core] ls(2)] by (simp add: rb_core_def)
  then show ?thesis
    using res ls(2) slot by (intro exI [of _ "pb\<lparr>pb_lines := ls, pb_rwb := rb'\<rparr>"]) (auto simp: q_def pb_frame_def remapped_def e'_def e_def)
qed

definition secs_ok :: "pblk \<Rightarrow> (u64 \<times> ppa_addr) list \<Rightarrow> bool" where
  "secs_ok pb secs \<longleftrightarrow> (\<forall>p \<in> snd ` set secs. ln p < length (pb_lines pb) \<and> p \<noteq> ADDR_EMPTY \<and> \<not> nvm_addr_in_cache p)"

lemma map_page_ok:
  assumes "rb_core d k g flash newest pb" "secs_ok pb secs" "take_bit k sentry = ring k base" "j \<le> v \<Longrightarrow> p_q g = base + j" "base + v \<le> p_r g"
  shows "\<exists>pb'. pblk_map_page_data pb sentry j secs v = Some pb' \<and> rb_core d k (g\<lparr>p_q := p_q g + length (take (v - j) secs)\<rparr>) flash newest pb' \<and>
    pb_frame pb pb' \<and> remapped k (p_l g) (p_q g) (map snd (take (v - j) secs)) (pb_rwb pb) (pb_rwb pb')"
  using assms
proof (induction secs arbitrary: pb g j)
  case Nil
  then show ?case
    by (simp add: remapped_nil)
next
  case (Cons sec secs)
  have sec: "ln (snd sec) < length (pb_lines pb)" "snd sec \<noteq> ADDR_EMPTY" "\<not> nvm_addr_in_cache (snd sec)"
    using Cons.prems(2) by (auto simp: secs_ok_def)
  have ok: "secs_ok pb' secs" if "pb_frame pb pb'" for pb'
    using Cons.prems(2) that by (auto simp: secs_ok_def pb_frame_def)
  show ?case
  proof (cases "j < v")
    case True
    then obtain pb1 where 1: "map_sector pb sentry j sec True = Some pb1" "rb_core d k (g\<lparr>p_q := Suc (p_q g)\<rparr>) flash newest pb1" "pb_frame pb pb1"
        "remapped k (p_l g) (p_q g) [snd sec] (pb_rwb pb) (pb_rwb pb1)"
      using map_valid_ok [OF Cons.prems(1) _ sec Cons.prems(3), of j] Cons.prems(4,5) by auto
    obtain pb2 where 2: "pblk_map_page_data pb1 sentry (Suc j) secs v = Some pb2"
        "rb_core d k (g\<lparr>p_q := Suc (p_q g) + length (take (v - Suc j) secs)\<rparr>) flash newest pb2" "pb_frame pb1 pb2"
        "remapped k (p_l g) (Suc (p_q g)) (map snd (take (v - Suc j) secs)) (pb_rwb pb1) (pb_rwb pb2)"
      using Cons.IH [OF 1(2) ok [OF 1(3)] Cons.prems(3), of "Suc j"] Cons.prems(4,5) True by auto
    have tk: "take (v - j) (sec # secs) = sec # take (v - Suc j) secs"
      using True by (metis Suc_diff_Suc take_Suc_Cons)
    show ?thesis
      using 1 2 True remapped_append [OF 1(4), of "map snd (take (v - Suc j) secs)" "pb_rwb pb2"] pb_frame_trans [OF 1(3) 2(3)] unfolding tk by simp
  next
    case False
    obtain pb1 where 1: "map_sector pb sentry j sec False = Some pb1" "rb_core d k g flash newest pb1" "pb_frame pb pb1" "pb_rwb pb1 = pb_rwb pb"
      using map_pad_ok [OF Cons.prems(1) sec(1)] by blast
    obtain pb2 where 2: "pblk_map_page_data pb1 sentry (Suc j) secs v = Some pb2" "rb_core d k g flash newest pb2" "pb_frame pb1 pb2"
        "remapped k (p_l g) (p_q g) [] (pb_rwb pb1) (pb_rwb pb2)"
      using Cons.IH [OF 1(2) ok [OF 1(3)] Cons.prems(3), of "Suc j"] Cons.prems(5) False by auto
    show ?thesis
      using 1 2 False pb_frame_trans [OF 1(3) 2(3)] by simp
  qed
qed

text \<open>A request of whole pages, and one of a page that is padded.\<close>

lemma map_full_pages:
  assumes "rb_core d k g flash newest pb" "secs_ok pb (concat pages)" "p_q g = base + i" "base + v \<le> p_r g"
    "pb_min_write_pgs pb = int mn" "0 < mn" "\<forall>page \<in> set pages. length page = mn" "i + mn * length pages = v"
  shows "\<exists>pb'. pblk_map_rq pb (ring k base) v i pages = Some pb' \<and> rb_core d k (g\<lparr>p_q := base + v\<rparr>) flash newest pb' \<and>
    pb_frame pb pb' \<and> remapped k (p_l g) (p_q g) (map snd (concat pages)) (pb_rwb pb) (pb_rwb pb')"
  using assms
proof (induction pages arbitrary: pb g i)
  case Nil
  then have g: "g\<lparr>p_q := base + v\<rparr> = g"
    by simp
  show ?case
    unfolding g using Nil by (simp add: remapped_nil)
next
  case (Cons page pages)
  note k = shape_D(2) [OF core_shape [OF Cons.prems(1)]]
  have at: "take_bit k (ring k base + of_nat i) = ring k (base + i)"
    by (rule wrap_ring(2) [OF k]) simp
  have le: "i + mn \<le> v" and len: "length page = mn" and ok: "secs_ok pb page"
    using Cons.prems by (auto simp: secs_ok_def)
  obtain pb1 where 1: "pblk_map_page_data pb (ring k base + of_nat i) 0 page mn = Some pb1" "rb_core d k (g\<lparr>p_q := p_q g + mn\<rparr>) flash newest pb1"
      "pb_frame pb pb1" "remapped k (p_l g) (p_q g) (map snd page) (pb_rwb pb) (pb_rwb pb1)"
    using map_page_ok [OF Cons.prems(1) ok at, of 0 mn] Cons.prems(3,4) le len by auto
  have "secs_ok pb1 (concat pages)" "pb_min_write_pgs pb1 = int mn"
    using Cons.prems(2,5) 1(3) by (auto simp: secs_ok_def pb_frame_def)
  then obtain pb2 where 2: "pblk_map_rq pb1 (ring k base) v (i + mn) pages = Some pb2" "rb_core d k (g\<lparr>p_q := base + v\<rparr>) flash newest pb2"
      "pb_frame pb1 pb2" "remapped k (p_l g) (p_q g + mn) (map snd (concat pages)) (pb_rwb pb1) (pb_rwb pb2)"
    using Cons.IH [OF 1(2), of "i + mn"] Cons.prems le by auto
  have "remapped k (p_l g) (p_q g) (map snd (concat (page # pages))) (pb_rwb pb) (pb_rwb pb2)"
    using remapped_append [OF 1(4), of "map snd (concat pages)" "pb_rwb pb2"] 2(4) len by simp
  then show ?case
    using 1 2 le Cons.prems(5,6) pb_frame_trans [OF 1(3) 2(3)] by (simp add: Let_def)
qed

lemma map_rq_ok:
  assumes core: "rb_core d k g flash newest pb" and ok: "secs_ok pb (concat pages)" and v: "v = unat (cc_nr_valid c)" "p_q g + v \<le> p_r g"
    and mn: "pb_min_write_pgs pb = int mn" "0 < mn" "\<forall>page \<in> set pages. length page = mn" and b: "batch_ok mn c"
    and len: "length (concat pages) = v + unat (cc_nr_padded c)"
  shows "\<exists>pb'. pblk_map_rq pb (ring k (p_q g)) v 0 pages = Some pb' \<and> rb_core d k (g\<lparr>p_q := p_q g + v\<rparr>) flash newest pb' \<and>
    pb_frame pb pb' \<and> remapped k (p_l g) (p_q g) (take v (map snd (concat pages))) (pb_rwb pb) (pb_rwb pb')"
proof -
  have total: "length (concat pages) = mn * length pages"
    using mn(3) by (induction pages) auto
  show ?thesis
  proof (cases "cc_nr_padded c = 0")
    case True
    then have "length (concat pages) = v"
      using len by simp
    then show ?thesis
      using map_full_pages [OF core ok, of "p_q g" 0 v mn] v mn total by simp
  next
    case False
    then have one: "v + unat (cc_nr_padded c) = mn" "v < mn"
      using b v unat_gt_0 [of "cc_nr_padded c"] by (auto simp: batch_ok_def)
    then have "length pages = 1"
      using len total mn(2) by simp
    then obtain page where page: "pages = [page]" "length page = mn"
      using mn(3) by (auto simp: length_Suc_conv)
    obtain pb1 where "pblk_map_page_data pb (ring k (p_q g)) 0 page v = Some pb1" "rb_core d k (g\<lparr>p_q := p_q g + v\<rparr>) flash newest pb1"
        "pb_frame pb pb1" "remapped k (p_l g) (p_q g) (map snd (take v page)) (pb_rwb pb) (pb_rwb pb1)"
      using map_page_ok [OF core, of page "ring k (p_q g)" "p_q g" 0 v] ok v(2) page one by (auto simp: min_def)
    then show ?thesis
      using page one mn by (simp add: Let_def take_map)
  qed
qed

lemma finish_ok:
  assumes core: "rb_core d k g flash newest pb" and pgs: "pgs_ok mn mx pb" and ok: "secs_ok pb (concat pages)"
    and c: "batch_ok mn c" "cc_sentry c = ring k (p_q g)" "p_q g + unat (cc_nr_valid c) = p_r g"
    and len: "\<forall>page \<in> set pages. length page = mn" "length (concat pages) = unat (cc_nr_valid c) + unat (cc_nr_padded c)"
  shows "\<exists>pb'. submit_finish pb c io pages = Some (c\<lparr>cc_ppa_list := map snd (concat pages)\<rparr>, pb') \<and> rb_core d k (g\<lparr>p_q := p_r g\<rparr>) flash newest pb' \<and>
    pb_frame pb pb' \<and> remapped k (p_l g) (p_q g) (take (unat (cc_nr_valid c)) (map snd (concat pages))) (pb_rwb pb) (pb_rwb pb')"
proof -
  define pb0 where "pb0 = pb\<lparr>pb_rl := snd (pblk_rl_out (pb_rl pb) (fst io) (snd io))\<rparr>"
  have rl: "rl_nr_secs (snd (pblk_rl_out (pb_rl pb) (fst io) (snd io))) = rl_nr_secs (pb_rl pb)"
    by (simp add: pblk_rl_out_def Let_def)
  then have 0: "rb_core d k g flash newest pb0" "pb_frame pb pb0" "pb_rwb pb0 = pb_rwb pb"
    using core_rl [OF core] by (simp_all add: pb0_def pb_frame_def)
  moreover have "secs_ok pb0 (concat pages)" "pb_min_write_pgs pb0 = int mn" "0 < mn"
    using ok pgs by (auto simp: pb0_def secs_ok_def pgs_ok_def)
  ultimately obtain pb' where "pblk_map_rq pb0 (ring k (p_q g)) (unat (cc_nr_valid c)) 0 pages = Some pb'"
      "rb_core d k (g\<lparr>p_q := p_r g\<rparr>) flash newest pb'" "pb_frame pb0 pb'"
      "remapped k (p_l g) (p_q g) (take (unat (cc_nr_valid c)) (map snd (concat pages))) (pb_rwb pb0) (pb_rwb pb')"
    using map_rq_ok [of d k g flash newest pb0 pages "unat (cc_nr_valid c)" c mn] c len by auto
  then show ?thesis
    using pb_frame_trans [OF 0(2)] 0(3) c(2) by (simp add: submit_finish_def pb0_def [symmetric])
qed

end
