(* ===== verification/Pblk_Complete.thy ===== *)
theory Pblk_Complete
  imports Pblk_Map
begin

text \<open>
  The completion of write requests. The device may finish them in any order; the buffer is released in
  the order of the sectors, and requests that finish early wait on a list.
\<close>

abbreviation nv :: "pblk_c_ctx \<Rightarrow> nat" where "nv c \<equiv> unat (cc_nr_valid c)"

text \<open>What the device stores when it has written a request.\<close>

definition program :: "(ppa_addr \<rightharpoonup> page) \<Rightarrow> pblk_rb \<Rightarrow> pblk_c_ctx \<Rightarrow> (ppa_addr \<rightharpoonup> page)" where
  "program flash rb c = flash ++ map_of (map (\<lambda>i. (cc_ppa_list c ! i, re_data (rb_entries rb ! pblk_rb_w_ctx rb (cc_sentry c + of_nat i)))) [0 ..< nv c])"

section \<open>The end of one request\<close>

lemma end_entries_ok:
  assumes "rb_core d k g flash newest pb" "cc_sentry c = ring k base" "p_l g \<le> base" "base + i + n \<le> p_q g"
    "i + n \<le> length (cc_ppa_list c)" "\<forall>p \<in> set (cc_ppa_list c). ln p < length (pb_lines pb)"
  shows "\<exists>ended pb'. end_w_entries pb c i n = Some (ended, pb') \<and> rb_core d k g flash newest pb' \<and> pb_frame pb pb' \<and>
    same_secs k (p_l g) (p_l g + 2 ^ k) (pb_rwb pb) (pb_rwb pb')"
  using assms
proof (induction n arbitrary: pb i)
  case 0
  then show ?case
    by simp
next
  case (Suc n)
  note core = Suc.prems(1) and sh = core_shape [OF Suc.prems(1)] and pos = core_pos [OF Suc.prems(1)]
  define a where "a = base + i"
  define p where "p = cc_ppa_list c ! i"
  have w: "p_l g \<le> a" "a < p_l g + 2 ^ k" and p: "i < length (cc_ppa_list c)" "ln p < length (pb_lines pb)"
    using Suc.prems pos by (auto simp: a_def p_def)
  have j: "pblk_rb_w_ctx (pb_rwb pb) (cc_sentry c + of_nat i) = a mod 2 ^ k"
    using wrap_ring(1) [OF shape_D(2) [OF sh], of "ring k base" base i] shape_D(4,7) [OF sh] Suc.prems(2) by (simp add: pblk_rb_w_ctx_def a_def)
  obtain ls ws where ls: "pblk_sync_line pb (ln p) = Some (pb\<lparr>pb_lines := ls, pb_close_ws := ws\<rparr>)" "length ls = length (pb_lines pb)"
      "\<forall>j < length (pb_lines pb). pl_ref (ls ! j) = pl_ref (pb_lines pb ! j)"
    using sync_line_lines [OF p(2)] by blast
  define e where "e = slot k (pb_rwb pb) a"
  define e' where "e' = e\<lparr>re_w_ctx := (re_w_ctx e)\<lparr>wx_bios := []\<rparr>\<rparr>"
  define pb1 where "pb1 = pb\<lparr>pb_lines := ls, pb_close_ws := ws, pb_rwb := (pb_rwb pb)\<lparr>rb_entries := (rb_entries (pb_rwb pb))[a mod 2 ^ k := e']\<rparr>\<rparr>"
  have "rb_core d k g flash newest pb1 \<and> same_secs k (p_l g) (p_l g + 2 ^ k) (pb_rwb pb) (pb_rwb pb1)"
    by (rule core_touch [OF core w, of e' pb1 "rb_sync_point (pb_rwb pb)"]) (simp_all add: pb1_def e'_def e_def ls)
  then have 1: "rb_core d k g flash newest pb1" "same_secs k (p_l g) (p_l g + 2 ^ k) (pb_rwb pb) (pb_rwb pb1)" "pb_frame pb pb1"
    using ls(2) by (simp_all add: pb1_def pb_frame_def)
  obtain ended pb' where 2: "end_w_entries pb1 c (Suc i) n = Some (ended, pb')" "rb_core d k g flash newest pb'" "pb_frame pb1 pb'"
      "same_secs k (p_l g) (p_l g + 2 ^ k) (pb_rwb pb1) (pb_rwb pb')"
    using Suc.IH [OF 1(1) Suc.prems(2,3), of "Suc i"] Suc.prems(4-6) ls(2) by (auto simp: pb1_def)
  have "end_w_entries pb c i (Suc n) = Some (wx_bios (re_w_ctx e) @ ended, pb')"
    using 2(1) ls(1) p(1) j slot_get [OF sh, of a] by (simp add: Let_def p_def e_def [symmetric] e'_def [symmetric] pb1_def)
  then show ?case
    using 1 2 pb_frame_trans same_secs_trans by blast
qed

lemma sync_walk_ring: "rb_nr_entries rb = 2 ^ k \<Longrightarrow> k < 32 \<Longrightarrow> rb_sync_walk rb (ring k a) n = ring k (a + n)"
  by (induction n arbitrary: a) (simp_all add: ring_suc)

lemma end_w_bio_ok:
  assumes core: "rb_core d k g flash newest pb" and c: "cc_sentry c = ring k (p_s g)" "p_s g + nv c \<le> p_q g"
      "nv c \<le> length (cc_ppa_list c)" "\<forall>p \<in> set (cc_ppa_list c). ln p < length (pb_lines pb)"
    and fin: "\<And>i. i < nv c \<Longrightarrow> flash (pp k (pb_rwb pb) (p_s g + i)) = Some (dt k (pb_rwb pb) (p_s g + i))"
  shows "\<exists>ended pb'. pblk_end_w_bio pb c = Some (ring k (p_s g + nv c), ended, pb') \<and> rb_core d k (g\<lparr>p_s := p_s g + nv c\<rparr>) flash newest pb' \<and>
    pb_frame pb pb' \<and> same_secs k (p_l g) (p_l g + 2 ^ k) (pb_rwb pb) (pb_rwb pb')"
proof -
  note pos = core_pos [OF core]
  obtain ended pb1 where 1: "end_w_entries pb c 0 (nv c) = Some (ended, pb1)" "rb_core d k g flash newest pb1" "pb_frame pb pb1"
      "same_secs k (p_l g) (p_l g + 2 ^ k) (pb_rwb pb) (pb_rwb pb1)"
    using end_entries_ok [OF core c(1), of 0 "nv c"] c pos by auto
  define s where "s = p_s g + nv c"
  have adv: "pblk_rb_sync_advance (pb_rwb pb1) (cc_nr_valid c) = (ring k s, (pb_rwb pb1)\<lparr>rb_sync := ring k s\<rparr>)"
    using core_idx [OF 1(2)] sync_walk_ring [of "pb_rwb pb1" k "p_s g" "nv c"] shape_D(2,4) [OF core_shape [OF 1(2)]]
    by (simp add: pblk_rb_sync_advance_def Let_def rb_idx_def s_def)
  have fl: "flash (pp k (pb_rwb pb1) a) = Some (dt k (pb_rwb pb1) a)" if "p_s g \<le> a" "a < s" for a
    using fin [of "a - p_s g"] 1(4) that c(2) pos by (simp add: same_secs_def s_def)
  have data: "rb_data k (g\<lparr>p_s := s\<rparr>) ((pb_rwb pb1)\<lparr>rb_sync := ring k s\<rparr>) tm flash newest" if "rb_data k g (pb_rwb pb1) tm flash newest" for tm
  proof -
    have "flash (pp k (pb_rwb pb1) a) = Some (dt k (pb_rwb pb1) a)" if "p_l g \<le> a" "a < s" for a
      using fl [of a] \<open>rb_data k g (pb_rwb pb1) tm flash newest\<close> that by (cases "a < p_s g") (simp_all add: rb_data_def)
    then show ?thesis
      using that by (simp add: rb_data_def sec_ok_def)
  qed
  have "rb_core d k (g\<lparr>p_s := s\<rparr>) flash newest (pb1\<lparr>pb_rwb := (pb_rwb pb1)\<lparr>rb_sync := ring k s\<rparr>\<rparr>)"
    using 1(2) c(2) pos data by (auto simp: rb_core_def rb_idx_def rb_flags_def fl_ok_def rb_ppas_def s_def)
  then show ?thesis
    using 1 adv by (simp add: pblk_end_w_bio_def s_def same_secs_def)
qed

section \<open>The requests in flight\<close>

text \<open>
  The requests from \<open>s\<close> to \<open>q\<close>, oldest first. \<open>D\<close> are the finished ones: their sectors are on the device,
  the sectors of the others are not.
\<close>

fun segs_ok :: "nat \<Rightarrow> pblk_rb \<Rightarrow> (ppa_addr \<rightharpoonup> page) \<Rightarrow> pblk_c_ctx set \<Rightarrow> nat \<Rightarrow> nat \<Rightarrow> pblk_c_ctx list \<Rightarrow> bool" where
  "segs_ok k rb flash D s q [] \<longleftrightarrow> s = q"
| "segs_ok k rb flash D s q (c # cs) \<longleftrightarrow> cc_sentry c = ring k s \<and> 0 < nv c \<and> s + nv c \<le> q \<and> nv c \<le> length (cc_ppa_list c) \<and>
     (\<forall>i < nv c. cc_ppa_list c ! i = pp k rb (s + i) \<and>
        (if c \<in> D then flash (pp k rb (s + i)) = Some (dt k rb (s + i)) else flash (pp k rb (s + i)) = None)) \<and>
     segs_ok k rb flash D (s + nv c) q cs"

lemma segs_cong:
  assumes "segs_ok k rb flash D s q cs" "\<And>a. s \<le> a \<Longrightarrow> a < q \<Longrightarrow> pp k rb' a = pp k rb a \<and> dt k rb' a = dt k rb a \<and> flash' (pp k rb a) = flash (pp k rb a)"
    "\<And>c. c \<in> set cs \<Longrightarrow> c \<in> D' \<longleftrightarrow> c \<in> D"
  shows "segs_ok k rb' flash' D' s q cs"
  using assms
proof (induction cs arbitrary: s)
  case (Cons c cs)
  have "segs_ok k rb' flash' D' (s + nv c) q cs"
    using Cons.prems by (intro Cons.IH) auto
  then show ?case
    using Cons.prems by simp
qed simp

lemma segs_split: "segs_ok k rb flash D s q (xs @ ys) \<longleftrightarrow> (\<exists>m. s \<le> m \<and> m \<le> q \<and> segs_ok k rb flash D s m xs \<and> segs_ok k rb flash D m q ys)"
proof (induction xs arbitrary: s)
  case Nil
  have "s \<le> q" if "segs_ok k rb flash D s q ys"
    using that by (cases ys) auto
  then show ?case
    by auto
next
  case (Cons c xs)
  then show ?case
    by auto (metis add_leD1 order_trans)+
qed

definition seg_at :: "nat \<Rightarrow> pblk_rb \<Rightarrow> (ppa_addr \<rightharpoonup> page) \<Rightarrow> pblk_c_ctx set \<Rightarrow> pblk_c_ctx \<Rightarrow> nat \<Rightarrow> bool" where
  "seg_at k rb flash D c a \<longleftrightarrow> cc_sentry c = ring k a \<and> 0 < nv c \<and> nv c \<le> length (cc_ppa_list c) \<and>
     (\<forall>i < nv c. cc_ppa_list c ! i = pp k rb (a + i) \<and>
        (if c \<in> D then flash (pp k rb (a + i)) = Some (dt k rb (a + i)) else flash (pp k rb (a + i)) = None))"

lemma segs_Cons: "segs_ok k rb flash D s q (c # cs) \<longleftrightarrow> seg_at k rb flash D c s \<and> s + nv c \<le> q \<and> segs_ok k rb flash D (s + nv c) q cs"
  by (auto simp: seg_at_def)

lemma segs_start: "segs_ok k rb flash D s q cs \<Longrightarrow> c \<in> set cs \<Longrightarrow> \<exists>a. s \<le> a \<and> a + nv c \<le> q \<and> seg_at k rb flash D c a"
proof (induction cs arbitrary: s)
  case (Cons c' cs)
  show ?case
  proof (cases "c = c'")
    case True
    then show ?thesis
      using Cons.prems(1) unfolding segs_Cons by blast
  next
    case False
    then obtain a where "s + nv c' \<le> a" "a + nv c \<le> q" "seg_at k rb flash D c a"
      using Cons unfolding segs_Cons by auto
    then show ?thesis
      by (intro exI [of _ a]) simp
  qed
qed simp

text \<open>Every position belongs to a request.\<close>

lemma segs_cover:
  assumes "segs_ok k rb flash D s q cs" "s \<le> a" "a < q"
  shows "pp k rb a \<in> dom flash \<or> (\<exists>c \<in> set cs - D. pp k rb a \<in> set (cc_ppa_list c))"
  using assms
proof (induction cs arbitrary: s)
  case (Cons c cs)
  have seg: "seg_at k rb flash D c s" and rest: "segs_ok k rb flash D (s + nv c) q cs"
    using Cons.prems(1) unfolding segs_Cons by blast+
  show ?case
  proof (cases "a < s + nv c")
    case True
    define i where "i = a - s"
    have i: "i < nv c" "a = s + i" "i < length (cc_ppa_list c)"
      using True Cons.prems(2) seg by (auto simp: i_def seg_at_def)
    show ?thesis
    proof (cases "c \<in> D")
      case True
      then have "flash (pp k rb a) = Some (dt k rb a)"
        using seg i(1) unfolding seg_at_def i(2) by presburger
      then show ?thesis
        by (simp add: domI)
    next
      case False
      moreover have "pp k rb a = cc_ppa_list c ! i"
        using seg i(1) unfolding seg_at_def i(2) by presburger
      ultimately show ?thesis
        using i(3) by (intro disjI2 bexI [of _ c]) simp_all
    qed
  next
    case False
    then show ?thesis
      using Cons.IH [OF rest] Cons.prems(3) by auto
  qed
qed simp

text \<open>In the window of the buffer no two requests start at the same index.\<close>

lemma segs_first:
  assumes "segs_ok k rb flash D s q cs" "k < 32" "q \<le> s + 2 ^ k" "c \<in> set cs" "cc_sentry c = ring k s"
  shows "c = hd cs"
proof (rule ccontr)
  assume "c \<noteq> hd cs"
  then obtain c' cs' where cs: "cs = c' # cs'" "c \<in> set cs'"
    using assms(4) by (cases cs) auto
  then have rest: "segs_ok k rb flash D (s + nv c') q cs'" "0 < nv c'"
    using assms(1) by auto
  obtain a where a: "s + nv c' \<le> a" "a + nv c \<le> q" "cc_sentry c = ring k a" "0 < nv c"
    using segs_start [OF rest(1) cs(2)] by (auto simp: seg_at_def)
  have "ring k s = ring k a"
    using a(3) assms(5) by simp
  then have "s = a"
    using ring_window [OF assms(2), of s a s] a rest(2) assms(3) by auto
  then show False
    using a(1) rest(2) by simp
qed

lemma segs_distinct:
  assumes "segs_ok k rb flash D s q cs" "k < 32" "q \<le> s + 2 ^ k"
  shows "distinct cs"
  using assms
proof (induction cs arbitrary: s)
  case (Cons c cs)
  have rest: "segs_ok k rb flash D (s + nv c) q cs" and c: "cc_sentry c = ring k s" "0 < nv c"
    using Cons.prems(1) by auto
  have "c \<notin> set cs"
  proof
    assume "c \<in> set cs"
    then obtain a where a: "s + nv c \<le> a" "a + nv c \<le> q" "cc_sentry c = ring k a"
      using segs_start [OF rest] by (auto simp: seg_at_def)
    then show False
      using ring_window [OF Cons.prems(2), of s a s] c Cons.prems(3) by auto
  qed
  moreover have "distinct cs"
    using rest Cons.prems(2,3) by (intro Cons.IH [OF rest]) auto
  ultimately show ?case
    by simp
qed simp

lemma segs_append:
  assumes "segs_ok k rb flash D s q cs" "cc_sentry c = ring k q" "0 < nv c" "nv c \<le> length (cc_ppa_list c)"
    "\<And>i. i < nv c \<Longrightarrow> cc_ppa_list c ! i = pp k rb (q + i)" "c \<notin> D" "\<And>i. i < nv c \<Longrightarrow> flash (pp k rb (q + i)) = None"
  shows "segs_ok k rb flash D s (q + nv c) (cs @ [c])"
  using assms by (induction cs arbitrary: s) auto

section \<open>Out of order\<close>

lemma program_result:
  assumes "seg_at k rb flash D c a" "rb_shape k rb" "c \<notin> D" "inj_on (pp k rb) {a ..< a + nv c}"
  shows "program flash rb c p = (if p \<in> pp k rb ` {a ..< a + nv c} then Some (dt k rb (the_inv_into {a ..< a + nv c} (pp k rb) p)) else flash p)"
proof -
  have idx: "pblk_rb_w_ctx rb (ring k a + of_nat i) = (a + i) mod 2 ^ k" for i
    using wrap_ring(1) [OF shape_D(2) [OF assms(2)], of "ring k a" a i] shape_D(4,7) [OF assms(2)] by (simp add: pblk_rb_w_ctx_def)
  have m: "map (\<lambda>i. (cc_ppa_list c ! i, re_data (rb_entries rb ! pblk_rb_w_ctx rb (cc_sentry c + of_nat i)))) [0 ..< nv c] =
      map (\<lambda>b. (pp k rb b, dt k rb b)) [a ..< a + nv c]"
    using assms(1) by (intro nth_equalityI) (simp_all add: idx slot_def seg_at_def)
  have "map_of (map (\<lambda>b. (pp k rb b, dt k rb b)) [a ..< a + nv c]) p =
      (if p \<in> pp k rb ` {a ..< a + nv c} then Some (dt k rb (the_inv_into {a ..< a + nv c} (pp k rb) p)) else None)"
  proof (cases "p \<in> pp k rb ` {a ..< a + nv c}")
    case True
    then obtain b where b: "b \<in> {a ..< a + nv c}" "p = pp k rb b"
      by blast
    have "distinct (map fst (map (\<lambda>b. (pp k rb b, dt k rb b)) [a ..< a + nv c]))"
      using assms(4) by (simp add: distinct_map comp_def)
    then have "map_of (map (\<lambda>b. (pp k rb b, dt k rb b)) [a ..< a + nv c]) p = Some (dt k rb b)"
      using b by (intro map_of_is_SomeI) auto
    then show ?thesis
      using True b the_inv_into_f_f [OF assms(4) b(1)] by simp
  next
    case False
    then show ?thesis
      by (auto simp: map_of_eq_None_iff image_image)
  qed
  then show ?thesis
    unfolding program_def m by (simp add: map_add_def)
qed

lemma program_at:
  assumes "seg_at k rb flash D c a" "rb_shape k rb" "c \<notin> D" "inj_on (pp k rb) {s ..< q}" "s \<le> a" "a + nv c \<le> q" "s \<le> b" "b < q"
  shows "program flash rb c (pp k rb b) = (if a \<le> b \<and> b < a + nv c then Some (dt k rb b) else flash (pp k rb b))"
proof -
  have inj: "inj_on (pp k rb) {a ..< a + nv c}"
    using assms(4-6) by (auto elim: inj_on_subset)
  have "pp k rb b \<in> pp k rb ` {a ..< a + nv c} \<longleftrightarrow> a \<le> b \<and> b < a + nv c"
    using assms(4-8) by (fastforce simp: inj_on_def image_iff)
  then show ?thesis
    using program_result [OF assms(1-3) inj, of "pp k rb b"] the_inv_into_f_f [OF inj, of b] by simp
qed

lemma program_ext:
  assumes "seg_at k rb flash D c a" "rb_shape k rb" "c \<notin> D" "inj_on (pp k rb) {a ..< a + nv c}"
  shows "flash \<subseteq>\<^sub>m program flash rb c"
proof -
  have "flash (pp k rb b) = None" if "b \<in> {a ..< a + nv c}" for b
  proof -
    have "\<forall>i < nv c. flash (pp k rb (a + i)) = None"
      using assms(1,3) by (simp add: seg_at_def)
    then show ?thesis
      using that by (metis atLeastLessThan_iff le_Suc_ex nat_add_left_cancel_less)
  qed
  then show ?thesis
    by (auto simp: map_le_def program_result [OF assms])
qed

lemma core_flash:
  assumes "rb_core d k g flash newest pb" "flash \<subseteq>\<^sub>m flash'"
  shows "rb_core d k g flash' newest pb"
proof -
  have ext: "flash p = Some v \<Longrightarrow> flash' p = Some v" for p v
    using assms(2) by (metis domI map_le_def)
  have "sec_ok k g rb flash' x p nw" if "sec_ok k g rb flash x p nw" for rb x p nw
    using that
  proof (cases rule: sec_ok_cases)
    case device
    then show ?thesis
      using ext by (intro sec_okI(2)) auto
  qed (auto intro: sec_okI)
  then have "rb_data k g rb tm flash' newest" if "rb_data k g rb tm flash newest" for rb tm
    using that ext by (auto simp: rb_data_def)
  then show ?thesis
    using assms(1) by (simp add: rb_core_def)
qed

text \<open>
  The contract of completion: the requests in flight and on the list are the segments from \<open>sync\<close> on, their
  addresses differ, and no request on the list could be ended.
\<close>

definition io_ok :: "nat \<Rightarrow> rpos \<Rightarrow> (ppa_addr \<rightharpoonup> page) \<Rightarrow> pblk_c_ctx list \<Rightarrow> pblk_c_ctx list \<Rightarrow> pblk \<Rightarrow> bool" where
  "io_ok k g flash inflight segs pb \<longleftrightarrow> segs_ok k (pb_rwb pb) flash (set (pb_compl_list pb)) (p_s g) (p_q g) segs \<and>
     set segs = set inflight \<union> set (pb_compl_list pb) \<and> distinct (inflight @ pb_compl_list pb) \<and> inj_on (pp k (pb_rwb pb)) {p_s g ..< p_q g} \<and>
     (\<forall>c \<in> set segs. \<forall>p \<in> set (cc_ppa_list c). ln p < length (pb_lines pb)) \<and> (\<forall>c \<in> set (pb_compl_list pb). cc_sentry c \<noteq> ring k (p_s g))"

lemma core_compl [simp]: "rb_core d k g flash newest (pb\<lparr>pb_compl_list := cs\<rparr>) = rb_core d k g flash newest pb"
  by (simp add: rb_core_def)

text \<open>Ending the oldest request when it has finished.\<close>

lemma end_first_ok:
  assumes core: "rb_core d k g flash newest pb" and segs: "segs_ok k (pb_rwb pb) flash D (p_s g) (p_q g) (c # cs)" and c: "c \<in> D"
    and lines: "\<forall>p \<in> set (cc_ppa_list c). ln p < length (pb_lines pb)"
  shows "\<exists>ended pb'. pblk_end_w_bio pb c = Some (ring k (p_s g + nv c), ended, pb') \<and> rb_core d k (g\<lparr>p_s := p_s g + nv c\<rparr>) flash newest pb' \<and>
    pb_frame pb pb' \<and> same_secs k (p_l g) (p_l g + 2 ^ k) (pb_rwb pb) (pb_rwb pb') \<and> segs_ok k (pb_rwb pb') flash (D - {c}) (p_s g + nv c) (p_q g) cs"
proof -
  note k = shape_D(2) [OF core_shape [OF core]] and pos = core_pos [OF core]
  have "distinct (c # cs)"
    using segs pos by (intro segs_distinct [OF segs k]) simp
  have rest: "segs_ok k (pb_rwb pb) flash D (p_s g + nv c) (p_q g) cs" and at: "seg_at k (pb_rwb pb) flash D c (p_s g)" and le: "p_s g + nv c \<le> p_q g"
    using segs unfolding segs_Cons by blast+
  have fin: "flash (pp k (pb_rwb pb) (p_s g + i)) = Some (dt k (pb_rwb pb) (p_s g + i))" if "i < nv c" for i
    using at c that unfolding seg_at_def by presburger
  have "cc_sentry c = ring k (p_s g)" "nv c \<le> length (cc_ppa_list c)"
    using at unfolding seg_at_def by blast+
  then obtain ended pb' where 1: "pblk_end_w_bio pb c = Some (ring k (p_s g + nv c), ended, pb')" "rb_core d k (g\<lparr>p_s := p_s g + nv c\<rparr>) flash newest pb'"
      "pb_frame pb pb'" "same_secs k (p_l g) (p_l g + 2 ^ k) (pb_rwb pb) (pb_rwb pb')"
    using end_w_bio_ok [OF core _ le _ lines fin] by blast
  have "segs_ok k (pb_rwb pb') flash (D - {c}) (p_s g + nv c) (p_q g) cs"
    using \<open>distinct (c # cs)\<close> 1(4) pos by (intro segs_cong [OF rest]) (auto simp: same_secs_def)
  with 1 show ?thesis
    by blast
qed

lemma complete_queued_ok:
  assumes "rb_core d k g flash newest pb" "segs_ok k (pb_rwb pb) flash (set (pb_compl_list pb)) (p_s g) (p_q g) segs"
    "set (pb_compl_list pb) \<subseteq> set segs" "distinct (pb_compl_list pb)" "\<forall>c \<in> set segs. \<forall>p \<in> set (cc_ppa_list c). ln p < length (pb_lines pb)"
    "length (pb_compl_list pb) \<le> n"
  shows "\<exists>ended pb' s' fin rest. complete_queued n pb (ring k (p_s g)) = Some (ended, pb') \<and> rb_core d k (g\<lparr>p_s := s'\<rparr>) flash newest pb' \<and>
    segs = fin @ rest \<and> set fin \<subseteq> set (pb_compl_list pb) \<and> set (pb_compl_list pb') = set (pb_compl_list pb) - set fin \<and> distinct (pb_compl_list pb') \<and>
    segs_ok k (pb_rwb pb') flash (set (pb_compl_list pb')) s' (p_q g) rest \<and> same_secs k (p_l g) (p_l g + 2 ^ k) (pb_rwb pb) (pb_rwb pb') \<and>
    pb_frame (pb\<lparr>pb_compl_list := pb_compl_list pb'\<rparr>) pb' \<and> (\<forall>c \<in> set (pb_compl_list pb'). cc_sentry c \<noteq> ring k s') \<and> p_s g \<le> s'"
  using assms
proof (induction n arbitrary: pb g segs)
  case 0
  then show ?case
    by - (rule exI [of _ "[]"], rule exI [of _ pb], rule exI [of _ "p_s g"], rule exI [of _ "[]"], rule exI [of _ segs], simp add: pb_frame_def)
next
  case (Suc n)
  note core = Suc.prems(1) and segs = Suc.prems(2)
  note k = shape_D(2) [OF core_shape [OF core]] and pos = core_pos [OF core]
  show ?case
  proof (cases "List.find (\<lambda>c. cc_sentry c = ring k (p_s g)) (pb_compl_list pb)")
    case None
    then have "\<forall>c \<in> set (pb_compl_list pb). cc_sentry c \<noteq> ring k (p_s g)"
      by (auto simp: find_None_iff)
    with None Suc.prems show ?thesis
      by - (rule exI [of _ "[]"], rule exI [of _ pb], rule exI [of _ "p_s g"], rule exI [of _ "[]"], rule exI [of _ segs], simp add: pb_frame_def)
  next
    case (Some c)
    then have c: "c \<in> set (pb_compl_list pb)" "cc_sentry c = ring k (p_s g)"
      by (auto simp: find_Some_iff)
    have "c = hd segs" "segs \<noteq> []"
      using segs_first [OF segs k _ _ c(2)] c(1) Suc.prems(3) pos by auto
    then obtain cs where cs: "segs = c # cs"
      by (cases segs) auto
    have dist: "c \<notin> set cs"
      using segs_distinct [OF segs k] pos by (simp add: cs)
    define pb0 where "pb0 = pb\<lparr>pb_compl_list := remove1 c (pb_compl_list pb)\<rparr>"
    obtain e1 pb1 where 1: "pblk_end_w_bio pb0 c = Some (ring k (p_s g + nv c), e1, pb1)" "rb_core d k (g\<lparr>p_s := p_s g + nv c\<rparr>) flash newest pb1"
        "pb_frame pb0 pb1" "same_secs k (p_l g) (p_l g + 2 ^ k) (pb_rwb pb0) (pb_rwb pb1)"
        "segs_ok k (pb_rwb pb1) flash (set (pb_compl_list pb) - {c}) (p_s g + nv c) (p_q g) cs"
      using end_first_ok [of d k g flash newest pb0 "set (pb_compl_list pb)" c cs] core segs c(1) Suc.prems(5) by (auto simp: pb0_def cs)
    have cl1: "pb_compl_list pb1 = remove1 c (pb_compl_list pb)" "length (pb_lines pb1) = length (pb_lines pb)"
      using 1(3) by (auto simp: pb_frame_def pb0_def)
    have "segs_ok k (pb_rwb pb1) flash (set (pb_compl_list pb1)) (p_s (g\<lparr>p_s := p_s g + nv c\<rparr>)) (p_q (g\<lparr>p_s := p_s g + nv c\<rparr>)) cs"
        "set (pb_compl_list pb1) \<subseteq> set cs" "distinct (pb_compl_list pb1)" "\<forall>c \<in> set cs. \<forall>p \<in> set (cc_ppa_list c). ln p < length (pb_lines pb1)"
        "length (pb_compl_list pb1) \<le> n"
      using 1(5) Suc.prems(3-6) c(1) by (auto simp: cl1 cs length_remove1)
    from Suc.IH [OF 1(2) this]
    obtain e2 pb2 s' fin rest where 2: "complete_queued n pb1 (ring k (p_s g + nv c)) = Some (e2, pb2)" "rb_core d k (g\<lparr>p_s := s'\<rparr>) flash newest pb2"
        "cs = fin @ rest" "set fin \<subseteq> set (pb_compl_list pb1)" "set (pb_compl_list pb2) = set (pb_compl_list pb1) - set fin" "distinct (pb_compl_list pb2)"
        "segs_ok k (pb_rwb pb2) flash (set (pb_compl_list pb2)) s' (p_q g) rest" "same_secs k (p_l g) (p_l g + 2 ^ k) (pb_rwb pb1) (pb_rwb pb2)"
        "pb_frame (pb1\<lparr>pb_compl_list := pb_compl_list pb2\<rparr>) pb2" "\<forall>c \<in> set (pb_compl_list pb2). cc_sentry c \<noteq> ring k s'" "p_s g + nv c \<le> s'"
      by auto
    have "complete_queued (Suc n) pb (ring k (p_s g)) = Some (e1 @ e2, pb2)"
      using Some 1(1) 2(1) by (simp add: pblk_end_queued_w_bio_def pb0_def)
    moreover have "same_secs k (p_l g) (p_l g + 2 ^ k) (pb_rwb pb) (pb_rwb pb2)"
      using same_secs_trans [OF 1(4) 2(8)] by (simp add: pb0_def)
    moreover have "pb_frame (pb\<lparr>pb_compl_list := pb_compl_list pb2\<rparr>) pb2"
      using 1(3) 2(9) by (simp add: pb_frame_def pb0_def)
    ultimately show ?thesis
      using 2 c(1) Suc.prems(4) by - (rule exI [of _ "e1 @ e2"], rule exI [of _ pb2], rule exI [of _ s'], rule exI [of _ "c # fin"], rule exI [of _ rest], auto simp: cl1 cs)
  qed
qed

text \<open>The device writes a request in flight: its segment turns into a finished one.\<close>

lemma program_segs:
  assumes sh: "rb_shape k rb" and segs: "segs_ok k rb flash D s q segs" and c: "c \<in> set segs" "c \<notin> D"
    and inj: "inj_on (pp k rb) {s ..< q}" and q: "q \<le> s + 2 ^ k"
  shows "segs_ok k rb (program flash rb c) (insert c D) s q segs" "flash \<subseteq>\<^sub>m program flash rb c"
proof -
  obtain xs ys where xy: "segs = xs @ c # ys"
    using c(1) by (meson split_list)
  have d: "c \<notin> set xs" "c \<notin> set ys"
    using segs_distinct [OF segs shape_D(2) [OF sh] q] by (simp_all add: xy)
  obtain a where a: "s \<le> a" "segs_ok k rb flash D s a xs" "seg_at k rb flash D c a" "a + nv c \<le> q" "segs_ok k rb flash D (a + nv c) q ys"
    using segs unfolding xy segs_split segs_Cons by blast
  note at = program_at [OF a(3) sh c(2) inj a(1,4)]
  have 1: "segs_ok k rb (program flash rb c) (insert c D) s a xs"
    using a d at by (intro segs_cong [OF a(2)]) auto
  have 2: "segs_ok k rb (program flash rb c) (insert c D) (a + nv c) q ys"
    using a d at by (intro segs_cong [OF a(5)]) auto
  have "program flash rb c (pp k rb (a + i)) = Some (dt k rb (a + i))" if "i < nv c" for i
    using at [of "a + i"] that a(1,4) by simp
  then have "seg_at k rb (program flash rb c) (insert c D) c a"
    using a(3) unfolding seg_at_def by auto
  with 1 2 show "segs_ok k rb (program flash rb c) (insert c D) s q segs"
    unfolding xy segs_split segs_Cons using a by auto
  have "inj_on (pp k rb) {a ..< a + nv c}"
    using inj a by (auto elim: inj_on_subset)
  then show "flash \<subseteq>\<^sub>m program flash rb c"
    using program_ext [OF a(3) sh c(2)] by blast
qed

lemma pblk_complete_ok:
  assumes core: "rb_core d k g flash newest pb" and io: "io_ok k g flash inflight segs pb" and c: "c \<in> set inflight"
  defines "flash' \<equiv> program flash (pb_rwb pb) c"
  shows "\<exists>ended pb' s' segs'. pblk_complete_write pb c = Some (ended, pb') \<and> rb_core d k (g\<lparr>p_s := s'\<rparr>) flash' newest pb' \<and>
    io_ok k (g\<lparr>p_s := s'\<rparr>) flash' (remove1 c inflight) segs' pb' \<and> pb_frame (pb\<lparr>pb_compl_list := pb_compl_list pb'\<rparr>) pb' \<and> p_s g \<le> s'"
proof -
  note sh = core_shape [OF core] and pos = core_pos [OF core] and i = io [unfolded io_ok_def]
  define D where "D = set (pb_compl_list pb)"
  have segs: "segs_ok k (pb_rwb pb) flash D (p_s g) (p_q g) segs" and inj: "inj_on (pp k (pb_rwb pb)) {p_s g ..< p_q g}"
      and all: "set segs = set inflight \<union> D" and dist: "distinct (inflight @ pb_compl_list pb)"
      and lines: "\<forall>c \<in> set segs. \<forall>p \<in> set (cc_ppa_list c). ln p < length (pb_lines pb)" and wait: "\<forall>c \<in> D. cc_sentry c \<noteq> ring k (p_s g)"
    using i by (simp_all add: D_def)
  have cD: "c \<in> set segs" "c \<notin> D"
    using c all dist by (auto simp: D_def)
  have segs': "segs_ok k (pb_rwb pb) flash' (insert c D) (p_s g) (p_q g) segs" and ext: "flash \<subseteq>\<^sub>m flash'"
    unfolding flash'_def using pos by (intro program_segs [OF sh segs cD inj]; simp)+
  have core': "rb_core d k g flash' newest pb"
    using core_flash [OF core ext] .
  have sync: "rb_sync (pb_rwb pb) = ring k (p_s g)"
    using core_idx [OF core] by (simp add: rb_idx_def)
  show ?thesis
  proof (cases "cc_sentry c = ring k (p_s g)")
    case True
    have "c = hd segs" "segs \<noteq> []"
      using segs_first [OF segs shape_D(2) [OF sh] _ cD(1) True] cD(1) pos by auto
    then obtain cs where cs: "segs = c # cs"
      by (cases segs) auto
    have ncs: "c \<notin> set cs"
      using segs_distinct [OF segs shape_D(2) [OF sh]] pos by (simp add: cs)
    obtain e1 pb1 where 1: "pblk_end_w_bio pb c = Some (ring k (p_s g + nv c), e1, pb1)" "rb_core d k (g\<lparr>p_s := p_s g + nv c\<rparr>) flash' newest pb1"
        "pb_frame pb pb1" "same_secs k (p_l g) (p_l g + 2 ^ k) (pb_rwb pb) (pb_rwb pb1)" "segs_ok k (pb_rwb pb1) flash' (insert c D - {c}) (p_s g + nv c) (p_q g) cs"
      using end_first_ok [OF core' segs' [unfolded cs]] lines by (auto simp: cs)
    have cl: "pb_compl_list pb1 = pb_compl_list pb" "length (pb_lines pb1) = length (pb_lines pb)" "insert c D - {c} = D"
      using 1(3) cD(2) by (auto simp: pb_frame_def)
    have "segs_ok k (pb_rwb pb1) flash' (set (pb_compl_list pb1)) (p_s (g\<lparr>p_s := p_s g + nv c\<rparr>)) (p_q (g\<lparr>p_s := p_s g + nv c\<rparr>)) cs"
        "set (pb_compl_list pb1) \<subseteq> set cs" "distinct (pb_compl_list pb1)" "\<forall>c \<in> set cs. \<forall>p \<in> set (cc_ppa_list c). ln p < length (pb_lines pb1)"
        "length (pb_compl_list pb1) \<le> length (pb_compl_list pb1)"
      using 1(5) all cD dist lines by (auto simp: cl cs D_def)
    from complete_queued_ok [OF 1(2) this]
    obtain e2 pb2 s' fin rest where 2: "complete_queued (length (pb_compl_list pb1)) pb1 (ring k (p_s g + nv c)) = Some (e2, pb2)" "rb_core d k (g\<lparr>p_s := s'\<rparr>) flash' newest pb2"
        "cs = fin @ rest" "set fin \<subseteq> D" "set (pb_compl_list pb2) = D - set fin" "distinct (pb_compl_list pb2)"
        "segs_ok k (pb_rwb pb2) flash' (set (pb_compl_list pb2)) s' (p_q g) rest" "same_secs k (p_l g) (p_l g + 2 ^ k) (pb_rwb pb1) (pb_rwb pb2)"
        "pb_frame (pb1\<lparr>pb_compl_list := pb_compl_list pb2\<rparr>) pb2" "\<forall>c \<in> set (pb_compl_list pb2). cc_sentry c \<noteq> ring k s'" "p_s g + nv c \<le> s'"
      by (auto simp: cl D_def)
    have res: "pblk_complete_write pb c = Some (e1 @ e2, pb2)"
      using True sync 1(1) 2(1) by (simp add: pblk_complete_write_def)
    have secs: "same_secs k (p_l g) (p_l g + 2 ^ k) (pb_rwb pb) (pb_rwb pb2)"
      using same_secs_trans [OF 1(4) 2(8)] .
    have fr: "pb_frame (pb\<lparr>pb_compl_list := pb_compl_list pb2\<rparr>) pb2" "length (pb_lines pb2) = length (pb_lines pb)"
      using 1(3) 2(9) by (simp_all add: pb_frame_def)
    have "set rest = set (remove1 c inflight) \<union> set (pb_compl_list pb2)"
    proof -
      have "distinct (c # fin @ rest)"
        using segs_distinct [OF segs shape_D(2) [OF sh]] pos by (simp add: cs 2(3))
      then have "set rest = set segs - insert c (set fin)"
        by (auto simp: cs 2(3))
      then show ?thesis
        using all 2(4,5) dist cD by (auto simp: D_def)
    qed
    moreover have "distinct (remove1 c inflight @ pb_compl_list pb2)"
      using dist 2(5,6) by (auto simp: D_def distinct_remove1 dest: notin_set_remove1 in_set_remove1 set_remove1_subset [THEN subsetD])
    moreover have "inj_on (pp k (pb_rwb pb2)) {s' ..< p_q g}"
    proof (rule inj_onI)
      fix x y
      assume xy: "x \<in> {s' ..< p_q g}" "y \<in> {s' ..< p_q g}" "pp k (pb_rwb pb2) x = pp k (pb_rwb pb2) y"
      then have "pp k (pb_rwb pb) x = pp k (pb_rwb pb) y"
        using secs pos 2(11) by (simp add: same_secs_def)
      then show "x = y"
        using xy 2(11) by (intro inj_onD [OF inj]) simp_all
    qed
    moreover have "\<forall>c \<in> set rest. \<forall>p \<in> set (cc_ppa_list c). ln p < length (pb_lines pb2)"
      using lines fr(2) by (auto simp: cs 2(3))
    ultimately have "io_ok k (g\<lparr>p_s := s'\<rparr>) flash' (remove1 c inflight) rest pb2"
      using 2(7,10) by (simp add: io_ok_def)
    then show ?thesis
      using res 2(2,11) fr(1) by (meson add_leD1)
  next
    case False
    then have res: "pblk_complete_write pb c = Some ([], pb\<lparr>pb_compl_list := pb_compl_list pb @ [c]\<rparr>)"
      using sync by (simp add: pblk_complete_write_def)
    have "io_ok k g flash' (remove1 c inflight) segs (pb\<lparr>pb_compl_list := pb_compl_list pb @ [c]\<rparr>)"
      using segs' inj lines wait False all dist c by (auto simp: io_ok_def D_def)
    then show ?thesis
      using res core' by (intro exI [of _ "[]"] exI [of _ "pb\<lparr>pb_compl_list := pb_compl_list pb @ [c]\<rparr>"] exI [of _ "p_s g"] exI [of _ segs]) (simp add: pb_frame_def)
  qed
qed

end
