(* ===== verification/Pblk_System.thy ===== *)
theory Pblk_System
  imports Pblk_Complete
begin

text \<open>
  The write buffer at work: requests that reserve room and copy their sectors, the write thread that
  reads, maps and submits them, the device that completes requests in any order, discards and the
  synchronisation of the map, all interleaved. A step runs what the code runs under a lock or between
  two accesses to shared flags. The garbage collector does not run.
\<close>

section \<open>States and steps\<close>

text \<open>
  A request that is copying its sectors: where it starts in the buffer and on the disk, how many sectors
  it has copied, those it still has, and the update of the map that is due for the last one.
\<close>

record wtask =
  tk_bpos :: u32
  tk_lba :: u64
  tk_i :: nat
  tk_rest :: "page list"
  tk_pend :: "(u64 \<times> ppa_addr \<times> page) option"

datatype wthread = W_idle | W_read pblk_c_ctx u32 "int \<times> int" nat

text \<open>\<open>ps_newest\<close> observes the data last written to every sector.\<close>

record psys =
  ps_pb :: pblk
  ps_tasks :: "wtask list"
  ps_wr :: wthread
  ps_inflight :: "pblk_c_ctx list"
  ps_flash :: "ppa_addr \<rightharpoonup> page"
  ps_newest :: "nat \<rightharpoonup> page"

text \<open>
  What the line allocator hands out for a request: whole pages of sectors of the device that have not
  been written since they were erased and are not being written.
\<close>

definition alloc_ok :: "psys \<Rightarrow> pblk_c_ctx \<Rightarrow> (u64 \<times> ppa_addr) list list \<Rightarrow> bool" where
  "alloc_ok s c pages \<longleftrightarrow> (\<forall>page \<in> set pages. length page = nat (pb_min_write_pgs (ps_pb s))) \<and>
     length (concat pages) = unat (cc_nr_valid c) + unat (cc_nr_padded c) \<and> distinct (map snd (concat pages)) \<and> secs_ok (ps_pb s) (concat pages) \<and>
     (\<forall>p \<in> snd ` set (concat pages). ps_flash s p = None \<and> (\<forall>c' \<in> set (ps_inflight s). p \<notin> set (cc_ppa_list c')))"

definition copy_of :: "pblk \<Rightarrow> wtask \<Rightarrow> page \<Rightarrow> (ppa_addr \<times> pblk) option" where
  "copy_of pb t data = cache_copy pb PBLK_IOTYPE_USER (tk_bpos t) (tk_lba t + of_nat (tk_i t)) (tk_i t) data"

text \<open>When \<open>prompt\<close> holds, the map is updated before anyone else runs.\<close>

inductive pstep :: "bool \<Rightarrow> psys \<Rightarrow> psys \<Rightarrow> bool" for prompt :: bool where
  insert: "pblk_rb_may_write_user (ps_pb s) bio fua (of_nat (length data)) = Some ((ret, bpos), pb) \<Longrightarrow> length data < 2 ^ 31 \<Longrightarrow>
    unat lba + length data \<le> unat (rl_nr_secs (pb_rl (ps_pb s))) \<Longrightarrow>
    pstep prompt s (s\<lparr>ps_pb := pb, ps_tasks := (if ret = NVM_IO_REQUEUE then ps_tasks s
      else ps_tasks s @ [\<lparr>tk_bpos = bpos, tk_lba = lba, tk_i = 0, tk_rest = data, tk_pend = None\<rparr>])\<rparr>)"
| copy: "\<not> prompt \<Longrightarrow> j < length (ps_tasks s) \<Longrightarrow> t = ps_tasks s ! j \<Longrightarrow> tk_pend t = None \<Longrightarrow> tk_rest t = d # ds \<Longrightarrow>
    copy_of (ps_pb s) t d = Some (ppa, pb) \<Longrightarrow>
    pstep prompt s (s\<lparr>ps_pb := pb, ps_tasks := (ps_tasks s)[j := t\<lparr>tk_i := Suc (tk_i t), tk_rest := ds, tk_pend := Some (tk_lba t + of_nat (tk_i t), ppa, d)\<rparr>]\<rparr>)"
| publish: "j < length (ps_tasks s) \<Longrightarrow> t = ps_tasks s ! j \<Longrightarrow> tk_pend t = Some (lba, ppa, d) \<Longrightarrow>
    pblk_update_map_cache (ps_pb s) lba ppa = Some pb \<Longrightarrow>
    pstep prompt s (s\<lparr>ps_pb := pb, ps_tasks := (ps_tasks s)[j := t\<lparr>tk_pend := None\<rparr>], ps_newest := (ps_newest s)(unat lba \<mapsto> d)\<rparr>)"
| copy_publish: "j < length (ps_tasks s) \<Longrightarrow> t = ps_tasks s ! j \<Longrightarrow> tk_pend t = None \<Longrightarrow> tk_rest t = d # ds \<Longrightarrow>
    copy_of (ps_pb s) t d = Some (ppa, pb) \<Longrightarrow> pblk_update_map_cache pb (tk_lba t + of_nat (tk_i t)) ppa = Some pb' \<Longrightarrow>
    pstep prompt s (s\<lparr>ps_pb := pb', ps_tasks := (ps_tasks s)[j := t\<lparr>tk_i := Suc (tk_i t), tk_rest := ds\<rparr>],
      ps_newest := (ps_newest s)(unat (tk_lba t + of_nat (tk_i t)) \<mapsto> d)\<rparr>)"
| commit: "ps_wr s = W_idle \<Longrightarrow> submit_commit (ps_pb s) = Some (Some c, pb) \<Longrightarrow>
    pstep prompt s (s\<lparr>ps_pb := pb, ps_wr := W_read c (cc_sentry c) (0, 0) (unat (cc_nr_valid c))\<rparr>)"
| read: "ps_wr s = W_read c pos io (Suc n) \<Longrightarrow> rb_read_entry (pb_rwb (ps_pb s)) pos True = Some (d, rb) \<Longrightarrow>
    pstep prompt s (s\<lparr>ps_pb := (ps_pb s)\<lparr>pb_rwb := rb\<rparr>,
      ps_wr := W_read c ((pos + 1) AND (rb_nr_entries (pb_rwb (ps_pb s)) - 1)) (fst io + fst d, snd io + snd d) n\<rparr>)"
| finish: "ps_wr s = W_read c pos io 0 \<Longrightarrow> alloc_ok s c pages \<Longrightarrow> submit_finish (ps_pb s) c io pages = Some (c', pb) \<Longrightarrow>
    pstep prompt s (s\<lparr>ps_pb := pb, ps_wr := W_idle, ps_inflight := ps_inflight s @ [c']\<rparr>)"
| complete: "c \<in> set (ps_inflight s) \<Longrightarrow> pblk_complete_write (ps_pb s) c = Some (ended, pb) \<Longrightarrow>
    pstep prompt s (s\<lparr>ps_pb := pb, ps_inflight := remove1 c (ps_inflight s), ps_flash := program (ps_flash s) (pb_rwb (ps_pb s)) c\<rparr>)"
| sync: "pblk_rb_sync_l2p (ps_pb s) = Some pb \<Longrightarrow> pstep prompt s (s\<lparr>ps_pb := pb\<rparr>)"
| discard: "pblk_invalidate_range (ps_pb s) lba n = Some pb \<Longrightarrow> unat lba + unat n \<le> unat (rl_nr_secs (pb_rl (ps_pb s))) \<Longrightarrow>
    pstep prompt s (s\<lparr>ps_pb := pb, ps_newest := (\<lambda>x. if unat lba \<le> x \<and> x < unat lba + unat n then None else ps_newest s x)\<rparr>)"

section \<open>The invariant\<close>

text \<open>The indices a request still has to fill.\<close>

definition task_idx :: "nat \<Rightarrow> wtask \<Rightarrow> u32 list" where
  "task_idx k t = map (\<lambda>j. (tk_bpos t + of_nat (tk_i t + j)) AND (2 ^ k - 1)) [0 ..< length (tk_rest t)]"

definition task_ok :: "bool \<Rightarrow> nat \<Rightarrow> u64 \<Rightarrow> wtask \<Rightarrow> bool" where
  "task_ok prompt k nr t \<longleftrightarrow> (\<forall>j < length (tk_rest t). tk_lba t + of_nat (tk_i t + j) < nr) \<and>
     (case tk_pend t of None \<Rightarrow> True | Some (lba, ppa, d) \<Rightarrow> \<not> prompt \<and> lba < nr \<and> (\<exists>a. ppa = cl k a))"

definition tasks_ok :: "bool \<Rightarrow> nat \<Rightarrow> rpos \<Rightarrow> u64 \<Rightarrow> wtask list \<Rightarrow> bool" where
  "tasks_ok prompt k g nr ts \<longleftrightarrow> p_T g = set (concat (map (task_idx k) ts)) \<and> distinct (concat (map (task_idx k) ts)) \<and> (\<forall>t \<in> set ts. task_ok prompt k nr t)"

fun wr_ok :: "nat \<Rightarrow> nat \<Rightarrow> rpos \<Rightarrow> wthread \<Rightarrow> bool" where
  "wr_ok k mn g W_idle \<longleftrightarrow> p_q g = p_r g \<and> p_r g = p_b g"
| "wr_ok k mn g (W_read c pos io n) \<longleftrightarrow> pos = ring k (p_r g) \<and> p_r g + n = p_b g \<and> cc_sentry c = ring k (p_q g) \<and> p_q g + nv c = p_b g \<and> batch_ok mn c"

definition sys_at :: "bool \<Rightarrow> nat \<Rightarrow> nat \<Rightarrow> nat \<Rightarrow> rpos \<Rightarrow> pblk_c_ctx list \<Rightarrow> psys \<Rightarrow> bool" where
  "sys_at prompt k mn mx g segs s \<longleftrightarrow> rb_core prompt k g (ps_flash s) (ps_newest s) (ps_pb s) \<and> io_ok k g (ps_flash s) (ps_inflight s) segs (ps_pb s) \<and>
     pgs_ok mn mx (ps_pb s) \<and> tasks_ok prompt k g (rl_nr_secs (pb_rl (ps_pb s))) (ps_tasks s) \<and> wr_ok k mn g (ps_wr s)"

definition sys_inv :: "bool \<Rightarrow> nat \<Rightarrow> nat \<Rightarrow> nat \<Rightarrow> psys \<Rightarrow> bool" where
  "sys_inv prompt k mn mx s \<longleftrightarrow> (\<exists>g segs. sys_at prompt k mn mx g segs s)"

lemma sys_core: "sys_at prompt k mn mx g segs s \<Longrightarrow> rb_core prompt k g (ps_flash s) (ps_newest s) (ps_pb s)"
  by (simp add: sys_at_def)

lemma sys_io: "sys_at prompt k mn mx g segs s \<Longrightarrow> io_ok k g (ps_flash s) (ps_inflight s) segs (ps_pb s)"
  by (simp add: sys_at_def)

lemma io_frame:
  assumes "io_ok k g flash inflight segs pb" "same_secs k (p_s g) (p_q g) (pb_rwb pb) (pb_rwb pb')" "pb_frame pb pb'" "p_s g' = p_s g" "p_q g' = p_q g"
  shows "io_ok k g' flash inflight segs pb'"
proof -
  have secs: "pp k (pb_rwb pb') a = pp k (pb_rwb pb) a \<and> dt k (pb_rwb pb') a = dt k (pb_rwb pb) a" if "p_s g \<le> a" "a < p_q g" for a
    using assms(2) that by (simp add: same_secs_def)
  have fr: "pb_compl_list pb' = pb_compl_list pb" "length (pb_lines pb') = length (pb_lines pb)"
    using assms(3) by (auto simp: pb_frame_def)
  have segs: "segs_ok k (pb_rwb pb) flash (set (pb_compl_list pb)) (p_s g) (p_q g) segs"
    using assms(1) by (simp add: io_ok_def)
  have "segs_ok k (pb_rwb pb') flash (set (pb_compl_list pb)) (p_s g) (p_q g) segs"
    by (rule segs_cong [OF segs]) (use secs in simp_all)
  moreover have "inj_on (pp k (pb_rwb pb')) {p_s g ..< p_q g}"
    using assms(1) secs by (simp add: io_ok_def inj_on_def)
  ultimately show ?thesis
    using assms(1,4,5) fr by (simp add: io_ok_def)
qed

lemma pgs_frame: "pgs_ok mn mx pb \<Longrightarrow> pb_frame pb pb' \<Longrightarrow> pgs_ok mn mx pb'"
  by (simp add: pgs_ok_def pb_frame_def)

lemma wr_ok_cong: "wr_ok k mn g w \<Longrightarrow> p_q g' = p_q g \<Longrightarrow> p_r g' = p_r g \<Longrightarrow> p_b g' = p_b g \<Longrightarrow> wr_ok k mn g' w"
  by (cases w) auto

text \<open>A step that touches neither the requests in flight nor the write thread.\<close>

lemma sys_frame:
  assumes at: "sys_at prompt k mn mx g segs s" and core: "rb_core prompt k g' (ps_flash s) newest pb"
    and secs: "same_secs k (p_s g) (p_q g) (pb_rwb (ps_pb s)) (pb_rwb pb)" and fr: "pb_frame (ps_pb s) pb"
    and g': "p_s g' = p_s g" "p_q g' = p_q g" "p_r g' = p_r g" "p_b g' = p_b g"
    and ts: "tasks_ok prompt k g' (rl_nr_secs (pb_rl (ps_pb s))) ts"
  shows "sys_inv prompt k mn mx (s\<lparr>ps_pb := pb, ps_tasks := ts, ps_newest := newest\<rparr>)"
proof -
  have "io_ok k g' (ps_flash s) (ps_inflight s) segs pb" "pgs_ok mn mx pb" "wr_ok k mn g' (ps_wr s)" "rl_nr_secs (pb_rl pb) = rl_nr_secs (pb_rl (ps_pb s))"
    using at io_frame [OF _ secs fr g'(1,2)] pgs_frame [OF _ fr] wr_ok_cong [OF _ g'(2-4)] fr by (auto simp: sys_at_def pb_frame_def)
  then show ?thesis
    unfolding sys_inv_def using core ts by (intro exI [of _ g'] exI [of _ segs]) (simp add: sys_at_def)
qed

section \<open>Requests\<close>

lemma new_task_idx:
  assumes "k < 32"
  shows "task_idx k \<lparr>tk_bpos = ring k m, tk_lba = lba, tk_i = 0, tk_rest = data, tk_pend = None\<rparr> = map (ring k) [m ..< m + length data]"
proof -
  have "(ring k m + of_nat j) AND (2 ^ k - 1) = ring k (m + j)" for j
    by (rule ring_add [OF assms])
  then show ?thesis
    by (auto simp: task_idx_def intro!: nth_equalityI)
qed

lemma step_insert:
  assumes inv: "sys_inv prompt k mn mx s" and op: "pblk_rb_may_write_user (ps_pb s) bio fua (of_nat (length data)) = Some ((ret, bpos), pb)"
    and n: "length data < 2 ^ 31" "unat lba + length data \<le> unat (rl_nr_secs (pb_rl (ps_pb s)))"
  shows "sys_inv prompt k mn mx (s\<lparr>ps_pb := pb, ps_tasks := (if ret = NVM_IO_REQUEUE then ps_tasks s
      else ps_tasks s @ [\<lparr>tk_bpos = bpos, tk_lba = lba, tk_i = 0, tk_rest = data, tk_pend = None\<rparr>])\<rparr>)"
proof -
  obtain g segs where at: "sys_at prompt k mn mx g segs s"
    using inv by (auto simp: sys_inv_def)
  note core = at [unfolded sys_at_def, THEN conjunct1]
  have ts: "tasks_ok prompt k g (rl_nr_secs (pb_rl (ps_pb s))) (ps_tasks s)"
    using at by (simp add: sys_at_def)
  have "length data < 2 ^ 32"
    using n(1) by simp
  from may_write_user_ok [OF core this, of bio fua] consider "ret = NVM_IO_REQUEUE" "pb = ps_pb s"
    | l' where "ret \<noteq> NVM_IO_REQUEUE" "bpos = ring k (p_m g)" "rb_core prompt k (reserve_pos k (length data) (g\<lparr>p_l := l'\<rparr>)) (ps_flash s) (ps_newest s) pb"
      "pb_frame (ps_pb s) pb" "same_secs k (p_s g) (p_m g) (pb_rwb (ps_pb s)) (pb_rwb pb)" "p_l g \<le> l'" "p_m g + length data < l' + 2 ^ k"
    using op by auto
  then show ?thesis
  proof cases
    case 1
    then show ?thesis
      using inv by simp
  next
    case 2
    note k = shape_D(2) [OF core_shape [OF core]] and pos = core_pos [OF core] and pos' = core_pos [OF 2(3)]
    define t where "t = \<lparr>tk_bpos = bpos, tk_lba = lba, tk_i = 0, tk_rest = data, tk_pend = None\<rparr>"
    have idx: "task_idx k t = map (ring k) [p_m g ..< p_m g + length data]"
      unfolding t_def 2(2) by (rule new_task_idx [OF k])
    have T: "p_T g \<subseteq> ring k ` {p_r g ..< p_m g}"
      using core_flags [OF core] by (simp add: rb_flags_def)
    have win: "a = b" if "ring k a = ring k b" "p_r g \<le> a" "a < p_m g + length data" "p_r g \<le> b" "b < p_m g + length data" for a b
      using ring_window [OF k that(1), of l'] that pos' 2(7) by (auto simp: reserve_pos_def)
    have dist: "distinct (map (ring k) [p_m g ..< p_m g + length data])"
      using win pos by (auto simp: distinct_map inj_on_def)
    have disj: "p_T g \<inter> ring k ` {p_m g ..< p_m g + length data} = {}"
      using T win pos by fastforce
    have lbas: "lba + of_nat j < rl_nr_secs (pb_rl (ps_pb s))" if "j < length data" for j
    proof -
      have "unat lba + j < 2 ^ 64"
        using n(2) that unsigned_less [of "rl_nr_secs (pb_rl (ps_pb s))", where 'a = nat] by simp
      then have "unat (lba + of_nat j) = unat lba + j"
        using n(1) that by (simp add: unat_word_ariths(1) unat_of_nat)
      then show ?thesis
        using n(2) that by (simp add: word_less_nat_alt)
    qed
    then have "task_ok prompt k (rl_nr_secs (pb_rl (ps_pb s))) t"
      by (simp add: task_ok_def t_def)
    then have "tasks_ok prompt k (reserve_pos k (length data) (g\<lparr>p_l := l'\<rparr>)) (rl_nr_secs (pb_rl (ps_pb s))) (ps_tasks s @ [t])"
      using ts dist disj by (auto simp: tasks_ok_def idx reserve_pos_def)
    then have "sys_inv prompt k mn mx (s\<lparr>ps_pb := pb, ps_tasks := ps_tasks s @ [t], ps_newest := ps_newest s\<rparr>)"
      using same_secs_sub [OF 2(5)] pos by (intro sys_frame [OF at 2(3) _ 2(4)]) (simp_all add: reserve_pos_def)
    then show ?thesis
      using 2(1) by (simp add: t_def)
  qed
qed

lemma task_advance:
  assumes ts: "tasks_ok prompt k g nr ts" and j: "j < length ts" "t = ts ! j" "tk_rest t = d # ds"
    and pd: "case pd of None \<Rightarrow> True | Some (lba, ppa, d) \<Rightarrow> \<not> prompt \<and> lba < nr \<and> (\<exists>a. ppa = cl k a)"
  defines "w \<equiv> (tk_bpos t + of_nat (tk_i t)) AND (2 ^ k - 1)" and "t' \<equiv> t\<lparr>tk_i := Suc (tk_i t), tk_rest := ds, tk_pend := pd\<rparr>"
  shows "w \<in> p_T g" "tk_lba t + of_nat (tk_i t) < nr" "tasks_ok prompt k (g\<lparr>p_T := p_T g - {w}\<rparr>) nr (ts[j := t'])"
proof -
  have split: "ts = take j ts @ t # drop (Suc j) ts" "ts[j := t'] = take j ts @ t' # drop (Suc j) ts"
    using j(1,2) by (simp_all add: id_take_nth_drop [symmetric] upd_conv_take_nth_drop)
  have idx: "task_idx k t = w # task_idx k t'"
  proof -
    have "[0 ..< length (d # ds)] = 0 # map Suc [0 ..< length ds]"
      by (simp add: map_Suc_upt upt_conv_Cons del: upt_Suc)
    then show ?thesis
      by (simp add: task_idx_def j(3) t'_def w_def ac_simps del: upt_Suc)
  qed
  have tok: "task_ok prompt k nr t" "t \<in> set ts"
    using ts j by (auto simp: tasks_ok_def)
  then have lbas: "\<forall>i < Suc (length ds). tk_lba t + of_nat (tk_i t + i) < nr"
    by (simp add: task_ok_def j(3))
  then show "tk_lba t + of_nat (tk_i t) < nr"
    by fastforce
  have "tk_lba t + of_nat (Suc (tk_i t) + i) < nr" if "i < length ds" for i
    using lbas [rule_format, of "Suc i"] that by simp
  then have "task_ok prompt k nr t'"
    using pd by (simp add: task_ok_def t'_def)
  moreover have "set (take j ts) \<union> set (drop (Suc j) ts) \<subseteq> set ts"
    using set_take_subset set_drop_subset by fast
  ultimately have toks: "\<forall>u \<in> set (ts[j := t']). task_ok prompt k nr u"
    using ts unfolding split(2) by (auto simp: tasks_ok_def)
  define A B where "A = concat (map (task_idx k) (take j ts))" and "B = concat (map (task_idx k) (drop (Suc j) ts))"
  have cat: "concat (map (task_idx k) ts) = A @ (w # task_idx k t') @ B" "concat (map (task_idx k) (ts[j := t'])) = A @ task_idx k t' @ B"
    by (subst split(1), simp add: A_def B_def idx) (simp add: split(2) A_def B_def)
  show "w \<in> p_T g" "tasks_ok prompt k (g\<lparr>p_T := p_T g - {w}\<rparr>) nr (ts[j := t'])"
    using ts toks unfolding tasks_ok_def cat by auto
qed

lemma core_tm:
  assumes core: "rb_core d k g flash newest pb" and pb1: "same_refs pb pb1" and tm: "map_typed k (unat (rl_nr_secs (pb_rl pb))) tm (pb_lines pb)"
    and data: "d \<Longrightarrow> rb_data k g (pb_rwb pb) tm flash newest'"
  shows "rb_core d k g flash newest' (pb1\<lparr>pb_trans_map := tm\<rparr>)"
proof -
  note r = same_refsD [OF pb1]
  have "rb_ppas k g (pb_rwb pb) (pb_lines pb1)"
    using core_ppas [OF core] r(5,8) by (simp add: rb_ppas_def)
  then show ?thesis
    using core map_typed_lines [OF tm r(5)] data r(1,2) by (simp add: rb_core_def)
qed

lemma map_dev:
  assumes "rb_core d k g flash newest pb" "lba < rl_nr_secs (pb_rl pb)"
  shows "unat lba < length (pb_trans_map pb)" "\<not> nvm_addr_in_cache (pb_trans_map pb ! unat lba) \<Longrightarrow> \<not> ppa_empty (pb_trans_map pb ! unat lba) \<Longrightarrow>
    ln (pb_trans_map pb ! unat lba) < length (pb_lines pb)"
proof -
  have t: "length (pb_trans_map pb) = unat (rl_nr_secs (pb_rl pb))" "(\<exists>a. pb_trans_map pb ! unat lba = cl k a) \<or> ppa_empty (pb_trans_map pb ! unat lba) \<or>
      ln (pb_trans_map pb ! unat lba) < length (pb_lines pb)"
    using core_map [OF assms(1)] assms(2) by (auto simp: map_typed_def word_less_nat_alt)
  show "unat lba < length (pb_trans_map pb)"
    using t(1) assms(2) by (simp add: word_less_nat_alt)
  show "ln (pb_trans_map pb ! unat lba) < length (pb_lines pb)" if "\<not> nvm_addr_in_cache (pb_trans_map pb ! unat lba)" "\<not> ppa_empty (pb_trans_map pb ! unat lba)"
    using t(2) that cl_facts(1) by metis
qed

text \<open>The copy of a task, by position.\<close>

lemma copy_at:
  assumes at: "sys_at prompt k mn mx g segs s" and j: "j < length (ps_tasks s)" "t = ps_tasks s ! j" "tk_rest t = d # ds"
  obtains a where "ring k a \<in> p_T g" "p_r g \<le> a" "a < p_m g" "(tk_bpos t + of_nat (tk_i t)) AND (2 ^ k - 1) = ring k a"
    "tk_lba t + of_nat (tk_i t) < rl_nr_secs (pb_rl (ps_pb s))"
    "copy_of (ps_pb s) t d = Some (cl k a, (ps_pb s)\<lparr>pb_rwb := rb_copied k a PBLK_IOTYPE_USER (tk_lba t + of_nat (tk_i t)) d (pb_rwb (ps_pb s))\<rparr>)"
proof -
  have core: "rb_core prompt k g (ps_flash s) (ps_newest s) (ps_pb s)" and ts: "tasks_ok prompt k g (rl_nr_secs (pb_rl (ps_pb s))) (ps_tasks s)"
    using at by (simp_all add: sys_at_def)
  note adv = task_advance [OF ts j, of None, simplified]
  obtain a where a: "(tk_bpos t + of_nat (tk_i t)) AND (2 ^ k - 1) = ring k a" "p_r g \<le> a" "a < p_m g"
    using reserved_pos [OF core adv(1)] by blast
  then have "pblk_rb_wrap_pos (pb_rwb (ps_pb s)) (tk_bpos t + of_nat (tk_i t)) = ring k a"
    using shape_D(4) [OF core_shape [OF core]] by (simp add: pblk_rb_wrap_pos_def)
  then show thesis
    using a adv copy_result [OF core _ a(2,3)] by (intro that [of a]) (simp_all add: copy_of_def)
qed

lemma step_copy:
  assumes inv: "sys_inv False k mn mx s" and j: "j < length (ps_tasks s)" "t = ps_tasks s ! j" "tk_rest t = d # ds"
    and op: "copy_of (ps_pb s) t d = Some (ppa, pb)"
  shows "sys_inv False k mn mx (s\<lparr>ps_pb := pb, ps_tasks := (ps_tasks s)[j := t\<lparr>tk_i := Suc (tk_i t), tk_rest := ds, tk_pend := Some (tk_lba t + of_nat (tk_i t), ppa, d)\<rparr>]\<rparr>)"
proof -
  obtain g segs where at: "sys_at False k mn mx g segs s"
    using inv by (auto simp: sys_inv_def)
  have core: "rb_core False k g (ps_flash s) (ps_newest s) (ps_pb s)" and ts: "tasks_ok False k g (rl_nr_secs (pb_rl (ps_pb s))) (ps_tasks s)"
    using at by (simp_all add: sys_at_def)
  define lba where "lba = tk_lba t + of_nat (tk_i t)"
  obtain a where a: "ring k a \<in> p_T g" "p_r g \<le> a" "a < p_m g" "(tk_bpos t + of_nat (tk_i t)) AND (2 ^ k - 1) = ring k a" "lba < rl_nr_secs (pb_rl (ps_pb s))"
      "ppa = cl k a" "pb = (ps_pb s)\<lparr>pb_rwb := rb_copied k a PBLK_IOTYPE_USER lba d (pb_rwb (ps_pb s))\<rparr>"
    using copy_at [OF at j] op unfolding lba_def by auto
  have "rb_core False k (copy_pos k a g) (ps_flash s) (ps_newest s) (pb\<lparr>pb_trans_map := pb_trans_map (ps_pb s)\<rparr>)"
    using core_map [OF core] by (intro copy_core [OF core a(1-3), where flags = PBLK_IOTYPE_USER and lba = lba and data = d]) (simp_all add: a(5,7) flag_bits)
  then have core': "rb_core False k (copy_pos k a g) (ps_flash s) (ps_newest s) pb"
    by (simp add: a(7))
  have "same_secs k (p_s g) (p_q g) (pb_rwb (ps_pb s)) (pb_rwb pb)"
    using same_secs_sub [OF copy_secs [OF core a(2,3)]] core_pos [OF core] by (simp add: a(7))
  moreover have "tasks_ok False k (copy_pos k a g) (rl_nr_secs (pb_rl (ps_pb s))) ((ps_tasks s)[j := t\<lparr>tk_i := Suc (tk_i t), tk_rest := ds, tk_pend := Some (lba, ppa, d)\<rparr>])"
    using task_advance(3) [OF ts j, of "Some (lba, ppa, d)"] a(4-6) by (auto simp: copy_pos_def)
  ultimately have "sys_inv False k mn mx (s\<lparr>ps_pb := pb, ps_tasks := (ps_tasks s)[j := t\<lparr>tk_i := Suc (tk_i t), tk_rest := ds, tk_pend := Some (lba, ppa, d)\<rparr>], ps_newest := ps_newest s\<rparr>)"
    by (intro sys_frame [OF at core']) (simp_all add: a(7) copy_pos_def)
  then show ?thesis
    by (simp add: lba_def)
qed

lemma step_copy_publish:
  assumes inv: "sys_inv prompt k mn mx s" and j: "j < length (ps_tasks s)" "t = ps_tasks s ! j" "tk_rest t = d # ds" "tk_pend t = None"
  defines "lba \<equiv> tk_lba t + of_nat (tk_i t)"
  assumes op: "copy_of (ps_pb s) t d = Some (ppa, pb)" "pblk_update_map_cache pb lba ppa = Some pb'"
  shows "sys_inv prompt k mn mx (s\<lparr>ps_pb := pb', ps_tasks := (ps_tasks s)[j := t\<lparr>tk_i := Suc (tk_i t), tk_rest := ds\<rparr>],
    ps_newest := (ps_newest s)(unat lba \<mapsto> d)\<rparr>)"
proof -
  obtain g segs where at: "sys_at prompt k mn mx g segs s"
    using inv by (auto simp: sys_inv_def)
  have core: "rb_core prompt k g (ps_flash s) (ps_newest s) (ps_pb s)" and ts: "tasks_ok prompt k g (rl_nr_secs (pb_rl (ps_pb s))) (ps_tasks s)"
    using at by (simp_all add: sys_at_def)
  obtain a where a: "ring k a \<in> p_T g" "p_r g \<le> a" "a < p_m g" "(tk_bpos t + of_nat (tk_i t)) AND (2 ^ k - 1) = ring k a" "lba < rl_nr_secs (pb_rl (ps_pb s))"
      "ppa = cl k a" "pb = (ps_pb s)\<lparr>pb_rwb := rb_copied k a PBLK_IOTYPE_USER lba d (pb_rwb (ps_pb s))\<rparr>"
    using copy_at [OF at j(1-3)] op unfolding lba_def by auto
  define tm where "tm = (pb_trans_map (ps_pb s))[unat lba := cl k a]"
  obtain pb1 where pb1: "pb' = pb1\<lparr>pb_trans_map := tm\<rparr>" "same_refs pb pb1"
    using update_map_cache_ok [of lba pb ppa] op(2) a(5-7) map_dev [OF core a(5)] by (auto simp: dev_addr_ok_def tm_def)
  have tmt: "map_typed k (unat (rl_nr_secs (pb_rl (ps_pb s)))) tm (pb_lines (ps_pb s))"
    unfolding tm_def by (rule map_typed_upd [OF core_map [OF core]]) blast
  have core': "rb_core prompt k (copy_pos k a g) (ps_flash s) ((ps_newest s)(unat lba \<mapsto> d)) pb'"
    unfolding pb1(1) using pb1(2) tmt core a
    by (intro copy_core [OF core a(1-3), where flags = PBLK_IOTYPE_USER and lba = lba and data = d]) (simp_all add: flag_bits tm_def copy_data)
  have "pb_rwb pb' = pb_rwb pb" "pb_frame (ps_pb s) pb'"
    using pb1 same_refs_frame [OF pb1(2)] same_refsD(1) [OF pb1(2)] by (simp_all add: a(7) pb_frame_def)
  moreover have "same_secs k (p_s g) (p_q g) (pb_rwb (ps_pb s)) (pb_rwb pb)"
    using same_secs_sub [OF copy_secs [OF core a(2,3)]] core_pos [OF core] by (simp add: a(7))
  moreover have "t\<lparr>tk_i := Suc (tk_i t), tk_rest := ds\<rparr> = t\<lparr>tk_i := Suc (tk_i t), tk_rest := ds, tk_pend := None\<rparr>"
    using j(4) by simp
  then have "tasks_ok prompt k (copy_pos k a g) (rl_nr_secs (pb_rl (ps_pb s))) ((ps_tasks s)[j := t\<lparr>tk_i := Suc (tk_i t), tk_rest := ds\<rparr>])"
    using task_advance(3) [OF ts j(1-3), of None] a(4) by (simp add: copy_pos_def)
  ultimately show ?thesis
    by (intro sys_frame [OF at core']) (simp_all add: copy_pos_def)
qed

lemma step_publish:
  assumes inv: "sys_inv prompt k mn mx s" and j: "j < length (ps_tasks s)" "t = ps_tasks s ! j" "tk_pend t = Some (lba, ppa, d)"
    and op: "pblk_update_map_cache (ps_pb s) lba ppa = Some pb"
  shows "sys_inv prompt k mn mx (s\<lparr>ps_pb := pb, ps_tasks := (ps_tasks s)[j := t\<lparr>tk_pend := None\<rparr>], ps_newest := (ps_newest s)(unat lba \<mapsto> d)\<rparr>)"
proof -
  obtain g segs where at: "sys_at prompt k mn mx g segs s"
    using inv by (auto simp: sys_inv_def)
  have core: "rb_core prompt k g (ps_flash s) (ps_newest s) (ps_pb s)" and ts: "tasks_ok prompt k g (rl_nr_secs (pb_rl (ps_pb s))) (ps_tasks s)"
    using at by (simp_all add: sys_at_def)
  have "task_ok prompt k (rl_nr_secs (pb_rl (ps_pb s))) t"
    using ts j by (auto simp: tasks_ok_def)
  then obtain a where a: "\<not> prompt" "lba < rl_nr_secs (pb_rl (ps_pb s))" "ppa = cl k a"
    using j(3) by (auto simp: task_ok_def)
  define tm where "tm = (pb_trans_map (ps_pb s))[unat lba := cl k a]"
  obtain pb1 where pb1: "pb = pb1\<lparr>pb_trans_map := tm\<rparr>" "same_refs (ps_pb s) pb1"
    using update_map_cache_ok [of lba "ps_pb s" ppa] op a map_dev [OF core a(2)] by (auto simp: dev_addr_ok_def tm_def)
  have tmt: "map_typed k (unat (rl_nr_secs (pb_rl (ps_pb s)))) tm (pb_lines (ps_pb s))"
    unfolding tm_def by (rule map_typed_upd [OF core_map [OF core]]) blast
  have core': "rb_core prompt k g (ps_flash s) ((ps_newest s)(unat lba \<mapsto> d)) pb"
    unfolding pb1(1) using a(1) by (intro core_tm [OF core pb1(2) tmt]) simp
  have "pb_rwb pb = pb_rwb (ps_pb s)" "pb_frame (ps_pb s) pb"
    using pb1 same_refs_frame [OF pb1(2)] same_refsD(1) [OF pb1(2)] by (simp_all add: pb_frame_def)
  moreover have "map (task_idx k) ((ps_tasks s)[j := t\<lparr>tk_pend := None\<rparr>]) = map (task_idx k) (ps_tasks s)"
    using j by (simp add: map_update list_update_same_conv) (simp add: task_idx_def)
  moreover have "\<forall>u \<in> set ((ps_tasks s)[j := t\<lparr>tk_pend := None\<rparr>]). task_ok prompt k (rl_nr_secs (pb_rl (ps_pb s))) u"
    using ts j set_update_subset_insert [of "ps_tasks s" j] by (fastforce simp: tasks_ok_def task_ok_def)
  ultimately show ?thesis
    using ts by (intro sys_frame [OF at core']) (simp_all add: tasks_ok_def del: set_concat)
qed

section \<open>The write thread\<close>

lemma step_commit:
  assumes inv: "sys_inv prompt k mn mx s" and idle: "ps_wr s = W_idle" and op: "submit_commit (ps_pb s) = Some (Some c, pb)"
  shows "sys_inv prompt k mn mx (s\<lparr>ps_pb := pb, ps_wr := W_read c (cc_sentry c) (0, 0) (nv c)\<rparr>)"
proof -
  obtain g segs where at: "sys_at prompt k mn mx g segs s"
    using inv by (auto simp: sys_inv_def)
  have core: "rb_core prompt k g (ps_flash s) (ps_newest s) (ps_pb s)" and pgs: "pgs_ok mn mx (ps_pb s)" and wr: "p_q g = p_r g" "p_r g = p_b g"
    using at idle by (simp_all add: sys_at_def)
  have c: "pb = (ps_pb s)\<lparr>pb_rwb := (pb_rwb (ps_pb s))\<lparr>rb_subm := ring k (p_b g + nv c)\<rparr>\<rparr>" "cc_sentry c = ring k (p_b g)" "batch_ok mn c" "p_b g + nv c \<le> p_m g"
    using commit_ok [OF core pgs] op by auto
  define g' where "g' = g\<lparr>p_b := p_b g + nv c\<rparr>"
  have "rb_core prompt k g' (ps_flash s) (ps_newest s) pb"
    unfolding c(1) g'_def using c(4) by (intro commit_core [OF core]) simp_all
  moreover have "io_ok k g' (ps_flash s) (ps_inflight s) segs pb"
    by (rule io_frame [OF sys_io [OF at]]) (simp_all add: c(1) g'_def same_secs_def)
  moreover have "tasks_ok prompt k g' (rl_nr_secs (pb_rl (ps_pb s))) (ps_tasks s)" "pgs_ok mn mx pb"
    using at by (simp_all add: sys_at_def tasks_ok_def g'_def pgs_ok_def c(1))
  ultimately have "sys_at prompt k mn mx g' segs (s\<lparr>ps_pb := pb, ps_wr := W_read c (cc_sentry c) (0, 0) (nv c)\<rparr>)"
    using c wr by (simp add: sys_at_def g'_def)
  then show ?thesis
    unfolding sys_inv_def by blast
qed

lemma step_read:
  assumes inv: "sys_inv prompt k mn mx s" and wr: "ps_wr s = W_read c pos io (Suc n)" and op: "rb_read_entry (pb_rwb (ps_pb s)) pos True = Some (d, rb)"
  shows "sys_inv prompt k mn mx (s\<lparr>ps_pb := (ps_pb s)\<lparr>pb_rwb := rb\<rparr>,
    ps_wr := W_read c ((pos + 1) AND (rb_nr_entries (pb_rwb (ps_pb s)) - 1)) (fst io + fst d, snd io + snd d) n\<rparr>)"
proof -
  obtain g segs where at: "sys_at prompt k mn mx g segs s"
    using inv by (auto simp: sys_inv_def)
  have core: "rb_core prompt k g (ps_flash s) (ps_newest s) (ps_pb s)" and w: "pos = ring k (p_r g)" "p_r g + Suc n = p_b g" "cc_sentry c = ring k (p_q g)"
      "p_q g + nv c = p_b g" "batch_ok mn c"
    using at wr by (simp_all add: sys_at_def)
  note pos = core_pos [OF core] and sh = core_shape [OF core]
  have "p_r g < p_b g" "ring k (p_r g) \<notin> p_T g"
    using w read_entry_waits [OF core, of True] op pos by auto
  then have r: "rb_core prompt k (g\<lparr>p_r := Suc (p_r g)\<rparr>) (ps_flash s) (ps_newest s) ((ps_pb s)\<lparr>pb_rwb := rb\<rparr>)"
      "same_secs k (p_l g) (p_l g + 2 ^ k) (pb_rwb (ps_pb s)) rb"
    using read_entry_ok [OF core] op w(1) by auto
  have "io_ok k (g\<lparr>p_r := Suc (p_r g)\<rparr>) (ps_flash s) (ps_inflight s) segs ((ps_pb s)\<lparr>pb_rwb := rb\<rparr>)"
    using pos same_secs_sub [OF r(2)] by (intro io_frame [OF sys_io [OF at]]) simp_all
  moreover have "tasks_ok prompt k (g\<lparr>p_r := Suc (p_r g)\<rparr>) (rl_nr_secs (pb_rl (ps_pb s))) (ps_tasks s)" "pgs_ok mn mx ((ps_pb s)\<lparr>pb_rwb := rb\<rparr>)"
    using at by (simp_all add: sys_at_def tasks_ok_def pgs_ok_def)
  moreover have "(pos + 1) AND (rb_nr_entries (pb_rwb (ps_pb s)) - 1) = ring k (Suc (p_r g))"
    using ring_suc [OF shape_D(2) [OF sh]] shape_D(4) [OF sh] w(1) by simp
  ultimately have "sys_at prompt k mn mx (g\<lparr>p_r := Suc (p_r g)\<rparr>) segs (s\<lparr>ps_pb := (ps_pb s)\<lparr>pb_rwb := rb\<rparr>,
      ps_wr := W_read c ((pos + 1) AND (rb_nr_entries (pb_rwb (ps_pb s)) - 1)) (fst io + fst d, snd io + snd d) n\<rparr>)"
    using r(1) w by (simp add: sys_at_def)
  then show ?thesis
    unfolding sys_inv_def by blast
qed

text \<open>A new request joins those in flight.\<close>

lemma io_append:
  assumes core: "rb_core d k g flash newest pb" and io: "io_ok k g flash inflight segs pb" and fr: "pb_frame pb pb'"
    and re: "remapped k (p_l g) (p_q g) (take (nv c) (cc_ppa_list c)) (pb_rwb pb) (pb_rwb pb')"
    and c: "cc_sentry c = ring k (p_q g)" "p_q g + nv c = p_r g" "0 < nv c" "nv c \<le> length (cc_ppa_list c)" "distinct (cc_ppa_list c)"
    and new: "\<forall>p \<in> set (cc_ppa_list c). flash p = None \<and> (\<forall>c' \<in> set inflight. p \<notin> set (cc_ppa_list c')) \<and> ln p < length (pb_lines pb)"
  shows "io_ok k (g\<lparr>p_q := p_r g\<rparr>) flash (inflight @ [c]) (segs @ [c]) pb'"
proof -
  note pos = core_pos [OF core] and k = shape_D(2) [OF core_shape [OF core]]
  define D where "D = set (pb_compl_list pb)"
  have segs: "segs_ok k (pb_rwb pb) flash D (p_s g) (p_q g) segs" and inj: "inj_on (pp k (pb_rwb pb)) {p_s g ..< p_q g}"
      and all: "set segs = set inflight \<union> D" "distinct (inflight @ pb_compl_list pb)" "\<forall>c \<in> set segs. \<forall>p \<in> set (cc_ppa_list c). ln p < length (pb_lines pb)"
      "\<forall>c \<in> D. cc_sentry c \<noteq> ring k (p_s g)"
    using io by (auto simp: io_ok_def D_def)
  have fr': "pb_compl_list pb' = pb_compl_list pb" "length (pb_lines pb') = length (pb_lines pb)"
    using fr by (simp_all add: pb_frame_def)
  have old: "pp k (pb_rwb pb') a = pp k (pb_rwb pb) a" "dt k (pb_rwb pb') a = dt k (pb_rwb pb) a" if "p_s g \<le> a" "a < p_q g" for a
    using re that pos by (auto simp: remapped_def)
  have nw: "pp k (pb_rwb pb') (p_q g + i) = cc_ppa_list c ! i" if "i < nv c" for i
    using re that c pos by (simp add: remapped_def)
  have notin: "c \<notin> set segs"
  proof
    assume "c \<in> set segs"
    then obtain a where "p_s g \<le> a" "a + nv c \<le> p_q g" "cc_sentry c = ring k a"
      using segs_start [OF segs] by (auto simp: seg_at_def)
    then show False
      using ring_window [OF k, of a "p_q g" "p_s g"] c(1-3) pos by auto
  qed
  have "segs_ok k (pb_rwb pb') flash D (p_s g) (p_q g) segs"
    by (rule segs_cong [OF segs]) (use old in simp_all)
  then have "segs_ok k (pb_rwb pb') flash D (p_s g) (p_q g + nv c) (segs @ [c])"
    using c nw notin all(1) new by (intro segs_append) (auto simp: nw)
  moreover have "inj_on (pp k (pb_rwb pb')) {p_s g ..< p_r g}"
  proof -
    have sep: "pp k (pb_rwb pb) a \<noteq> cc_ppa_list c ! i" if "p_s g \<le> a" "a < p_q g" "i < nv c" for a i
    proof -
      have "pp k (pb_rwb pb) a \<in> dom flash \<or> (\<exists>c' \<in> set inflight. pp k (pb_rwb pb) a \<in> set (cc_ppa_list c'))"
        using segs_cover [OF segs that(1,2)] all(1) by auto
      moreover have "cc_ppa_list c ! i \<in> set (cc_ppa_list c)"
        using that(3) c(4) by simp
      ultimately show ?thesis
        using new by (metis domIff)
    qed
    have "inj_on (pp k (pb_rwb pb')) {p_s g ..< p_q g}"
      using inj old by (simp add: inj_on_def)
    moreover have "inj_on (pp k (pb_rwb pb')) {p_q g ..< p_r g}"
    proof (rule inj_onI)
      fix x y
      assume xy: "x \<in> {p_q g ..< p_r g}" "y \<in> {p_q g ..< p_r g}" "pp k (pb_rwb pb') x = pp k (pb_rwb pb') y"
      have lt: "x - p_q g < nv c" "y - p_q g < nv c"
        using xy c(2) by auto
      then have "cc_ppa_list c ! (x - p_q g) = cc_ppa_list c ! (y - p_q g)"
        using nw [OF lt(1)] nw [OF lt(2)] xy by simp
      then have "x - p_q g = y - p_q g"
        using lt c(4) nth_eq_iff_index_eq [OF c(5), of "x - p_q g" "y - p_q g"] by simp
      then show "x = y"
        using xy by auto
    qed
    moreover have "pp k (pb_rwb pb') x \<noteq> pp k (pb_rwb pb') y" if "x \<in> {p_s g ..< p_q g}" "y \<in> {p_q g ..< p_r g}" for x y
    proof -
      have "y - p_q g < nv c"
        using that c(2) by auto
      then show ?thesis
        using sep [of x "y - p_q g"] nw [of "y - p_q g"] old(1) [of x] that by auto
    qed
    moreover have "{p_s g ..< p_r g} = {p_s g ..< p_q g} \<union> {p_q g ..< p_r g}"
      using pos by auto
    ultimately show ?thesis
      unfolding inj_on_Un by (auto simp: inj_on_Un)
  qed
  ultimately show ?thesis
    using all notin c(2) new unfolding io_ok_def by (auto simp: fr' D_def)
qed

lemma step_finish:
  assumes inv: "sys_inv prompt k mn mx s" and wr: "ps_wr s = W_read c pos io 0" and al: "alloc_ok s c pages"
    and op: "submit_finish (ps_pb s) c io pages = Some (c', pb)"
  shows "sys_inv prompt k mn mx (s\<lparr>ps_pb := pb, ps_wr := W_idle, ps_inflight := ps_inflight s @ [c']\<rparr>)"
proof -
  obtain g segs where at: "sys_at prompt k mn mx g segs s"
    using inv by (auto simp: sys_inv_def)
  note core = sys_core [OF at] and pgs = at [unfolded sys_at_def, THEN conjunct2, THEN conjunct2, THEN conjunct1]
  have w: "p_r g = p_b g" "cc_sentry c = ring k (p_q g)" "p_q g + nv c = p_b g" "batch_ok mn c"
    using at wr by (simp_all add: sys_at_def)
  have a: "\<forall>page \<in> set pages. length page = mn" "length (concat pages) = nv c + unat (cc_nr_padded c)" "distinct (map snd (concat pages))" "secs_ok (ps_pb s) (concat pages)"
      "\<forall>p \<in> snd ` set (concat pages). ps_flash s p = None \<and> (\<forall>c' \<in> set (ps_inflight s). p \<notin> set (cc_ppa_list c'))"
    using al pgs unfolding alloc_ok_def pgs_ok_def by simp_all
  have f: "c' = c\<lparr>cc_ppa_list := map snd (concat pages)\<rparr>" "rb_core prompt k (g\<lparr>p_q := p_r g\<rparr>) (ps_flash s) (ps_newest s) pb" "pb_frame (ps_pb s) pb"
      "remapped k (p_l g) (p_q g) (take (nv c) (map snd (concat pages))) (pb_rwb (ps_pb s)) (pb_rwb pb)"
    using finish_ok [OF core pgs a(4) w(4,2), of io] w(1,3) a(1,2) op by auto
  have "io_ok k (g\<lparr>p_q := p_r g\<rparr>) (ps_flash s) (ps_inflight s @ [c']) (segs @ [c']) pb"
  proof (rule io_append [OF core sys_io [OF at] f(3)])
    show "\<forall>p \<in> set (cc_ppa_list c'). ps_flash s p = None \<and> (\<forall>c'' \<in> set (ps_inflight s). p \<notin> set (cc_ppa_list c'')) \<and> ln p < length (pb_lines (ps_pb s))"
      using a(4,5) by (auto simp: f(1) secs_ok_def)
    show "nv c' \<le> length (cc_ppa_list c')"
      unfolding f(1) using a(2) by simp
  qed (use f(4) w a(3) in \<open>simp_all add: f(1) batch_ok_def\<close>)
  moreover have "tasks_ok prompt k (g\<lparr>p_q := p_r g\<rparr>) (rl_nr_secs (pb_rl pb)) (ps_tasks s)" "pgs_ok mn mx pb"
    using at f(3) pgs_frame [OF pgs f(3)] by (simp_all add: sys_at_def tasks_ok_def pb_frame_def)
  ultimately have "sys_at prompt k mn mx (g\<lparr>p_q := p_r g\<rparr>) (segs @ [c']) (s\<lparr>ps_pb := pb, ps_wr := W_idle, ps_inflight := ps_inflight s @ [c']\<rparr>)"
    using f(2) w(1) by (simp add: sys_at_def)
  then show ?thesis
    unfolding sys_inv_def by blast
qed

section \<open>Completion, synchronisation and discards\<close>

lemma step_complete:
  assumes inv: "sys_inv prompt k mn mx s" and c: "c \<in> set (ps_inflight s)" and op: "pblk_complete_write (ps_pb s) c = Some (ended, pb)"
  shows "sys_inv prompt k mn mx (s\<lparr>ps_pb := pb, ps_inflight := remove1 c (ps_inflight s), ps_flash := program (ps_flash s) (pb_rwb (ps_pb s)) c\<rparr>)"
proof -
  obtain g segs where at: "sys_at prompt k mn mx g segs s"
    using inv by (auto simp: sys_inv_def)
  define flash' where "flash' = program (ps_flash s) (pb_rwb (ps_pb s)) c"
  obtain s' segs' where f: "rb_core prompt k (g\<lparr>p_s := s'\<rparr>) flash' (ps_newest s) pb" "io_ok k (g\<lparr>p_s := s'\<rparr>) flash' (remove1 c (ps_inflight s)) segs' pb"
      "pb_frame ((ps_pb s)\<lparr>pb_compl_list := pb_compl_list pb\<rparr>) pb"
    using pblk_complete_ok [OF sys_core [OF at] sys_io [OF at] c] op unfolding flash'_def by auto
  have "tasks_ok prompt k (g\<lparr>p_s := s'\<rparr>) (rl_nr_secs (pb_rl pb)) (ps_tasks s)" "pgs_ok mn mx pb" "wr_ok k mn (g\<lparr>p_s := s'\<rparr>) (ps_wr s)"
    using at f(3) by (auto simp: sys_at_def tasks_ok_def pgs_ok_def pb_frame_def intro: wr_ok_cong)
  with f show ?thesis
    unfolding sys_inv_def flash'_def by (intro exI [of _ "g\<lparr>p_s := s'\<rparr>"] exI [of _ segs']) (simp add: sys_at_def)
qed

lemma sync_l2p_ok:
  assumes core: "rb_core d k g flash newest pb"
  shows "\<exists>pb'. pblk_rb_sync_l2p pb = Some pb' \<and> rb_core d k (g\<lparr>p_l := p_s g\<rparr>) flash newest pb' \<and> pb_frame pb pb' \<and> same_secs k (p_s g) (p_m g) (pb_rwb pb) (pb_rwb pb')"
proof -
  note pos = core_pos [OF core] and sh = core_shape [OF core]
  have "CIRC_CNT (rb_sync (pb_rwb pb)) (rb_l2p_update (pb_rwb pb)) (rb_nr_entries (pb_rwb pb)) = of_nat (p_s g - p_l g)"
    using core_idx [OF core] shape_D(4) [OF sh] pos ring_cnt [OF shape_D(2) [OF sh], of "p_l g" "p_s g"] by (simp add: rb_idx_def)
  moreover have "unat (of_nat (p_s g - p_l g) :: u32) = p_s g - p_l g"
    using pos by (intro small_nat [OF shape_D(2) [OF sh]]) simp
  ultimately have "pblk_rb_sync_l2p pb = pblk_rb_update_l2p_n pb (p_s g - p_l g)"
    by (simp add: pblk_rb_sync_l2p_def Let_def del: of_nat_diff)
  then show ?thesis
    using update_l2p_n_ok [OF core, of "p_s g - p_l g"] pos by auto
qed

lemma step_sync:
  assumes inv: "sys_inv prompt k mn mx s" and op: "pblk_rb_sync_l2p (ps_pb s) = Some pb"
  shows "sys_inv prompt k mn mx (s\<lparr>ps_pb := pb\<rparr>)"
proof -
  obtain g segs where at: "sys_at prompt k mn mx g segs s"
    using inv by (auto simp: sys_inv_def)
  note core = sys_core [OF at]
  have f: "rb_core prompt k (g\<lparr>p_l := p_s g\<rparr>) (ps_flash s) (ps_newest s) pb" "pb_frame (ps_pb s) pb" "same_secs k (p_s g) (p_m g) (pb_rwb (ps_pb s)) (pb_rwb pb)"
    using sync_l2p_ok [OF core] op by auto
  have "tasks_ok prompt k (g\<lparr>p_l := p_s g\<rparr>) (rl_nr_secs (pb_rl (ps_pb s))) (ps_tasks s)"
    using at by (simp add: sys_at_def tasks_ok_def)
  then have "sys_inv prompt k mn mx (s\<lparr>ps_pb := pb, ps_tasks := ps_tasks s, ps_newest := ps_newest s\<rparr>)"
    using same_secs_sub [OF f(3)] core_pos [OF core] by (intro sys_frame [OF at f(1) _ f(2)]) simp_all
  then show ?thesis
    by simp
qed

lemma invalidate_ok:
  assumes "rb_core d k g flash newest pb" "unat lba + n \<le> unat (rl_nr_secs (pb_rl pb))"
  shows "\<exists>pb'. invalidate_lbas pb lba n = Some pb' \<and> rb_core d k g flash (\<lambda>x. if unat lba \<le> x \<and> x < unat lba + n then None else newest x) pb' \<and>
    pb_frame pb pb' \<and> pb_rwb pb' = pb_rwb pb"
  using assms
proof (induction n arbitrary: pb lba newest)
  case 0
  moreover have "(\<lambda>x. if unat lba \<le> x \<and> x < unat lba + 0 then None else newest x) = newest"
    by (rule ext) auto
  ultimately show ?case
    by simp
next
  case (Suc n)
  note core = Suc.prems(1)
  have lba: "lba < rl_nr_secs (pb_rl pb)"
    using Suc.prems(2) by (simp add: word_less_nat_alt)
  note dev = map_dev [OF core lba]
  define p where "p = pb_trans_map pb ! unat lba"
  obtain pb1 where pb1: "(if \<not> nvm_addr_in_cache p \<and> \<not> ppa_empty p then pblk_page_invalidate pb p else Some pb) = Some pb1" "same_refs pb pb1"
    using page_invalidate_ok [of p pb] dev(2) same_refs_refl [of pb] unfolding p_def by (cases "\<not> nvm_addr_in_cache p \<and> \<not> ppa_empty p") (auto simp: p_def)
  define pb2 where "pb2 = pb1\<lparr>pb_trans_map := (pb_trans_map pb1)[unat lba := ADDR_EMPTY]\<rparr>"
  have tm: "pb_trans_map pb1 = pb_trans_map pb" "pb_rwb pb1 = pb_rwb pb" "pb_rl pb1 = pb_rl pb"
    using same_refsD(1-3) [OF pb1(2)] by simp_all
  have "rb_data k g (pb_rwb pb) ((pb_trans_map pb)[unat lba := ADDR_EMPTY]) flash (newest(unat lba := None))" if d
    using core_data [OF core that] dev(1) by (auto simp: rb_data_def nth_list_update intro: sec_okI(1))
  moreover have "map_typed k (unat (rl_nr_secs (pb_rl pb))) ((pb_trans_map pb)[unat lba := ADDR_EMPTY]) (pb_lines pb)"
    by (rule map_typed_upd [OF core_map [OF core]]) (simp add: ppa_empty_def)
  ultimately have 2: "rb_core d k g flash (newest(unat lba := None)) pb2" "pb_frame pb pb2" "pb_rwb pb2 = pb_rwb pb" "pb_rl pb2 = pb_rl pb"
    unfolding pb2_def tm(1) using core_tm [OF core pb1(2)] same_refs_frame [OF pb1(2)] tm by simp_all
  have "lba \<noteq> - 1"
    using lba by (metis word_order.extremum_strict)
  then have up: "unat (lba + 1) = Suc (unat lba)"
    by (rule word_Suc_unat)
  obtain pb' where 3: "invalidate_lbas pb2 (lba + 1) n = Some pb'"
      "rb_core d k g flash (\<lambda>x. if unat (lba + 1) \<le> x \<and> x < unat (lba + 1) + n then None else (newest(unat lba := None)) x) pb'" "pb_frame pb2 pb'" "pb_rwb pb' = pb_rwb pb2"
    using Suc.IH [OF 2(1), of "lba + 1"] Suc.prems(2) 2(4) up by auto
  have "(\<lambda>x. if unat (lba + 1) \<le> x \<and> x < unat (lba + 1) + n then None else (newest(unat lba := None)) x) =
      (\<lambda>x. if unat lba \<le> x \<and> x < unat lba + Suc n then None else newest x)"
    by (auto simp: up)
  moreover have "invalidate_lbas pb lba (Suc n) = Some pb'"
  proof -
    have "aget (pb_trans_map pb) (unat lba) = Some p"
      using dev(1) by (simp add: p_def)
    then show ?thesis
      using 3(1) by (simp only: invalidate_lbas.simps bind.bind_lunit pb1(1) pb2_def)
  qed
  ultimately show ?case
    using 3 2 pb_frame_trans [OF 2(2) 3(3)] by simp
qed

lemma step_discard:
  assumes inv: "sys_inv prompt k mn mx s" and op: "pblk_invalidate_range (ps_pb s) lba n = Some pb"
    and n: "unat lba + unat n \<le> unat (rl_nr_secs (pb_rl (ps_pb s)))"
  shows "sys_inv prompt k mn mx (s\<lparr>ps_pb := pb, ps_newest := (\<lambda>x. if unat lba \<le> x \<and> x < unat lba + unat n then None else ps_newest s x)\<rparr>)"
proof -
  obtain g segs where at: "sys_at prompt k mn mx g segs s"
    using inv by (auto simp: sys_inv_def)
  have "unat lba + unat n < 2 ^ 64"
    using n unsigned_less [of "rl_nr_secs (pb_rl (ps_pb s))", where 'a = nat] by simp
  then have "unat (lba + ucast n) - unat lba = unat n"
    by (simp add: unat_word_ariths(1) unat_up)
  then have f: "rb_core prompt k g (ps_flash s) (\<lambda>x. if unat lba \<le> x \<and> x < unat lba + unat n then None else ps_newest s x) pb" "pb_frame (ps_pb s) pb"
      "pb_rwb pb = pb_rwb (ps_pb s)"
    using invalidate_ok [OF sys_core [OF at] n] op by (auto simp: pblk_invalidate_range_def)
  have "tasks_ok prompt k g (rl_nr_secs (pb_rl (ps_pb s))) (ps_tasks s)"
    using at by (simp add: sys_at_def)
  then have "sys_inv prompt k mn mx (s\<lparr>ps_pb := pb, ps_tasks := ps_tasks s, ps_newest := (\<lambda>x. if unat lba \<le> x \<and> x < unat lba + unat n then None else ps_newest s x)\<rparr>)"
    by (intro sys_frame [OF at f(1) _ f(2)]) (simp_all add: f(3))
  then show ?thesis
    by simp
qed

lemma pstep_inv:
  assumes "pstep prompt s s'" "sys_inv prompt k mn mx s"
  shows "sys_inv prompt k mn mx s'"
  using assms
proof (cases rule: pstep.cases)
  case (copy j t d ds ppa pb)
  then show ?thesis
    using step_copy [of k mn mx s j t d ds ppa pb] assms(2) by simp
next
  case (copy_publish j t d ds ppa pb pb')
  then show ?thesis
    using step_copy_publish [OF assms(2)] by simp
qed (use assms(2) in \<open>simp_all add: step_insert step_publish step_commit step_read step_finish step_complete step_sync step_discard\<close>)

end
