(* ===== verification/Pblk_Safety.thy ===== *)
theory Pblk_Safety
  imports Pblk_System
begin

text \<open>
  The write buffer from its creation on: every reachable state is well formed, no operation stops the
  machine, and a read finds the data written last.
\<close>

section \<open>Creation\<close>

lemma init_set_ok:
  assumes "i + n \<le> length es"
  shows "\<exists>es'. rb_init_set es i fs n = Some es' \<and> length es' = length es \<and>
    (\<forall>j < length es. if i \<le> j \<and> j < i + n then re_cacheline (es' ! j) = pblk_cacheline_to_ppa (of_nat j) \<and> wx_flags (re_w_ctx (es' ! j)) = PBLK_WRITABLE_ENTRY
      else es' ! j = es ! j)"
  using assms
proof (induction n arbitrary: es i fs)
  case (Suc n)
  define es1 where "es1 = es[i := (es ! i)\<lparr>re_cacheline := pblk_cacheline_to_ppa (of_nat i),
    re_w_ctx := (re_w_ctx (es ! i))\<lparr>wx_flags := PBLK_WRITABLE_ENTRY, wx_bios := (if fs then wx_bios (re_w_ctx (es ! i)) else [])\<rparr>\<rparr>]"
  obtain es' where es': "rb_init_set es1 (Suc i) False n = Some es'" "length es' = length es1"
      "\<forall>j < length es1. if Suc i \<le> j \<and> j < Suc i + n then re_cacheline (es' ! j) = pblk_cacheline_to_ppa (of_nat j) \<and> wx_flags (re_w_ctx (es' ! j)) = PBLK_WRITABLE_ENTRY
        else es' ! j = es1 ! j"
    using Suc.IH [of "Suc i" es1 False] Suc.prems by (auto simp: es1_def)
  have "rb_init_set es i fs (Suc n) = Some es'"
    using es'(1) Suc.prems by (simp add: es1_def)
  moreover have "if i \<le> j \<and> j < i + Suc n then re_cacheline (es' ! j) = pblk_cacheline_to_ppa (of_nat j) \<and> wx_flags (re_w_ctx (es' ! j)) = PBLK_WRITABLE_ENTRY
      else es' ! j = es ! j" if "j < length es" for j
    using es'(3) [rule_format, of j] that Suc.prems by (cases "j = i") (auto simp: es1_def split: if_splits)
  ultimately show ?case
    using es'(2) by (auto simp: es1_def)
qed auto

text \<open>The entries before \<open>i\<close> have been prepared.\<close>

definition inited :: "nat \<Rightarrow> pblk_rb_entry list \<Rightarrow> bool" where
  "inited i es \<longleftrightarrow> (\<forall>j < i. re_cacheline (es ! j) = pblk_cacheline_to_ppa (of_nat j) \<and> wx_flags (re_w_ctx (es ! j)) = PBLK_WRITABLE_ENTRY)"

lemma init_sets_ok:
  assumes "i + iter * 2 ^ order \<le> length (rb_entries rb)" "inited i (rb_entries rb)" "rb_init_sets km pg order rb i iter = Some (0, rb')"
  shows "\<exists>es ps. rb' = rb\<lparr>rb_entries := es, rb_pages := ps\<rparr> \<and> length es = length (rb_entries rb) \<and> inited (i + iter * 2 ^ order) es"
  using assms
proof (induction iter arbitrary: rb i)
  case 0
  then show ?case
    by (intro exI [of _ "rb_entries rb"] exI [of _ "rb_pages rb"]) simp
next
  case (Suc iter)
  obtain es' where es': "rb_init_set (rb_entries rb) i True (2 ^ order) = Some es'" "length es' = length (rb_entries rb)"
      "\<forall>j < length (rb_entries rb). if i \<le> j \<and> j < i + 2 ^ order then re_cacheline (es' ! j) = pblk_cacheline_to_ppa (of_nat j) \<and> wx_flags (re_w_ctx (es' ! j)) = PBLK_WRITABLE_ENTRY
        else es' ! j = rb_entries rb ! j"
    using init_set_ok [of i "2 ^ order" "rb_entries rb" True] Suc.prems(1) by auto
  define rb1 where "rb1 = rb\<lparr>rb_entries := es', rb_pages := rb_pages rb @ [order]\<rparr>"
  have "inited (i + 2 ^ order) es'"
  proof (unfold inited_def, intro allI impI)
    fix j
    assume "j < i + 2 ^ order"
    then show "re_cacheline (es' ! j) = pblk_cacheline_to_ppa (of_nat j) \<and> wx_flags (re_w_ctx (es' ! j)) = PBLK_WRITABLE_ENTRY"
      using es'(3) [rule_format, of j] Suc.prems(1,2) by (auto simp: inited_def split: if_splits)
  qed
  moreover have "rb_init_sets km pg order rb1 (i + 2 ^ order) iter = Some (0, rb')"
    using Suc.prems(3) es'(1) by (auto simp: rb1_def split: if_splits)
  moreover have "i + 2 ^ order + iter * 2 ^ order \<le> length (rb_entries rb1)"
    using Suc.prems(1) es'(2) by (simp add: rb1_def)
  ultimately obtain es ps where "rb' = rb1\<lparr>rb_entries := es, rb_pages := ps\<rparr>" "length es = length (rb_entries rb1)" "inited (i + 2 ^ order + iter * 2 ^ order) es"
    using Suc.IH [of "i + 2 ^ order" rb1] by (auto simp: rb1_def)
  then show ?case
    using es'(2) by (intro exI [of _ es] exI [of _ ps]) (simp add: rb1_def add.assoc)
qed

definition pos0 :: rpos where
  "pos0 = \<lparr>p_l = 0, p_s = 0, p_q = 0, p_r = 0, p_b = 0, p_m = 0, p_T = {}\<rparr>"

lemma cl_of_nat:
  assumes "k < 32"
  shows "pblk_cacheline_to_ppa (of_nat (a mod 2 ^ k)) = cl k a"
proof -
  have "unat (ring k a) = a mod 2 ^ k"
    by (rule unat_ring [OF assms])
  then have "(ucast (ring k a) :: u64) = of_nat (a mod 2 ^ k)"
    by (metis of_nat_unat)
  then show ?thesis
    by simp
qed

lemma fresh_core:
  assumes k: "k < 31" and rb: "rb_nr_entries (pb_rwb pb) = 2 ^ k" "length (rb_entries (pb_rwb pb)) = 2 ^ k" "inited (2 ^ k) (rb_entries (pb_rwb pb))"
      "rb_mem (pb_rwb pb) = 0" "rb_subm (pb_rwb pb) = 0" "rb_sync (pb_rwb pb) = 0" "rb_l2p_update (pb_rwb pb) = 0"
    and tm: "pb_trans_map pb = replicate (unat (rl_nr_secs (pb_rl pb))) ADDR_EMPTY" and ref: "\<forall>line \<in> set (pb_lines pb). 0 < pl_ref line"
  shows "rb_core d k pos0 Map.empty Map.empty pb"
proof -
  have e: "re_cacheline (slot k (pb_rwb pb) a) = cl k a" "wx_flags (re_w_ctx (slot k (pb_rwb pb) a)) = PBLK_WRITABLE_ENTRY" for a
    using rb(3) k cl_of_nat [of k a] by (simp_all add: inited_def slot_def)
  have "rb_shape k (pb_rwb pb)"
    using k rb(1,2) e(1) by (simp add: rb_shape_def)
  moreover have "rb_idx k pos0 (pb_rwb pb)"
    using rb by (simp add: rb_idx_def pos0_def ring_def)
  moreover have "rb_flags k pos0 n (pb_rwb pb)" for n
    by (simp add: rb_flags_def fl_ok_def pos0_def e(2) flag_bits)
  moreover have "rb_ppas k pos0 (pb_rwb pb) (pb_lines pb)"
    using ref by (simp add: rb_ppas_def pos0_def)
  moreover have "map_typed k (unat (rl_nr_secs (pb_rl pb))) (pb_trans_map pb) (pb_lines pb)"
    by (simp add: map_typed_def tm ppa_empty_def)
  moreover have "rb_data k pos0 (pb_rwb pb) (pb_trans_map pb) Map.empty Map.empty"
    by (simp add: rb_data_def tm pos0_def sec_okI(1))
  ultimately show ?thesis
    by (simp add: rb_core_def)
qed

lemma rb_size: "p < 31 \<Longrightarrow> unat (2 ^ p :: u32) = 2 ^ p"
  using small_nat [of p "2 ^ p"] by simp

lemma rwb_init_fresh:
  assumes "pblk_rwb_init vz km pg max_order pb0 n sz = Some (0, pb)"
  obtains k rb where "7 \<le> k" "k < 31" "pb = pb0\<lparr>pb_rwb := rb, pb_rl := pblk_rl_init (pb_rl pb0) (2 ^ k)\<rparr>" "rb_nr_entries rb = 2 ^ k"
    "length (rb_entries rb) = 2 ^ k" "inited (2 ^ k) (rb_entries rb)" "rb_mem rb = 0" "rb_subm rb = 0" "rb_sync rb = 0" "rb_l2p_update rb = 0"
    "rb_sync_point rb = EMPTY_ENTRY"
proof -
  define k where "k = nat (max (get_count_order n) 7)"
  have k: "7 \<le> k" "k < 31"
    using assms by (auto simp: pblk_rwb_init_def pblk_rb_calculate_size_def k_def Let_def bind_eq_Some_conv res_simps)
  note sz = rb_size [OF k(2)]
  have "nat (get_count_order (2 ^ k)) = k"
    by (simp add: count_order_pow2)
  then have init: "pblk_rb_init km pg max_order pb0 (replicate (2 ^ k) zero_entry) k (nat (get_count_order sz')) = Some (0, pb)" if "sz' = sz" for sz'
    using assms that k(2) sz by (auto simp: pblk_rwb_init_def pblk_rb_calculate_size_def k_def [symmetric] Let_def bind_eq_Some_conv res_simps split: if_splits)
  define order iter where "order = min max_order k" and "iter = (if k \<ge> max_order then 2 ^ (k - max_order) else (1 :: nat))"
  have total: "iter * 2 ^ order = 2 ^ k"
    by (auto simp: order_def iter_def min_def simp flip: power_add)
  define rb0 where "rb0 = (pb_rwb pb0)\<lparr>rb_entries := replicate (2 ^ k) zero_entry, rb_seg_size := 2 ^ nat (get_count_order sz), rb_nr_entries := 2 ^ k,
    rb_mem := 0, rb_subm := 0, rb_sync := 0, rb_l2p_update := 0, rb_sync_point := EMPTY_ENTRY, rb_pages := []\<rparr>"
  obtain rb where rb: "rb_init_sets km pg order rb0 0 iter = Some (0, rb)" "pb = pb0\<lparr>pb_rwb := rb, pb_rl := pblk_rl_init (pb_rl pb0) (uint (rb_nr_entries rb))\<rparr>"
    using init [OF refl] by (auto simp: pblk_rb_init_def Let_def bind_eq_Some_conv res_simps order_def iter_def rb0_def split: if_splits)
  have "0 + iter * 2 ^ order \<le> length (rb_entries rb0)" "inited 0 (rb_entries rb0)"
    using total by (simp_all add: rb0_def inited_def)
  then obtain es ps where es: "rb = rb0\<lparr>rb_entries := es, rb_pages := ps\<rparr>" "length es = 2 ^ k" "inited (2 ^ k) es"
    using init_sets_ok [OF _ _ rb(1)] total by (auto simp: rb0_def)
  have "uint (2 ^ k :: u32) = 2 ^ k"
    using sz by (metis of_nat_numeral of_nat_power uint_nat)
  then show thesis
    using k rb(2) es by (intro that [of k rb]) (simp_all add: rb0_def)
qed

text \<open>With every allocation granted the buffer is created.\<close>

lemma init_sets_succeed:
  assumes "i + iter * 2 ^ order \<le> length (rb_entries rb)"
  shows "\<exists>rb'. rb_init_sets (\<lambda>_. True) (\<lambda>_. True) order rb i iter = Some (0, rb')"
  using assms
proof (induction iter arbitrary: rb i)
  case (Suc iter)
  obtain es' where es': "rb_init_set (rb_entries rb) i True (2 ^ order) = Some es'" "length es' = length (rb_entries rb)"
    using init_set_ok [of i "2 ^ order" "rb_entries rb" True] Suc.prems by auto
  then show ?case
    using Suc.IH [of "i + 2 ^ order" "rb\<lparr>rb_entries := es', rb_pages := rb_pages rb @ [order]\<rparr>"] Suc.prems by (simp add: add.assoc)
qed simp

lemma rwb_init_succeeds:
  assumes "get_count_order n < 31" "get_count_order sz < 31"
  shows "\<exists>pb. pblk_rwb_init True (\<lambda>_. True) (\<lambda>_. True) max_order pb0 n sz = Some (0, pb)"
proof -
  define k where "k = nat (max (get_count_order n) 7)"
  have k: "k < 31"
    using assms(1) by (simp add: k_def)
  define order iter where "order = min max_order k" and "iter = (if k \<ge> max_order then 2 ^ (k - max_order) else (1 :: nat))"
  have "iter * 2 ^ order = 2 ^ k"
    by (auto simp: order_def iter_def min_def simp flip: power_add)
  then have "\<exists>rb'. rb_init_sets (\<lambda>_. True) (\<lambda>_. True) order (rb\<lparr>rb_entries := replicate (2 ^ k) zero_entry, rb_seg_size := a, rb_nr_entries := b,
      rb_mem := 0, rb_subm := 0, rb_sync := 0, rb_l2p_update := 0, rb_sync_point := c, rb_pages := []\<rparr>) 0 iter = Some (0, rb')" for rb a b c
    by (intro init_sets_succeed) simp
  then obtain rb' where "rb_init_sets (\<lambda>_. True) (\<lambda>_. True) order ((pb_rwb pb0)\<lparr>rb_entries := replicate (2 ^ k) zero_entry, rb_seg_size := 2 ^ nat (get_count_order sz),
      rb_nr_entries := 2 ^ k, rb_mem := 0, rb_subm := 0, rb_sync := 0, rb_l2p_update := 0, rb_sync_point := EMPTY_ENTRY, rb_pages := []\<rparr>) 0 iter = Some (0, rb')"
    by blast
  moreover have "nat (get_count_order sz) < 31" "nat (get_count_order (2 ^ k)) = k"
    using assms(2) by (simp_all add: count_order_pow2)
  moreover from this have "pblk_rwb_init True (\<lambda>_. True) (\<lambda>_. True) max_order pb0 n sz =
      pblk_rb_init (\<lambda>_. True) (\<lambda>_. True) max_order pb0 (replicate (2 ^ k) zero_entry) k (nat (get_count_order sz))"
    using k rb_size [OF k] by (simp add: pblk_rwb_init_def pblk_rb_calculate_size_def Let_def k_def [symmetric])
  ultimately show ?thesis
    using k by (simp add: pblk_rb_init_def Let_def order_def [symmetric] iter_def [symmetric] del: rb_init_sets.simps split del: if_split)
qed

section \<open>Reachable states\<close>

text \<open>\<open>pblk_l2p_init\<close> of \<open>pblk-init.c\<close>; the flag is the outcome of \<open>vmalloc\<close>.\<close>

definition pblk_l2p_init :: "bool \<Rightarrow> pblk \<Rightarrow> int \<times> pblk" where
  "pblk_l2p_init vmalloc_ok pb = (if \<not> vmalloc_ok then (- 12, pb)
     else (0, pb\<lparr>pb_trans_map := replicate (unat (rl_nr_secs (pb_rl pb))) ADDR_EMPTY\<rparr>))"

text \<open>
  A start: the map and the buffer have been created, every line holds its own reference, and the write
  thread writes whole pages.
\<close>

definition pstart :: "psys \<Rightarrow> bool" where
  "pstart s \<longleftrightarrow> (\<exists>vz km pg max_order pb0 pb1 n sz. pblk_l2p_init True pb0 = (0, pb1) \<and> pblk_rwb_init vz km pg max_order pb1 n sz = Some (0, ps_pb s) \<and>
     pb_compl_list pb0 = [] \<and> (\<forall>line \<in> set (pb_lines pb0). 0 < pl_ref line) \<and> (\<exists>mn mx. pgs_ok mn mx pb0)) \<and>
     ps_tasks s = [] \<and> ps_wr s = W_idle \<and> ps_inflight s = [] \<and> ps_flash s = Map.empty \<and> ps_newest s = Map.empty"

definition preach :: "bool \<Rightarrow> psys \<Rightarrow> bool" where
  "preach prompt s \<longleftrightarrow> (\<exists>s0. pstart s0 \<and> (pstep prompt)\<^sup>*\<^sup>* s0 s)"

text \<open>Systems of steps with an inductive invariant.\<close>

locale step_system =
  fixes start :: "'s \<Rightarrow> bool" and step :: "'s \<Rightarrow> 's \<Rightarrow> bool" and inv :: "'s \<Rightarrow> bool"
  assumes inv_start: "start s \<Longrightarrow> inv s"
    and inv_step: "inv s \<Longrightarrow> step s s' \<Longrightarrow> inv s'"
begin

lemma inv_run: "step\<^sup>*\<^sup>* s s' \<Longrightarrow> inv s \<Longrightarrow> inv s'"
  by (induction rule: rtranclp_induct) (auto intro: inv_step)

lemma inv_reachable: "start s \<Longrightarrow> step\<^sup>*\<^sup>* s s' \<Longrightarrow> inv s'"
  using inv_run inv_start by blast

end

definition buffer_inv :: "bool \<Rightarrow> psys \<Rightarrow> bool" where
  "buffer_inv prompt s \<longleftrightarrow> (\<exists>k mn mx. sys_inv prompt k mn mx s)"

lemma pstart_inv:
  assumes "pstart s"
  shows "buffer_inv prompt s"
proof -
  obtain vz km pg mo pb0 pb1 n sz mn mx where st: "pblk_l2p_init True pb0 = (0, pb1)" "pblk_rwb_init vz km pg mo pb1 n sz = Some (0, ps_pb s)" "pb_compl_list pb0 = []"
      "\<forall>line \<in> set (pb_lines pb0). 0 < pl_ref line" "pgs_ok mn mx pb0" "ps_tasks s = []" "ps_wr s = W_idle" "ps_inflight s = []" "ps_flash s = Map.empty" "ps_newest s = Map.empty"
    using assms unfolding pstart_def by blast
  have pb1: "pb1 = pb0\<lparr>pb_trans_map := replicate (unat (rl_nr_secs (pb_rl pb0))) ADDR_EMPTY\<rparr>"
    using st(1) by (simp add: pblk_l2p_init_def)
  obtain k rb where r: "k < 31" "ps_pb s = pb1\<lparr>pb_rwb := rb, pb_rl := pblk_rl_init (pb_rl pb1) (2 ^ k)\<rparr>" "rb_nr_entries rb = 2 ^ k"
      "length (rb_entries rb) = 2 ^ k" "inited (2 ^ k) (rb_entries rb)" "rb_mem rb = 0" "rb_subm rb = 0" "rb_sync rb = 0" "rb_l2p_update rb = 0"
    using rwb_init_fresh [OF st(2)] by metis
  have nr: "rl_nr_secs (pblk_rl_init rl b) = rl_nr_secs rl" for rl b
    by (simp add: pblk_rl_init_def Let_def)
  have "rb_core prompt k pos0 Map.empty Map.empty (ps_pb s)"
    using r st(4) by (intro fresh_core) (simp_all add: nr pb1)
  moreover have "io_ok k pos0 Map.empty [] [] (ps_pb s)" "pgs_ok mn mx (ps_pb s)"
    using st(3,5) by (simp_all add: io_ok_def pos0_def r(2) pb1 pgs_ok_def)
  moreover have "tasks_ok prompt k pos0 nr' []" "wr_ok k mn pos0 W_idle" for nr'
    by (simp_all add: tasks_ok_def pos0_def)
  ultimately show ?thesis
    unfolding buffer_inv_def sys_inv_def using st(6-10) by (intro exI [of _ k] exI [of _ mn] exI [of _ mx] exI [of _ pos0] exI [of _ "[]"]) (simp add: sys_at_def)
qed

interpretation wbuf: step_system pstart "pstep prompt" "buffer_inv prompt" for prompt
proof
  show "buffer_inv prompt s" if "pstart s" for s
    using that by (rule pstart_inv)
  show "buffer_inv prompt s'" if "buffer_inv prompt s" "pstep prompt s s'" for s s'
    using that pstep_inv unfolding buffer_inv_def by blast
qed

lemma reach_inv: "preach prompt s \<Longrightarrow> buffer_inv prompt s"
  unfolding preach_def by (auto intro: wbuf.inv_reachable)

section \<open>Types\<close>

text \<open>
  A well-formed buffer: a table of \<open>nr_entries\<close> entries that know their index, four indices inside it that
  chase each other without overtaking, and a map whose addresses are empty, name an entry of the buffer
  or lie on a line of the device.
\<close>

definition ring_typed :: "pblk \<Rightarrow> bool" where
  "ring_typed pb \<longleftrightarrow> (let rb = pb_rwb pb; n = rb_nr_entries rb in
     length (rb_entries rb) = unat n \<and> (\<forall>i < length (rb_entries rb). re_cacheline (rb_entries rb ! i) = pblk_cacheline_to_ppa (of_nat i)) \<and>
     rb_mem rb < n \<and> rb_subm rb < n \<and> rb_sync rb < n \<and> rb_l2p_update rb < n \<and>
     unat (CIRC_CNT (rb_sync rb) (rb_l2p_update rb) n) + unat (CIRC_CNT (rb_subm rb) (rb_sync rb) n) + unat (CIRC_CNT (rb_mem rb) (rb_subm rb) n) < unat n \<and>
     length (pb_trans_map pb) = unat (rl_nr_secs (pb_rl pb)) \<and>
     (\<forall>p \<in> set (pb_trans_map pb). ppa_empty p \<or> nvm_addr_in_cache p \<and> \<not> pblk_rb_pos_oob rb (nvm_addr_to_cacheline p) \<or> ln p < length (pb_lines pb)))"

lemma core_typed:
  assumes core: "rb_core d k g flash newest pb"
  shows "ring_typed pb"
proof -
  note sh = core_shape [OF core] and pos = core_pos [OF core] and ix = core_idx [OF core] and k = shape_D(1,2) [OF core_shape [OF core]]
  have n: "rb_nr_entries (pb_rwb pb) = 2 ^ k" "unat (2 ^ k :: u32) = 2 ^ k"
    using shape_D(4) [OF sh] rb_size [OF k(1)] by simp_all
  have lt: "ring k a < 2 ^ k" for a
    by (simp add: word_less_nat_alt n(2) unat_ring [OF k(2)])
  have cnt: "unat (CIRC_CNT (ring k a) (ring k b) (2 ^ k)) = a - b" if "b \<le> a" "a < b + 2 ^ k" for a b
    unfolding ring_cnt [OF k(2) that] using that by (intro small_nat [OF k(2)]) simp
  have "unat (CIRC_CNT (ring k (p_s g)) (ring k (p_l g)) (2 ^ k)) + unat (CIRC_CNT (ring k (p_b g)) (ring k (p_s g)) (2 ^ k)) +
      unat (CIRC_CNT (ring k (p_m g)) (ring k (p_b g)) (2 ^ k)) = p_m g - p_l g"
    using pos by (simp add: cnt)
  moreover have "re_cacheline (rb_entries (pb_rwb pb) ! i) = pblk_cacheline_to_ppa (of_nat i)" if "i < 2 ^ k" for i
    using shape_D(5) [OF sh, of i] cl_of_nat [OF k(2), of i] that by (simp add: slot_def)
  moreover have "ppa_empty p \<or> nvm_addr_in_cache p \<and> \<not> pblk_rb_pos_oob (pb_rwb pb) (nvm_addr_to_cacheline p) \<or> ln p < length (pb_lines pb)"
    if "p \<in> set (pb_trans_map pb)" for p
  proof -
    have "(\<exists>a. p = cl k a) \<or> ppa_empty p \<or> ln p < length (pb_lines pb)"
      using core_map [OF core] that by (auto simp: map_typed_def in_set_conv_nth)
    moreover have "\<not> pblk_rb_pos_oob (pb_rwb pb) (nvm_addr_to_cacheline (cl k a))" for a
      using lt [of a] by (simp add: pblk_rb_pos_oob_def cl_facts(3) n(1) word_le_nat_alt word_less_nat_alt unat_up)
    ultimately show ?thesis
      using cl_facts(1) by blast
  qed
  ultimately show ?thesis
    using ix pos shape_D(3) [OF sh] n lt core_map [OF core] unfolding ring_typed_def Let_def by (simp add: rb_idx_def map_typed_def)
qed

text \<open>
  No operation that can run next stops the machine. The write thread waits for an entry only as long as
  a request has yet to copy its data there.
\<close>

definition no_stop :: "psys \<Rightarrow> bool" where
  "no_stop s \<longleftrightarrow> (let pb = ps_pb s; nr = unat (rl_nr_secs (pb_rl pb)) in
     (\<forall>bio fua n. n < 2 ^ 31 \<longrightarrow> pblk_rb_may_write_user pb bio fua (of_nat n) \<noteq> None) \<and>
     (\<forall>t \<in> set (ps_tasks s). \<forall>d ds. tk_pend t = None \<and> tk_rest t = d # ds \<longrightarrow>
        (\<exists>ppa pb'. copy_of pb t d = Some (ppa, pb') \<and> pblk_update_map_cache pb' (tk_lba t + of_nat (tk_i t)) ppa \<noteq> None)) \<and>
     (\<forall>t \<in> set (ps_tasks s). \<forall>lba ppa d. tk_pend t = Some (lba, ppa, d) \<longrightarrow> pblk_update_map_cache pb lba ppa \<noteq> None) \<and>
     submit_commit pb \<noteq> None \<and>
     (\<forall>c pos io n. ps_wr s = W_read c pos io (Suc n) \<longrightarrow> rb_read_entry (pb_rwb pb) pos True \<noteq> None \<or>
        (\<exists>t \<in> set (ps_tasks s). \<exists>j < length (tk_rest t). pblk_rb_wrap_pos (pb_rwb pb) (tk_bpos t + of_nat (tk_i t + j)) = pos)) \<and>
     (\<forall>c pos io pages. ps_wr s = W_read c pos io 0 \<and> alloc_ok s c pages \<longrightarrow> submit_finish pb c io pages \<noteq> None) \<and>
     (\<forall>c \<in> set (ps_inflight s). pblk_complete_write pb c \<noteq> None) \<and>
     pblk_rb_sync_l2p pb \<noteq> None \<and>
     (\<forall>lba n. unat lba + unat n \<le> nr \<longrightarrow> pblk_invalidate_range pb lba n \<noteq> None))"

lemma task_runs:
  assumes at: "sys_at prompt k mn mx g segs s" and t: "t \<in> set (ps_tasks s)" "tk_rest t = d # ds"
  shows "\<exists>ppa pb'. copy_of (ps_pb s) t d = Some (ppa, pb') \<and> pblk_update_map_cache pb' (tk_lba t + of_nat (tk_i t)) ppa \<noteq> None"
proof -
  obtain j where j: "j < length (ps_tasks s)" "t = ps_tasks s ! j"
    using t(1) by (auto simp: in_set_conv_nth)
  define lba where "lba = tk_lba t + of_nat (tk_i t)"
  obtain a where a: "lba < rl_nr_secs (pb_rl (ps_pb s))"
      "copy_of (ps_pb s) t d = Some (cl k a, (ps_pb s)\<lparr>pb_rwb := rb_copied k a PBLK_IOTYPE_USER lba d (pb_rwb (ps_pb s))\<rparr>)"
    using copy_at [OF at j t(2)] unfolding lba_def by metis
  have "pblk_update_map_cache ((ps_pb s)\<lparr>pb_rwb := rb_copied k a PBLK_IOTYPE_USER lba d (pb_rwb (ps_pb s))\<rparr>) lba (cl k a) \<noteq> None"
    using update_map_cache_ok [of lba "(ps_pb s)\<lparr>pb_rwb := rb_copied k a PBLK_IOTYPE_USER lba d (pb_rwb (ps_pb s))\<rparr>" "cl k a"] map_dev [OF sys_core [OF at] a(1)] a(1)
    by (auto simp: dev_addr_ok_def)
  then show ?thesis
    using a(2) by (auto simp: lba_def)
qed

lemma pend_runs:
  assumes at: "sys_at prompt k mn mx g segs s" and t: "t \<in> set (ps_tasks s)" "tk_pend t = Some (lba, ppa, d)"
  shows "pblk_update_map_cache (ps_pb s) lba ppa \<noteq> None"
proof -
  have "task_ok prompt k (rl_nr_secs (pb_rl (ps_pb s))) t"
    using at t(1) by (simp add: sys_at_def tasks_ok_def)
  then have "lba < rl_nr_secs (pb_rl (ps_pb s))"
    using t(2) by (simp add: task_ok_def)
  then show ?thesis
    using update_map_cache_ok [of lba "ps_pb s" ppa] map_dev [OF sys_core [OF at]] by (auto simp: dev_addr_ok_def)
qed

lemma reader_waits:
  assumes at: "sys_at prompt k mn mx g segs s" and wr: "ps_wr s = W_read c pos io (Suc n)" "rb_read_entry (pb_rwb (ps_pb s)) pos True = None"
  shows "\<exists>t \<in> set (ps_tasks s). \<exists>j < length (tk_rest t). pblk_rb_wrap_pos (pb_rwb (ps_pb s)) (tk_bpos t + of_nat (tk_i t + j)) = pos"
proof -
  note core = sys_core [OF at]
  have w: "pos = ring k (p_r g)" "p_r g + Suc n = p_b g"
    using at wr(1) by (simp_all add: sys_at_def)
  then have "ring k (p_r g) \<in> p_T g"
    using read_entry_waits [OF core, of True] core_pos [OF core] wr(2) by simp
  moreover have "p_T g = set (concat (map (task_idx k) (ps_tasks s)))"
    using at by (simp add: sys_at_def tasks_ok_def)
  ultimately obtain t where "t \<in> set (ps_tasks s)" "pos \<in> set (task_idx k t)"
    using w(1) by auto
  then show ?thesis
    using shape_D(4) [OF core_shape [OF core]] by (fastforce simp: task_idx_def pblk_rb_wrap_pos_def)
qed

lemma finish_runs:
  assumes at: "sys_at prompt k mn mx g segs s" and wr: "ps_wr s = W_read c pos io 0" "alloc_ok s c pages"
  shows "submit_finish (ps_pb s) c io pages \<noteq> None"
proof -
  have pgs: "pgs_ok mn mx (ps_pb s)" and w: "p_r g = p_b g" "cc_sentry c = ring k (p_q g)" "p_q g + nv c = p_b g" "batch_ok mn c"
    using at wr(1) by (simp_all add: sys_at_def)
  have "\<forall>page \<in> set pages. length page = mn" "length (concat pages) = nv c + unat (cc_nr_padded c)" "secs_ok (ps_pb s) (concat pages)"
    using wr(2) pgs unfolding alloc_ok_def pgs_ok_def by simp_all
  then show ?thesis
    using finish_ok [OF sys_core [OF at] pgs, of pages c io] w by auto
qed

lemma discard_runs:
  assumes core: "rb_core d k g flash newest pb" and n: "unat lba + unat n \<le> unat (rl_nr_secs (pb_rl pb))"
  shows "pblk_invalidate_range pb lba n \<noteq> None"
proof -
  have "unat lba + unat n < 2 ^ 64"
    using n unsigned_less [of "rl_nr_secs (pb_rl pb)", where 'a = nat] by simp
  then have "unat (lba + ucast n) - unat lba = unat n"
    by (simp add: unat_word_ariths(1) unat_up)
  then show ?thesis
    using invalidate_ok [OF core n] by (auto simp: pblk_invalidate_range_def)
qed

lemma sys_no_stop:
  assumes at: "sys_at prompt k mn mx g segs s"
  shows "no_stop s"
proof -
  note core = sys_core [OF at]
  have pgs: "pgs_ok mn mx (ps_pb s)"
    using at by (simp add: sys_at_def)
  have "pblk_rb_may_write_user (ps_pb s) bio fua (of_nat n) \<noteq> None" if "n < 2 ^ 31" for bio fua n
  proof -
    have "n < 2 ^ 32"
      using that by simp
    then show ?thesis
      using may_write_user_ok [OF core, of n bio fua] by auto
  qed
  moreover have "submit_commit (ps_pb s) \<noteq> None"
    using commit_ok [OF core pgs] by auto
  moreover have "pblk_complete_write (ps_pb s) c \<noteq> None" if "c \<in> set (ps_inflight s)" for c
    using pblk_complete_ok [OF core sys_io [OF at] that] by auto
  moreover have "pblk_rb_sync_l2p (ps_pb s) \<noteq> None"
    using sync_l2p_ok [OF core] by auto
  ultimately show ?thesis
    unfolding no_stop_def Let_def using task_runs [OF at] pend_runs [OF at] reader_waits [OF at] finish_runs [OF at] discard_runs [OF core] by blast
qed

section \<open>Reading\<close>

text \<open>The data a read returns, where the device answers for addresses on the media.\<close>

fun read_data :: "(ppa_addr \<rightharpoonup> page) \<Rightarrow> read_src \<Rightarrow> page option" where
  "read_data flash Hole = None"
| "read_data flash (Cached d) = Some d"
| "read_data flash (Media p) = flash p"

lemma core_read:
  assumes core: "rb_core True k g flash newest pb" and lba: "lba < rl_nr_secs (pb_rl pb)"
  shows "\<exists>src. read_sector pb lba = Some src \<and> read_data flash src = newest (unat lba)"
proof -
  note len = map_dev(1) [OF core lba] and sh = core_shape [OF core] and pos = core_pos [OF core]
  have "sec_ok k g (pb_rwb pb) flash (unat lba) (pb_trans_map pb ! unat lba) (newest (unat lba))"
    using core_data [OF core] len by (simp add: rb_data_def)
  then show ?thesis
  proof (cases rule: sec_ok_cases)
    case hole
    then show ?thesis
      using len by (simp add: read_sector_def pblk_get_lba_map_def ppa_empty_def)
  next
    case device
    then show ?thesis
      using len by (simp add: read_sector_def pblk_get_lba_map_def ppa_empty_def)
  next
    case (buffer a)
    have "\<not> bit (fl k (pb_rwb pb) a) 9"
      using core_fl [OF core, of a] buffer pos by (auto simp: fl_ok_def split: if_splits)
    moreover have "wx_lba (re_w_ctx (slot k (pb_rwb pb) a)) = lba"
      using buffer(5) by (simp add: word_unat_eq_iff)
    moreover have "aget (rb_entries (pb_rwb pb)) (unat (ucast (ring k a) :: u64)) = Some (slot k (pb_rwb pb) a)"
      using slot_get [OF sh, of a] shape_D(7) [OF sh, of a] by (simp add: unat_up)
    ultimately have "pblk_rb_copy_to_bio (pb_rwb pb) lba (nvm_addr_to_cacheline (cl k a)) = Some (Some (dt k (pb_rwb pb) a))"
      by (simp add: pblk_rb_copy_to_bio_def cl_facts(3) flag_tests)
    then show ?thesis
      using buffer len cl_facts(1,2) [of k a] by (simp add: read_sector_def pblk_get_lba_map_def ppa_empty_def)
  qed
qed

section \<open>A first write\<close>

definition demo_pblk :: pblk where
  "demo_pblk = \<lparr>pb_lines = [\<lparr>pl_id = 0, pl_state = PBLK_LINESTATE_OPEN, pl_gc_group = PBLK_LINEGC_NONE, pl_sec_in_line = 64, pl_blk_in_line = 1,
       pl_invalid_bitmap = {}, pl_left_ssecs = 64, pl_vsc = 64, pl_ref = 1\<rparr>],
     pb_l_mg = \<lparr>mg_lists = (\<lambda>_. []), mg_nr_free_lines = 0\<rparr>, pb_lm = \<lparr>lm_mid_thrs = 16, lm_high_thrs = 48\<rparr>,
     pb_ppaf = \<lparr>pg_offset = 8, lun_offset = 4, ch_offset = 3, pln_offset = 2, sec_offset = 0\<rparr>,
     pb_rwb = \<lparr>rb_entries = [], rb_mem = 0, rb_subm = 0, rb_sync = 0, rb_sync_point = 0, rb_l2p_update = 0, rb_nr_entries = 0, rb_seg_size = 0, rb_pages = []\<rparr>,
     pb_min_write_pgs = 4, pb_max_write_pgs = 8,
     pb_rl = \<lparr>rl_high_pw = 0, rl_low_pw = 0, rl_rb_windows_pw = 0, rl_rb_budget = 0, rl_rb_user_max = 0, rl_rb_user_cnt = 0, rl_rb_gc_max = 0,
       rl_rb_gc_rsv = 0, rl_rb_gc_cnt = 0, rl_rb_user_active = False, rl_nr_secs = 16, rl_total_blocks = 400, rl_free_blocks = 400, rl_u_timer = False\<rparr>,
     pb_trans_map = [], pb_compl_list = [], pb_gc = \<lparr>gc_active = False, gc_enabled = True, gc_forced = False\<rparr>, pb_close_ws = []\<rparr>"

lemma demo_start: "\<exists>s. pstart s \<and> rl_nr_secs (pb_rl (ps_pb s)) = 16"
proof -
  have *: "fls 100 = 7" "fls 4096 = 13"
    by (simp_all add: fls.simps)
  have "get_count_order 100 < 31" "get_count_order 4096 < 31"
    by (simp_all add: get_count_order_def Let_def *)
  then obtain pb where pb: "pblk_rwb_init True (\<lambda>_. True) (\<lambda>_. True) 10 (snd (pblk_l2p_init True demo_pblk)) 100 4096 = Some (0, pb)"
    using rwb_init_succeeds by blast
  obtain k rb where "pb = (snd (pblk_l2p_init True demo_pblk))\<lparr>pb_rwb := rb, pb_rl := pblk_rl_init (pb_rl (snd (pblk_l2p_init True demo_pblk))) (2 ^ k)\<rparr>"
    by (rule rwb_init_fresh [OF pb])
  then have "rl_nr_secs (pb_rl pb) = 16"
    by (simp add: pblk_l2p_init_def demo_pblk_def pblk_rl_init_def Let_def)
  moreover have "pgs_ok 4 8 demo_pblk"
    by (simp add: pgs_ok_def demo_pblk_def)
  moreover have "pblk_l2p_init True demo_pblk = (0, snd (pblk_l2p_init True demo_pblk))"
    by (simp add: pblk_l2p_init_def)
  ultimately have "pstart \<lparr>ps_pb = pb, ps_tasks = [], ps_wr = W_idle, ps_inflight = [], ps_flash = Map.empty, ps_newest = Map.empty\<rparr>"
    unfolding pstart_def using pb by (intro conjI exI) (assumption | simp add: demo_pblk_def)+
  with \<open>rl_nr_secs (pb_rl pb) = 16\<close> show ?thesis
    by (metis psys.select_convs(1))
qed

text \<open>A request for one sector is let into a new buffer.\<close>

lemma first_insert:
  assumes "pstart s"
  shows "\<exists>ret bpos pb. pblk_rb_may_write_user (ps_pb s) 0 False 1 = Some ((ret, bpos), pb) \<and> ret \<noteq> NVM_IO_REQUEUE \<and> rl_nr_secs (pb_rl pb) = rl_nr_secs (pb_rl (ps_pb s))"
proof -
  obtain vz km pg mo pb0 pb1 n sz where st: "pblk_l2p_init True pb0 = (0, pb1)" "pblk_rwb_init vz km pg mo pb1 n sz = Some (0, ps_pb s)"
      "\<forall>line \<in> set (pb_lines pb0). 0 < pl_ref line"
    using assms unfolding pstart_def by blast
  obtain k rb where r: "7 \<le> k" "k < 31" "ps_pb s = pb1\<lparr>pb_rwb := rb, pb_rl := pblk_rl_init (pb_rl pb1) (2 ^ k)\<rparr>" "rb_nr_entries rb = 2 ^ k"
      "length (rb_entries rb) = 2 ^ k" "inited (2 ^ k) (rb_entries rb)" "rb_mem rb = 0" "rb_subm rb = 0" "rb_sync rb = 0" "rb_l2p_update rb = 0"
    using rwb_init_fresh [OF st(2)] by metis
  have core: "rb_core False k pos0 Map.empty Map.empty (ps_pb s)"
    using r st(1,3) by (intro fresh_core) (auto simp: pblk_l2p_init_def pblk_rl_init_def Let_def)
  have big: "(128 :: nat) \<le> 2 ^ k"
    using power_increasing [OF r(1), of "2 :: nat"] by simp
  have "unat (CIRC_SPACE (rb_mem rb) (rb_sync rb) (rb_nr_entries rb)) = 2 ^ k - 1"
    using space_words(1) [OF core] by (simp add: r(3) pos0_def)
  then have room: "\<not> CIRC_SPACE (rb_mem rb) (rb_sync rb) (rb_nr_entries rb) < 1"
    using big by (simp add: word_less_nat_alt)
  have "\<not> (2 :: int) ^ k < 1"
    by (simp add: linorder_not_less)
  then have may: "pblk_rl_user_may_insert (pb_rl (ps_pb s)) (sint (1 :: u32))"
    by (simp add: pblk_rl_user_may_insert_def r(3) pblk_rl_init_def Let_def)
  have "pblk_rb_may_write_pos (ps_pb s) 1 \<noteq> Some (None, ps_pb s)"
    using room by (auto simp: pblk_rb_may_write_pos_def r(3) Let_def bind_eq_Some_conv)
  then have "pblk_rb_may_write_flush (ps_pb s) 1 0 False \<noteq> Some (None, ps_pb s)"
    using may_write_pos_ok [OF core, of 1] by (auto simp: pblk_rb_may_write_flush_def)
  then have "pblk_rb_may_write_user (ps_pb s) 0 False 1 \<noteq> Some ((NVM_IO_REQUEUE, 0), ps_pb s)"
    using may may_write_flush_ok [OF core, of 1 0 False] by (auto simp: pblk_rb_may_write_user_def)
  then show ?thesis
    using may_write_user_ok [OF core, of 1 0 False] by (auto simp: pb_frame_def)
qed

lemma first_write:
  assumes "pstart s" "0 < rl_nr_secs (pb_rl (ps_pb s))"
  shows "\<exists>s'. preach True s' \<and> ps_newest s' 0 = Some d \<and> 0 < rl_nr_secs (pb_rl (ps_pb s'))"
proof -
  obtain ret bpos pb where op: "pblk_rb_may_write_user (ps_pb s) 0 False (of_nat (length [d])) = Some ((ret, bpos), pb)" "ret \<noteq> NVM_IO_REQUEUE"
      "rl_nr_secs (pb_rl pb) = rl_nr_secs (pb_rl (ps_pb s))"
    using first_insert [OF assms(1)] by auto
  define t where "t = \<lparr>tk_bpos = bpos, tk_lba = 0, tk_i = 0, tk_rest = [d], tk_pend = None\<rparr>"
  define s1 where "s1 = s\<lparr>ps_pb := pb, ps_tasks := [t]\<rparr>"
  have "pstep True s s1"
    using pstep.insert [OF op(1), where prompt = True and lba = 0] op(2) assms unat_gt_0 [of "rl_nr_secs (pb_rl (ps_pb s))"]
    by (auto simp: s1_def t_def pstart_def word_less_nat_alt)
  then have r1: "preach True s1"
    unfolding preach_def using assms(1) by blast
  have t: "t \<in> set (ps_tasks s1)" "tk_pend t = None" "tk_rest t = [d]" "tk_lba t + of_nat (tk_i t) = 0" "0 < length (ps_tasks s1)" "t = ps_tasks s1 ! 0"
    by (simp_all add: s1_def t_def)
  obtain k mn mx g segs where at: "sys_at True k mn mx g segs s1"
    using reach_inv [OF r1] by (auto simp: buffer_inv_def sys_inv_def)
  obtain ppa pb' pb'' where c: "copy_of (ps_pb s1) t d = Some (ppa, pb')" "pblk_update_map_cache pb' (tk_lba t + of_nat (tk_i t)) ppa = Some pb''"
    using task_runs [OF at t(1,3)] by blast
  define s2 where "s2 = s1\<lparr>ps_pb := pb'', ps_tasks := (ps_tasks s1)[0 := t\<lparr>tk_i := Suc (tk_i t), tk_rest := []\<rparr>],
    ps_newest := (ps_newest s1)(unat (tk_lba t + of_nat (tk_i t)) \<mapsto> d)\<rparr>"
  have "pstep True s1 s2"
    unfolding s2_def by (rule pstep.copy_publish [OF t(5,6,2,3) c])
  then have "preach True s2"
    using r1 unfolding preach_def by (meson rtranclp.rtrancl_into_rtrancl)
  moreover have "ps_newest s2 0 = Some d"
    by (simp add: s2_def t(4))
  moreover have "rl_nr_secs (pb_rl pb'') = rl_nr_secs (pb_rl (ps_pb s1))"
  proof -
    obtain a where a: "tk_lba t + of_nat (tk_i t) < rl_nr_secs (pb_rl (ps_pb s1))"
        "copy_of (ps_pb s1) t d = Some (cl k a, (ps_pb s1)\<lparr>pb_rwb := rb_copied k a PBLK_IOTYPE_USER (tk_lba t + of_nat (tk_i t)) d (pb_rwb (ps_pb s1))\<rparr>)"
      by (rule copy_at [OF at t(5,6,3)])
    note lba = a(1)
    have "pb_rl pb' = pb_rl (ps_pb s1)" "pb_trans_map pb' = pb_trans_map (ps_pb s1)" "pb_lines pb' = pb_lines (ps_pb s1)"
      using a(2) c(1) by auto
    then obtain pb3 where "pb'' = pb3\<lparr>pb_trans_map := (pb_trans_map pb')[unat (tk_lba t + of_nat (tk_i t)) := ppa]\<rparr>" "same_refs pb' pb3"
      using update_map_cache_ok [of "tk_lba t + of_nat (tk_i t)" pb' ppa] c(2) lba map_dev [OF sys_core [OF at] lba] by (auto simp: dev_addr_ok_def)
    then show ?thesis
      using same_refsD(2) [of pb' pb3] \<open>pb_rl pb' = pb_rl (ps_pb s1)\<close> by simp
  qed
  then have "0 < rl_nr_secs (pb_rl (ps_pb s2))"
    using assms(2) op(3) by (simp add: s2_def s1_def)
  ultimately show ?thesis
    by blast
qed

section \<open>Properties\<close>





text \<open>C14: A write request the device reports as failed is completed like one that succeeded: the scan for
  the entry of the first failed sector finds nothing, so nothing is queued for another write and the
  buffer gives the sectors up.\<close>
theorem failed_write_completes:
  assumes "bit status b" and "\<forall>b' < b. \<not> bit status b'" and "b < length (cc_ppa_list c)" and "b \<le> unat (cc_nr_valid c)"
  shows "pblk_end_w_fail True rqd_ok pb c status = map_option (\<lambda>(ended, pb'). (None, ended, pb')) (pblk_complete_write pb c)"
proof -
  have "[0 ..< length (cc_ppa_list c)] = [0 ..< b] @ b # [Suc b ..< length (cc_ppa_list c)]"
    using assms(3) by (metis le_add_diff_inverse less_imp_le_nat upt_add_eq_append upt_conv_Cons zero_le)
  then have "filter (bit status) [0 ..< length (cc_ppa_list c)] = b # filter (bit status) [Suc b ..< length (cc_ppa_list c)]"
    using assms(1,2) by simp
  then show ?thesis
    using assms(3,4) by (cases "pblk_complete_write pb c") (simp_all add: pblk_end_w_fail_def Let_def pblk_rb_sync_scan_entry_def guard_def)
qed

definition demo_ctx :: pblk_c_ctx where
  "demo_ctx = \<lparr>cc_sentry = 4, cc_nr_valid = 2, cc_nr_padded = 0, cc_ppa_list = [16, 17]\<rparr>"

theorem failed_write_completes_witness:
  "pblk_end_w_fail True True demo_pblk demo_ctx 2 = Some (None, [], demo_pblk\<lparr>pb_compl_list := [demo_ctx]\<rparr>)"
proof -
  have "bit (2 :: u64) 1" "\<forall>b' < 1. \<not> bit (2 :: u64) b'"
    by (simp_all add: bit_2_iff)
  then have "pblk_end_w_fail True True demo_pblk demo_ctx 2 = map_option (\<lambda>(ended, pb'). (None, ended, pb')) (pblk_complete_write demo_pblk demo_ctx)"
    by (intro failed_write_completes [of _ 1]) (simp_all add: demo_ctx_def)
  then show ?thesis
    by (simp add: pblk_complete_write_def demo_pblk_def demo_ctx_def)
qed

end
