(* ===== verification/Fw_Queue.thy ===== *)
theory Fw_Queue
  imports FTL_Prelude
begin

text \<open>
  The firmware's queues of \<open>lib/queue.h\<close>: singly linked lists of nodes with a pointer to the first and
  to the last node. The links live in a store that maps the address of a node to its \<open>next\<close> pointer;
  \<^term>\<open>None\<close> is the null pointer, and an access through it stops the machine.
\<close>

section \<open>Operations\<close>

type_synonym qnode = "nat \<Rightarrow> nat option"

record Queue =
  q_size :: u32
  q_front :: "nat option"
  q_rear :: "nat option"

definition queue_init :: Queue where
  "queue_init = \<lparr>q_size = 0, q_front = None, q_rear = None\<rparr>"

definition queue_empty :: "Queue \<Rightarrow> bool" where
  "queue_empty q \<longleftrightarrow> q_size q = 0"

definition queue_size :: "Queue \<Rightarrow> u32" where
  "queue_size q = q_size q"

definition peek_queue :: "Queue \<Rightarrow> nat option" where
  "peek_queue q = q_front q"

definition enqueue :: "qnode \<Rightarrow> Queue \<Rightarrow> nat \<Rightarrow> (qnode \<times> Queue) option" where
  "enqueue nx q node = do {
     let nx = nx(node := None);
     (nx, q) \<leftarrow> (case q_front q of
         Some _ \<Rightarrow> do { rear \<leftarrow> q_rear q; Some (nx(rear := Some node), q) }
       | None \<Rightarrow> Some (nx, q\<lparr>q_front := Some node\<rparr>));
     Some (nx, q\<lparr>q_rear := Some node, q_size := q_size q + 1\<rparr>)
   }"

definition dequeue :: "qnode \<Rightarrow> Queue \<Rightarrow> (nat option \<times> qnode \<times> Queue) option" where
  "dequeue nx q =
     (if queue_empty q then Some (None, nx, q)
      else do {
        node \<leftarrow> q_front q;
        let nx = nx(node := None);
        let q = (if q_front q = q_rear q then q\<lparr>q_rear := None\<rparr> else q);
        front \<leftarrow> q_front q;
        Some (Some node, nx, q\<lparr>q_front := nx front, q_size := q_size q - 1\<rparr>)
      })"

definition enqueue_front :: "qnode \<Rightarrow> Queue \<Rightarrow> nat \<Rightarrow> qnode \<times> Queue" where
  "enqueue_front nx q node = (let
     nx = nx(node := q_front q);
     q = (if q_rear q = None then q\<lparr>q_rear := Some node\<rparr> else q)
   in (nx, q\<lparr>q_front := Some node, q_size := q_size q + 1\<rparr>))"

definition merge_queue :: "qnode \<Rightarrow> Queue \<Rightarrow> Queue \<Rightarrow> (qnode \<times> Queue \<times> Queue) option" where
  "merge_queue nx queue2 queue1 =
     (if q_front queue1 = None then Some (nx, queue2, queue1)
      else do {
        rear \<leftarrow> q_rear queue2;
        let nx = nx(rear := q_front queue1);
        Some (nx, queue2\<lparr>q_rear := q_rear queue1, q_size := q_size queue2 + q_size queue1\<rparr>, queue_init)
      })"

section \<open>The list a queue stands for\<close>

fun chain :: "qnode \<Rightarrow> nat option \<Rightarrow> nat list \<Rightarrow> bool" where
  "chain nx p [] \<longleftrightarrow> p = None"
| "chain nx p (x # xs) \<longleftrightarrow> p = Some x \<and> chain nx (nx x) xs"

definition q_rep :: "qnode \<Rightarrow> Queue \<Rightarrow> nat list \<Rightarrow> bool" where
  "q_rep nx q xs \<longleftrightarrow> distinct xs \<and> chain nx (q_front q) xs \<and> q_rear q = (if xs = [] then None else Some (last xs)) \<and>
     q_size q = of_nat (length xs) \<and> length xs < 2 ^ 32"

lemma chain_cong: "(\<And>x. x \<in> set xs \<Longrightarrow> nx' x = nx x) \<Longrightarrow> chain nx' p xs = chain nx p xs"
  by (induction xs arbitrary: p) auto

lemma chain_upd [simp]: "x \<notin> set xs \<Longrightarrow> chain (nx(x := v)) p xs = chain nx p xs"
  by (rule chain_cong) auto

lemma chain_append:
  assumes "distinct xs" "set xs \<inter> set ys = {}" "xs \<noteq> []" "chain nx p xs" "chain nx r ys"
  shows "chain (nx(last xs := r)) p (xs @ ys)"
  using assms
proof (induction xs arbitrary: p)
  case (Cons x xs)
  show ?case
  proof (cases "xs = []")
    case True
    with Cons(3,5,6) show ?thesis
      using chain_upd [of x ys nx r r] by (simp add: fun_upd_def)
  next
    case False
    then have "x \<noteq> last xs" using Cons(2) by auto
    with False Cons show ?thesis by simp
  qed
qed simp

lemma rep_init: "q_rep nx queue_init []"
  by (simp add: q_rep_def queue_init_def)

lemma size_zero: "q_rep nx q xs \<Longrightarrow> queue_empty q \<longleftrightarrow> xs = []"
  by (auto simp: q_rep_def queue_empty_def word_of_nat_eq_0_iff dest: nat_dvd_not_less)

text \<open>Additions at either end and the merge of two queues do what they should, as long as the queue that
  is merged into is not empty.\<close>

lemma enqueue_ok:
  assumes "q_rep nx q xs" "x \<notin> set xs" "Suc (length xs) < 2 ^ 32"
  shows "\<exists>nx' q'. enqueue nx q x = Some (nx', q') \<and> q_rep nx' q' (xs @ [x])"
proof (cases "xs = []")
  case True
  with assms show ?thesis
    by (auto simp: q_rep_def enqueue_def)
next
  case False
  have c: "chain (nx(x := None)) (q_front q) xs"
    using assms(1,2) by (simp add: q_rep_def)
  have "chain ((nx(x := None))(last xs := Some x)) (q_front q) (xs @ [x])"
    using assms False c by (intro chain_append) (auto simp: q_rep_def)
  with assms False c show ?thesis
    by (cases xs) (auto simp: q_rep_def enqueue_def)
qed

lemma enqueue_front_ok:
  assumes "q_rep nx q xs" "x \<notin> set xs" "Suc (length xs) < 2 ^ 32"
  shows "\<exists>nx' q'. enqueue_front nx q x = (nx', q') \<and> q_rep nx' q' (x # xs)"
  using assms by (auto simp: q_rep_def enqueue_front_def Let_def)

lemma merge_queue_ok:
  assumes "q_rep nx q2 xs" "q_rep nx q1 ys" "set xs \<inter> set ys = {}" "xs \<noteq> []" "length xs + length ys < 2 ^ 32"
  shows "\<exists>nx' q2' q1'. merge_queue nx q2 q1 = Some (nx', q2', q1') \<and> q_rep nx' q2' (xs @ ys) \<and> q_rep nx' q1' []"
proof (cases "ys = []")
  case True
  with assms show ?thesis
    by (auto simp: q_rep_def merge_queue_def)
next
  case False
  have "chain (nx(last xs := q_front q1)) (q_front q2) (xs @ ys)"
    using assms by (intro chain_append) (auto simp: q_rep_def)
  with assms False show ?thesis
    by (cases ys) (auto simp: q_rep_def merge_queue_def queue_init_def)
qed

lemma merge_into_empty:
  assumes "q_rep nx q2 []" "q_rep nx q1 (y # ys)"
  shows "merge_queue nx q2 q1 = None"
  using assms by (simp add: q_rep_def merge_queue_def)

lemma dequeue_nil: "q_rep nx q [] \<Longrightarrow> dequeue nx q = Some (None, nx, q)"
  using size_zero [of nx q "[]"] by (simp add: dequeue_def)

lemma dequeue_single:
  assumes "q_rep nx q [x]"
  shows "\<exists>nx' q'. dequeue nx q = Some (Some x, nx', q') \<and> q_rep nx' q' []"
  using assms size_zero [OF assms] by (auto simp: q_rep_def dequeue_def Let_def)

section \<open>Property\<close>

text \<open>C27: Taking a node from a queue of two or more loses all the others. \<open>dequeue\<close> clears the link of
  the first node before it follows it, so the queue has no first node although its size says it has; the
  next call stops the machine, and a node added instead is the only one left that can be reached.\<close>

theorem dequeue_loses_rest:
  assumes "q_rep nx q (x # y # ys)"
  shows "\<exists>nx' q'. dequeue nx q = Some (Some x, nx', q') \<and> peek_queue q' = None \<and> \<not> queue_empty q' \<and>
    queue_size q' = of_nat (Suc (length ys)) \<and> dequeue nx' q' = None \<and>
    (\<forall>z. \<exists>nx'' q''. enqueue nx' q' z = Some (nx'', q'') \<and> peek_queue q'' = Some z \<and> nx'' z = None)"
proof -
  have ne: "\<not> queue_empty q" "Some x \<noteq> q_rear q"
    using assms size_zero [OF assms] by (auto simp: q_rep_def)
  define q' where "q' = q\<lparr>q_front := None, q_size := of_nat (Suc (length ys))\<rparr>"
  have "dequeue nx q = Some (Some x, nx(x := None), q')"
    using assms ne by (simp add: dequeue_def q_rep_def q'_def)
  moreover have "\<not> queue_empty q'"
    using assms nat_dvd_not_less [of "Suc (length ys)" "2 ^ 32"]
    by (auto simp: queue_empty_def q'_def q_rep_def word_of_nat_eq_0_iff simp del: of_nat_Suc)
  ultimately show ?thesis
    by (auto simp: q'_def peek_queue_def queue_size_def dequeue_def enqueue_def)
qed

theorem dequeue_loses_rest_witness:
  "\<exists>nx q nx1 q1 nx2 q2. enqueue (\<lambda>_. None) queue_init 1 = Some (nx1, q1) \<and> enqueue nx1 q1 2 = Some (nx2, q2) \<and>
    dequeue nx2 q2 = Some (Some 1, nx, q) \<and> dequeue nx q = None"
proof -
  obtain nx1 q1 where 1: "enqueue (\<lambda>_. None) queue_init 1 = Some (nx1, q1)" "q_rep nx1 q1 [1]"
    using enqueue_ok [OF rep_init, of 1 "\<lambda>_. None"] by auto
  obtain nx2 q2 where 2: "enqueue nx1 q1 2 = Some (nx2, q2)" "q_rep nx2 q2 [1, 2]"
    using enqueue_ok [OF 1(2), of 2] by auto
  from dequeue_loses_rest [OF 2(2)] 1(1) 2(1) show ?thesis
    by blast
qed

end
