(* ===== verification/Fw_Rbtree.thy ===== *)
theory Fw_Rbtree
  imports FTL_Prelude "HOL-Library.Tree"
begin

text \<open>
  The tree the firmware sorts its blocks with, \<open>lib/rb-tree.c\<close> and \<open>include/rb-tree.h\<close>. Nodes live in a
  store that maps addresses to their contents; \<^term>\<open>None\<close> is the null pointer. The key is a field of the
  node, as the code of the insertion reads it.
\<close>

section \<open>Nodes\<close>

definition RB_RED :: u16 where "RB_RED = 0"
definition RB_BLACK :: u16 where "RB_BLACK = 1"

record rb_node =
  rb_color :: u16
  rb_parent :: "nat option"
  rb_right :: "nat option"
  rb_left :: "nat option"
  rb_key :: int

type_synonym rb_heap = "nat \<Rightarrow> rb_node"

definition rb_is_red :: "rb_node \<Rightarrow> bool" where
  "rb_is_red r \<longleftrightarrow> rb_color r AND RB_RED \<noteq> 0"

definition rb_is_black :: "rb_node \<Rightarrow> bool" where
  "rb_is_black r \<longleftrightarrow> rb_color r AND RB_BLACK \<noteq> 0"

definition rb_set_red :: "rb_heap \<Rightarrow> nat \<Rightarrow> rb_heap" where
  "rb_set_red h r = h(r := (h r)\<lparr>rb_color := RB_RED\<rparr>)"

definition rb_set_black :: "rb_heap \<Rightarrow> nat \<Rightarrow> rb_heap" where
  "rb_set_black h r = h(r := (h r)\<lparr>rb_color := RB_BLACK\<rparr>)"

definition rb_set_parent :: "rb_heap \<Rightarrow> nat option \<Rightarrow> nat option \<Rightarrow> rb_heap option" where
  "rb_set_parent h node p = do {
     n \<leftarrow> node;
     Some (h(n := (h n)\<lparr>rb_parent := p\<rparr>))
   }"

definition rb_set_left :: "rb_heap \<Rightarrow> nat \<Rightarrow> nat option \<Rightarrow> rb_heap option" where
  "rb_set_left h node child = rb_set_parent (h(node := (h node)\<lparr>rb_left := child\<rparr>)) child (Some node)"

definition rb_set_right :: "rb_heap \<Rightarrow> nat \<Rightarrow> nat option \<Rightarrow> rb_heap option" where
  "rb_set_right h node child = rb_set_parent (h(node := (h node)\<lparr>rb_right := child\<rparr>)) child (Some node)"

definition rb_is_left :: "rb_heap \<Rightarrow> nat \<Rightarrow> nat \<Rightarrow> bool" where
  "rb_is_left h node p \<longleftrightarrow> rb_left (h p) = Some node"

definition rb_is_right :: "rb_heap \<Rightarrow> nat \<Rightarrow> nat \<Rightarrow> bool" where
  "rb_is_right h node p \<longleftrightarrow> rb_right (h p) = Some node"

section \<open>Rotations and rebalancing\<close>

text \<open>The functions take and return the pointer to the root with the store. The left rotation links the
  wrong way round to the parent; the right one leaves the root alone.\<close>

definition left_rotate :: "nat option \<Rightarrow> rb_heap \<Rightarrow> nat \<Rightarrow> (nat option \<times> rb_heap) option" where
  "left_rotate root h node = do {
     right \<leftarrow> rb_right (h node);
     let parent = rb_parent (h node);
     h \<leftarrow> rb_set_right h node (rb_left (h right));
     h \<leftarrow> rb_set_left h right (Some node);
     (case parent of
        Some p \<Rightarrow> do {
          h \<leftarrow> (if rb_is_left h node p then rb_set_left h right parent else rb_set_right h right parent);
          Some (root, h)
        }
      | None \<Rightarrow> Some (Some right, h))
   }"

definition right_rotate :: "nat option \<Rightarrow> rb_heap \<Rightarrow> nat \<Rightarrow> (nat option \<times> rb_heap) option" where
  "right_rotate root h node = do {
     left \<leftarrow> rb_left (h node);
     let parent = rb_parent (h node);
     h \<leftarrow> rb_set_left h node (rb_right (h left));
     h \<leftarrow> rb_set_right h left (Some node);
     (case parent of
        Some p \<Rightarrow> do {
          h \<leftarrow> (if rb_is_left h node p then rb_set_left h p (Some left) else rb_set_right h p (Some left));
          Some (root, h)
        }
      | None \<Rightarrow> Some (root, h))
   }"

text \<open>One turn below a red parent: the next node to look at, or the rotations. \<open>uncle_of\<close>, \<open>is_inner\<close>,
  \<open>inner\<close> and \<open>outer\<close> are the mirror images of the two branches.\<close>

definition rebalance_side ::
    "(rb_node \<Rightarrow> nat option) \<Rightarrow> (rb_heap \<Rightarrow> nat \<Rightarrow> nat \<Rightarrow> bool) \<Rightarrow>
     (nat option \<Rightarrow> rb_heap \<Rightarrow> nat \<Rightarrow> (nat option \<times> rb_heap) option) \<Rightarrow>
     (nat option \<Rightarrow> rb_heap \<Rightarrow> nat \<Rightarrow> (nat option \<times> rb_heap) option) \<Rightarrow>
     nat option \<Rightarrow> rb_heap \<Rightarrow> nat \<Rightarrow> nat \<Rightarrow> nat \<Rightarrow> (nat option \<times> rb_heap \<times> nat) option" where
  "rebalance_side uncle_of is_inner inner outer root h node parent g =
     (case uncle_of (h g) of
        Some uncle \<Rightarrow>
          if rb_is_red (h uncle) then Some (root, rb_set_red (rb_set_black (rb_set_black h parent) uncle) g, g)
          else do {
            (root, h, node, parent) \<leftarrow> (if is_inner h node parent then do {
                (root, h) \<leftarrow> inner root h parent; Some (root, h, parent, node) } else Some (root, h, node, parent));
            (root, h) \<leftarrow> outer root (rb_set_red (rb_set_black h parent) g) g;
            Some (root, h, node)
          }
      | None \<Rightarrow> do {
          (root, h, node, parent) \<leftarrow> (if is_inner h node parent then do {
              (root, h) \<leftarrow> inner root h parent; Some (root, h, parent, node) } else Some (root, h, node, parent));
          (root, h) \<leftarrow> outer root (rb_set_red (rb_set_black h parent) g) g;
          Some (root, h, node)
        })"

partial_function (option) rb_rebalance :: "nat option \<Rightarrow> rb_heap \<Rightarrow> nat \<Rightarrow> (nat option \<times> rb_heap) option" where
  "rb_rebalance root h node = (case rb_parent (h node) of
     None \<Rightarrow> Some (root, h)
   | Some parent \<Rightarrow>
       if \<not> rb_is_red (h parent) then Some (root, h)
       else do {
         g \<leftarrow> rb_parent (h parent);
         (root, h, node) \<leftarrow>
           (if rb_is_left h parent g then rebalance_side rb_right rb_is_right left_rotate right_rotate root h node parent g
            else rebalance_side rb_left rb_is_left right_rotate left_rotate root h node parent g);
         rb_rebalance root h node
       })"

section \<open>Insertion\<close>

partial_function (option) rb_find_parent :: "rb_heap \<Rightarrow> int \<Rightarrow> nat option \<Rightarrow> nat option \<Rightarrow> nat option option" where
  "rb_find_parent h key temp temp_parent = (case temp of
     None \<Rightarrow> Some temp_parent
   | Some x \<Rightarrow> rb_find_parent h key (if key < rb_key (h x) then rb_left (h x) else rb_right (h x)) (Some x))"

definition rb_add_node :: "nat option \<Rightarrow> rb_heap \<Rightarrow> nat \<Rightarrow> (nat option \<times> rb_heap) option" where
  "rb_add_node root h node = do {
     temp_parent \<leftarrow> rb_find_parent h (rb_key (h node)) root None;
     (case temp_parent of
        Some p \<Rightarrow> do {
          h \<leftarrow> (if rb_key (h node) < rb_key (h p) then rb_set_left h p (Some node) else rb_set_right h p (Some node));
          Some (root, h)
        }
      | None \<Rightarrow> Some (Some node, h))
   }"

definition rb_insert_node :: "nat option \<Rightarrow> rb_heap \<Rightarrow> nat \<Rightarrow> (nat option \<times> rb_heap) option" where
  "rb_insert_node root h node = do {
     (root, h) \<leftarrow> rb_add_node root h node;
     rb_rebalance root h node
   }"

section \<open>The tree in the store\<close>

fun tree_at :: "rb_heap \<Rightarrow> nat option \<Rightarrow> nat option \<Rightarrow> nat tree \<Rightarrow> bool" where
  "tree_at h p par \<langle>\<rangle> \<longleftrightarrow> p = None"
| "tree_at h p par \<langle>l, x, r\<rangle> \<longleftrightarrow> p = Some x \<and> rb_parent (h x) = par \<and>
     tree_at h (rb_left (h x)) (Some x) l \<and> tree_at h (rb_right (h x)) (Some x) r"

fun ins :: "(nat \<Rightarrow> int) \<Rightarrow> nat \<Rightarrow> nat tree \<Rightarrow> nat tree" where
  "ins key n \<langle>\<rangle> = \<langle>\<langle>\<rangle>, n, \<langle>\<rangle>\<rangle>"
| "ins key n \<langle>l, x, r\<rangle> = (if key n < key x then \<langle>ins key n l, x, r\<rangle> else \<langle>l, x, ins key n r\<rangle>)"

fun slot :: "(nat \<Rightarrow> int) \<Rightarrow> int \<Rightarrow> nat tree \<Rightarrow> nat option \<Rightarrow> nat option" where
  "slot key k \<langle>\<rangle> par = par"
| "slot key k \<langle>l, x, r\<rangle> par = slot key k (if k < key x then l else r) (Some x)"

definition fresh_node :: "rb_node \<Rightarrow> bool" where
  "fresh_node r \<longleftrightarrow> rb_parent r = None \<and> rb_left r = None \<and> rb_right r = None"

text \<open>No node is ever red: the test masks the colour with \<^term>\<open>RB_RED\<close>, which is 0.\<close>

lemma never_red [simp]: "\<not> rb_is_red r"
  by (simp add: rb_is_red_def RB_RED_def)

lemma rebalance_nothing: "rb_rebalance root h node = Some (root, h)"
  by (subst rb_rebalance.simps) (simp split: option.split)

lemma tree_at_frame: "(\<And>x. x \<in> set_tree t \<Longrightarrow> h' x = h x) \<Longrightarrow> tree_at h' p par t = tree_at h p par t"
  by (induction t arbitrary: p par) auto

lemma find_parent_slot:
  "tree_at h p par t \<Longrightarrow> rb_find_parent h k p q = Some (slot (\<lambda>x. rb_key (h x)) k t q)"
proof (induction t arbitrary: p par q)
  case Leaf
  then show ?case by (simp add: rb_find_parent.simps)
next
  case (Node l x r)
  from Node.prems have "p = Some x" "tree_at h (rb_left (h x)) (Some x) l" "tree_at h (rb_right (h x)) (Some x) r"
    by simp_all
  with Node.IH show ?case by (simp add: rb_find_parent.simps [of h k "Some x"])
qed

lemma slot_in: "t \<noteq> \<langle>\<rangle> \<Longrightarrow> \<exists>q. slot key k t par = Some q \<and> q \<in> set_tree t"
proof (induction t arbitrary: par)
  case (Node l x r)
  from Node.IH(1) [of "Some x"] Node.IH(2) [of "Some x"] show ?case
    by (cases "l = \<langle>\<rangle>"; cases "r = \<langle>\<rangle>") auto
qed simp

definition attach :: "rb_heap \<Rightarrow> nat \<Rightarrow> nat \<Rightarrow> rb_heap" where
  "attach h q n = (let h' = h(q := (if rb_key (h n) < rb_key (h q) then (h q)\<lparr>rb_left := Some n\<rparr> else (h q)\<lparr>rb_right := Some n\<rparr>))
     in h'(n := (h' n)\<lparr>rb_parent := Some q\<rparr>))"

lemma attach_sel:
  "x \<noteq> q \<Longrightarrow> x \<noteq> n \<Longrightarrow> attach h q n x = h x" "rb_key (attach h q n x) = rb_key (h x)"
  "rb_color (attach h q n x) = rb_color (h x)"
  by (simp_all add: attach_def Let_def)

lemma attach_parent:
  "q \<noteq> n \<Longrightarrow> attach h q n q = (if rb_key (h n) < rb_key (h q) then (h q)\<lparr>rb_left := Some n\<rparr> else (h q)\<lparr>rb_right := Some n\<rparr>)"
  "q \<noteq> n \<Longrightarrow> attach h q n n = (h n)\<lparr>rb_parent := Some q\<rparr>"
  by (simp_all add: attach_def Let_def)

lemma attach_tree:
  assumes "tree_at h p par t" "t \<noteq> \<langle>\<rangle>" "n \<notin> set_tree t" "distinct (inorder t)" "fresh_node (h n)"
    and "slot (\<lambda>x. rb_key (h x)) (rb_key (h n)) t par = Some q"
  shows "tree_at (attach h q n) p par (ins (\<lambda>x. rb_key (h x)) n t)"
  using assms
proof (induction t arbitrary: p par)
  case (Node l x r)
  have d: "x \<notin> set_tree l" "x \<notin> set_tree r" "set_tree l \<inter> set_tree r = {}" "distinct (inorder l)" "distinct (inorder r)" "n \<noteq> x"
    using Node.prems(3,4) by auto
  have new: "tree_at (attach h q n) (Some n) (Some x) \<langle>\<langle>\<rangle>, n, \<langle>\<rangle>\<rangle>" if "q = x"
    using that d(6) Node.prems(5) by (simp add: attach_parent fresh_node_def)
  have keep: "tree_at (attach h q n) p' par' t' = tree_at h p' par' t'" if "q \<notin> set_tree t'" "n \<notin> set_tree t'" for p' par' t'
    using that by (intro tree_at_frame attach_sel(1)) auto
  show ?case
  proof (cases "rb_key (h n) < rb_key (h x)")
    case True
    show ?thesis
    proof (cases "l = \<langle>\<rangle>")
      case Leaf: True
      with True Node.prems(6) have q: "q = x" by simp
      with True Leaf d Node.prems keep [of r] new show ?thesis
        by (simp add: attach_parent(1))
    next
      case False
      have s: "slot (\<lambda>x. rb_key (h x)) (rb_key (h n)) l (Some x) = Some q"
        using True Node.prems(6) by simp
      then have q: "q \<in> set_tree l" using slot_in [OF False] by (metis option.inject)
      then have "attach h q n x = h x" "q \<notin> set_tree r"
        using d by (auto intro!: attach_sel(1))
      with True Node.IH(1) [OF _ False _ d(4) Node.prems(5) s] Node.prems keep [of r] show ?thesis
        by simp
    qed
  next
    case ge: False
    show ?thesis
    proof (cases "r = \<langle>\<rangle>")
      case Leaf: True
      with ge Node.prems(6) have q: "q = x" by simp
      with ge Leaf d Node.prems keep [of l] new show ?thesis
        by (simp add: attach_parent(1))
    next
      case False
      have s: "slot (\<lambda>x. rb_key (h x)) (rb_key (h n)) r (Some x) = Some q"
        using ge Node.prems(6) by simp
      then have q: "q \<in> set_tree r" using slot_in [OF False] by (metis option.inject)
      then have "attach h q n x = h x" "q \<notin> set_tree l"
        using d by (auto intro!: attach_sel(1))
      with ge Node.IH(2) [OF _ False _ d(5) Node.prems(5) s] Node.prems keep [of l] show ?thesis
        by simp
    qed
  qed
qed simp

section \<open>What insertion does\<close>

lemma insert_ok:
  assumes "tree_at h root None t" "distinct (inorder t)" "n \<notin> set_tree t" "fresh_node (h n)"
  shows "\<exists>root' h'. rb_insert_node root h n = Some (root', h') \<and> tree_at h' root' None (ins (\<lambda>x. rb_key (h x)) n t) \<and>
    (\<forall>x. rb_key (h' x) = rb_key (h x) \<and> rb_color (h' x) = rb_color (h x)) \<and> (\<forall>x. x \<notin> insert n (set_tree t) \<longrightarrow> h' x = h x)"
proof (cases "t = \<langle>\<rangle>")
  case True
  with assms show ?thesis
    by (simp add: rb_insert_node_def rb_add_node_def rb_find_parent.simps rebalance_nothing fresh_node_def)
next
  case False
  obtain q where q: "slot (\<lambda>x. rb_key (h x)) (rb_key (h n)) t None = Some q" "q \<in> set_tree t"
    using slot_in [OF False] by metis
  then have "q \<noteq> n" using assms(3) by blast
  then have "rb_insert_node root h n = Some (root, attach h q n)"
    using find_parent_slot [OF assms(1)] q(1)
    by (simp add: rb_insert_node_def rb_add_node_def rb_set_left_def rb_set_right_def rb_set_parent_def rebalance_nothing
        attach_def Let_def)
  moreover have "attach h q n x = h x" if "x \<notin> insert n (set_tree t)" for x
    using that q(2) by (intro attach_sel(1)) auto
  ultimately show ?thesis
    using attach_tree [OF assms(1) False assms(3,2,4) q(1)] by (simp add: attach_sel(2,3))
qed

lemma set_ins [simp]: "set_tree (ins key n t) = insert n (set_tree t)"
  by (induction t) auto

lemma distinct_ins: "distinct (inorder t) \<Longrightarrow> n \<notin> set_tree t \<Longrightarrow> distinct (inorder (ins key n t))"
  by (induction t) auto

lemma sorted_ins: "sorted (map key (inorder t)) \<Longrightarrow> sorted (map key (inorder (ins key n t)))"
  by (induction t) (auto simp: sorted_append)

text \<open>A tree that is a list: every left child is missing.\<close>

definition spine :: "nat list \<Rightarrow> nat tree" where
  "spine ns = foldr (\<lambda>x r. \<langle>\<langle>\<rangle>, x, r\<rangle>) ns \<langle>\<rangle>"

lemma spine_shape: "inorder (spine ns) = ns" "height (spine ns) = length ns"
  by (induction ns) (simp_all add: spine_def)

lemma ins_spine: "\<forall>x \<in> set ns. key x \<le> key n \<Longrightarrow> ins key n (spine ns) = spine (ns @ [n])"
  by (induction ns) (simp_all add: spine_def)

fun rb_insert_all :: "nat option \<Rightarrow> rb_heap \<Rightarrow> nat list \<Rightarrow> (nat option \<times> rb_heap) option" where
  "rb_insert_all root h [] = Some (root, h)"
| "rb_insert_all root h (n # ns) = do {
     (root, h) \<leftarrow> rb_insert_node root h n;
     rb_insert_all root h ns
   }"

text \<open>Nodes inserted in the order of their keys make a list, as deep as there are nodes.\<close>

lemma ascending_from:
  assumes "tree_at h root None (spine ms)" "distinct (ms @ ns)" "\<forall>n \<in> set ns. fresh_node (h n)"
    "sorted (map (\<lambda>n. rb_key (h n)) (ms @ ns))"
  shows "\<exists>root' h'. rb_insert_all root h ns = Some (root', h') \<and> tree_at h' root' None (spine (ms @ ns))"
  using assms
proof (induction ns arbitrary: h root ms)
  case Nil
  then show ?case by simp
next
  case (Cons n ns)
  have st: "set_tree (spine ms) = set ms" for ms by (metis set_inorder spine_shape(1))
  obtain r' h' where h': "rb_insert_node root h n = Some (r', h')" "tree_at h' r' None (ins (\<lambda>x. rb_key (h x)) n (spine ms))"
      "\<And>x. rb_key (h' x) = rb_key (h x)" "\<And>x. x \<notin> insert n (set ms) \<Longrightarrow> h' x = h x"
    using insert_ok [of h root "spine ms" n] Cons.prems by (auto simp: st spine_shape(1))
  have "ins (\<lambda>x. rb_key (h x)) n (spine ms) = spine (ms @ [n])"
    using Cons.prems(4) by (intro ins_spine) (auto simp: sorted_append)
  moreover have "\<forall>m \<in> set ns. fresh_node (h' m)"
  proof
    fix m assume "m \<in> set ns"
    with Cons.prems(2) have "m \<notin> insert n (set ms)" by auto
    with \<open>m \<in> set ns\<close> Cons.prems(3) h'(4) show "fresh_node (h' m)" by simp
  qed
  ultimately show ?case
    using Cons.IH [of h' r' "ms @ [n]"] Cons.prems h' by simp
qed

lemma ascending_degenerate:
  assumes "distinct ns" "\<forall>n \<in> set ns. fresh_node (h n)" "sorted (map (\<lambda>n. rb_key (h n)) ns)"
  shows "\<exists>root' h' t. rb_insert_all None h ns = Some (root', h') \<and> tree_at h' root' None t \<and> inorder t = ns \<and> height t = length ns"
  using ascending_from [of h None "[]" ns] assms spine_shape [of ns] by (auto simp: spine_def)

text \<open>C29: Insertion is that of a plain search tree. Into a well-linked tree whose keys are in order, a fresh
  node goes below the last node of its search path, so the tree stays well linked and in order and has
  gained that node; no node changes its colour or its place, since the test for a red node never holds and
  nothing is ever rebalanced.\<close>

theorem insert_search_tree:
  assumes "tree_at h root None t" and "distinct (inorder t)" and "sorted (map (\<lambda>x. rb_key (h x)) (inorder t))"
    and "n \<notin> set_tree t" and "fresh_node (h n)"
  shows "\<exists>root' h' t'. rb_insert_node root h n = Some (root', h') \<and> tree_at h' root' None t' \<and>
    t' = ins (\<lambda>x. rb_key (h x)) n t \<and> set_tree t' = insert n (set_tree t) \<and> distinct (inorder t') \<and>
    sorted (map (\<lambda>x. rb_key (h' x)) (inorder t')) \<and> (\<forall>x. rb_color (h' x) = rb_color (h x))"
proof -
  obtain root' h' where "rb_insert_node root h n = Some (root', h')" "tree_at h' root' None (ins (\<lambda>x. rb_key (h x)) n t)"
      "\<forall>x. rb_key (h' x) = rb_key (h x) \<and> rb_color (h' x) = rb_color (h x)"
    using insert_ok [OF assms(1,2,4,5)] by blast
  with sorted_ins [OF assms(3)] distinct_ins [OF assms(2,4)] show ?thesis
    by (intro exI [of _ root'] exI [of _ h'] exI [of _ "ins (\<lambda>x. rb_key (h x)) n t"]) simp
qed

definition demo_nodes :: rb_heap where
  "demo_nodes = (\<lambda>x. \<lparr>rb_color = RB_RED, rb_parent = None, rb_right = None, rb_left = None, rb_key = int x\<rparr>)"

theorem insert_search_tree_witness:
  "\<exists>root h. rb_insert_node None demo_nodes 3 = Some (root, h) \<and> tree_at h root None \<langle>\<langle>\<rangle>, 3, \<langle>\<rangle>\<rangle>"
  using insert_search_tree [of demo_nodes None "\<langle>\<rangle>" 3] by (auto simp: fresh_node_def demo_nodes_def)

end
