(* ===== verification/Fw_Rblock.thy ===== *)
theory Fw_Rblock
  imports Linked_Fifo
begin

text \<open>
  The block lists of the firmware: the lists of \<open>include/list.h\<close> linked through the block information, and
  the free list of \<open>ftl/rblock_mgmt.c\<close>. The list of free blocks is part of the primary page and passed as
  an argument, like the time and the next sequence number.
\<close>

section \<open>Data\<close>

definition RBLK_NUM :: nat where [simp]: "RBLK_NUM = 504"

datatype bmi_block_status = RBLK_FREE | RBLK_OPEN | RBLK_CLOSED | RBLK_RECYCLING | RBLK_OBSOLETED | RBLK_ERASING | RBLK_OFFLINE

record bmi_t =
  rb_blk :: u16
  rb_band :: u8
  rb_state :: bmi_block_status
  rb_sequence :: u32
  rb_timestamp :: u64
  rb_bb_grown_flag :: u8
  rb_pecycle :: u16
  rb_bb_cnt :: u16
  rb_prev :: u16
  rb_next :: u16

record dlist =
  dl_head :: u16
  dl_tail :: u16
  dl_size :: u16

record dlist_iter =
  di_next :: u16
  di_tail :: bool

section \<open>Operations\<close>

definition dlink_list_init :: dlist where
  "dlink_list_init = \<lparr>dl_head = 0xffff, dl_tail = 0xffff, dl_size = 0\<rparr>"

text \<open>The result of \<open>dlist_size\<close> is of type \<open>bool\<close>.\<close>

definition dlist_size :: "dlist \<Rightarrow> bool" where
  "dlist_size dl \<longleftrightarrow> dl_size dl \<noteq> 0"

definition dlist_empty :: "dlist \<Rightarrow> bool" where
  "dlist_empty dl \<longleftrightarrow> dl_size dl = 0"

definition peek_dlink_list :: "dlist \<Rightarrow> bool \<Rightarrow> int" where
  "peek_dlink_list dl pos = (if dlist_empty dl then - 1 else if pos then uint (dl_tail dl) else uint (dl_head dl))"

definition dlist_iter_init :: "dlist \<Rightarrow> bool \<Rightarrow> dlist_iter" where
  "dlist_iter_init dl dir = \<lparr>di_next = (if dir then dl_tail dl else dl_head dl), di_tail = dir\<rparr>"

definition rblk_iter :: "bmi_t list \<Rightarrow> dlist_iter \<Rightarrow> (u16 \<times> dlist_iter) option" where
  "rblk_iter tbl it = (let blk = di_next it in
     if blk = 0xffff then Some (blk, it)
     else do {
       item \<leftarrow> aget tbl (unat blk);
       Some (blk, it\<lparr>di_next := (if di_tail it then rb_next item else rb_prev item)\<rparr>)
     })"

definition get_prev_bmi :: "bmi_t list \<Rightarrow> u16 \<Rightarrow> nat option option" where
  "get_prev_bmi tbl blk = do {
     item \<leftarrow> aget tbl (unat blk);
     Some (if rb_prev item \<noteq> 0xffff then Some (unat (rb_prev item)) else None)
   }"

definition get_next_bmi :: "bmi_t list \<Rightarrow> u16 \<Rightarrow> nat option option" where
  "get_next_bmi tbl blk = do {
     item \<leftarrow> aget tbl (unat blk);
     Some (if rb_next item \<noteq> 0xffff then Some (unat (rb_next item)) else None)
   }"

definition push_to_rblk_dlist :: "bmi_t list \<Rightarrow> dlist \<Rightarrow> u16 \<Rightarrow> (bmi_t list \<times> dlist) option" where
  "push_to_rblk_dlist tbl dl blk = do {
     let old_tail = dl_tail dl;
     (tbl, dl) \<leftarrow>
       (if old_tail = 0xffff then do {
          tbl \<leftarrow> amod tbl (unat blk) (\<lambda>item. item\<lparr>rb_next := 0xffff, rb_prev := 0xffff\<rparr>);
          Some (tbl, dl\<lparr>dl_head := blk, dl_tail := blk\<rparr>)
        } else do {
          tbl \<leftarrow> amod tbl (unat blk) (\<lambda>item. item\<lparr>rb_next := old_tail, rb_prev := 0xffff\<rparr>);
          tbl \<leftarrow> amod tbl (unat old_tail) (\<lambda>nitem. nitem\<lparr>rb_prev := blk\<rparr>);
          Some (tbl, dl\<lparr>dl_tail := blk\<rparr>)
        });
     Some (tbl, dl\<lparr>dl_size := dl_size dl + 1\<rparr>)
   }"

definition pull_from_rblk_dlist :: "bmi_t list \<Rightarrow> dlist \<Rightarrow> (u16 \<times> bmi_t list \<times> dlist) option" where
  "pull_from_rblk_dlist tbl dl = (let old_head = dl_head dl in
     if old_head = 0xffff then Some (0xffff, tbl, dl)
     else do {
       (tbl, dl) \<leftarrow>
         (if dl_head dl = dl_tail dl then Some (tbl, dl\<lparr>dl_head := 0xffff, dl_tail := 0xffff\<rparr>)
          else do {
            p \<leftarrow> get_prev_bmi tbl old_head;
            p \<leftarrow> p;
            tbl \<leftarrow> amod tbl p (\<lambda>pitem. pitem\<lparr>rb_next := 0xffff\<rparr>);
            item \<leftarrow> aget tbl (unat old_head);
            Some (tbl, dl\<lparr>dl_head := rb_prev item\<rparr>)
          });
       tbl \<leftarrow> amod tbl (unat old_head) (\<lambda>item. item\<lparr>rb_next := 0xffff, rb_prev := 0xffff\<rparr>);
       Some (old_head, tbl, dl\<lparr>dl_size := dl_size dl - 1\<rparr>)
     })"

text \<open>The loops over a list, from its head and from its tail, with the blocks they visit.\<close>

partial_function (option) dlist_for_each_head :: "bmi_t list \<Rightarrow> u16 \<Rightarrow> u16 list option" where
  "dlist_for_each_head tbl blk =
     (if blk = 0xffff then Some []
      else do {
        item \<leftarrow> aget tbl (unat blk);
        blks \<leftarrow> dlist_for_each_head tbl (rb_prev item);
        Some (blk # blks)
      })"

partial_function (option) dlist_for_each_tail :: "bmi_t list \<Rightarrow> u16 \<Rightarrow> u16 list option" where
  "dlist_for_each_tail tbl blk =
     (if blk = 0xffff then Some []
      else do {
        item \<leftarrow> aget tbl (unat blk);
        blks \<leftarrow> dlist_for_each_tail tbl (rb_next item);
        Some (blk # blks)
      })"

text \<open>The state of the free list: block information, list and next sequence number.\<close>

record rblks =
  bmi_tbl :: "bmi_t list"
  free_list :: dlist
  seq_id :: u32

definition rblk_get_free :: "u64 \<Rightarrow> rblks \<Rightarrow> (u16 \<times> rblks) option" where
  "rblk_get_free now s = do {
     (blk, tbl, dl) \<leftarrow> pull_from_rblk_dlist (bmi_tbl s) (free_list s);
     tbl \<leftarrow> amod tbl (unat blk) (\<lambda>item. item\<lparr>rb_state := RBLK_OPEN, rb_timestamp := now, rb_sequence := seq_id s\<rparr>);
     Some (blk, \<lparr>bmi_tbl = tbl, free_list = dl, seq_id = seq_id s + 1\<rparr>)
   }"

definition add_blk_to_free_list :: "u16 \<Rightarrow> rblks \<Rightarrow> rblks option" where
  "add_blk_to_free_list blk s = do {
     (tbl, dl) \<leftarrow> push_to_rblk_dlist (bmi_tbl s) (free_list s) blk;
     tbl \<leftarrow> amod tbl (unat blk) (\<lambda>item. item\<lparr>rb_state := RBLK_FREE, rb_timestamp := 0, rb_sequence := 0\<rparr>);
     Some (s\<lparr>bmi_tbl := tbl, free_list := dl\<rparr>)
   }"

section \<open>The lists as linked queues\<close>

interpretation rl: link_store rb_next rb_prev "\<lambda>v. rb_next_update (\<lambda>_. v)"
    "\<lambda>v. rb_prev_update (\<lambda>_. v)" "0xffff :: u16"
  by unfold_locales simp_all

definition dlist_rep :: "bmi_t list \<times> dlist \<Rightarrow> nat list \<Rightarrow> bool" where
  "dlist_rep = (\<lambda>(tbl, dl) xs. length tbl = RBLK_NUM \<and>
     rl.linked tbl (dl_head dl) (dl_tail dl) xs \<and> dl_size dl = of_nat (length xs))"

lemma dlist_push:
  assumes "dlist_rep (tbl, dl) xs" "x < RBLK_NUM" "x \<notin> set xs"
  shows "\<exists>dl'. push_to_rblk_dlist tbl dl (of_nat x) = Some (rl.push_nodes tbl (dl_tail dl) x, dl') \<and>
    dlist_rep (rl.push_nodes tbl (dl_tail dl) x, dl') (xs @ [x])"
proof -
  have l: "rl.linked tbl (dl_head dl) (dl_tail dl) xs" and len: "length tbl = 504"
    using assms(1) by (simp_all add: dlist_rep_def)
  have t: "dl_tail dl \<noteq> 0xffff \<Longrightarrow> unat (dl_tail dl) < 504"
    using l len rl.linked_tail_nil [OF l] rl.linked_bound [OF l, of "last xs"] by (auto simp: rl.linked_def)
  have "push_to_rblk_dlist tbl dl (of_nat x) = Some (rl.push_nodes tbl (dl_tail dl) x,
      dl\<lparr>dl_head := (if dl_tail dl = 0xffff then of_nat x else dl_head dl), dl_tail := of_nat x, dl_size := dl_size dl + 1\<rparr>)"
    using assms(2) len t by (simp add: push_to_rblk_dlist_def rl.push_nodes_def Let_def)
  then show ?thesis
    using rl.linked_push [OF l] assms len by (simp add: dlist_rep_def)
qed

lemma dlist_pull:
  assumes "dlist_rep (tbl, dl) (x # xs)"
  shows "\<exists>dl'. pull_from_rblk_dlist tbl dl = Some (of_nat x, rl.pull_nodes tbl (dl_head dl) (dl_tail dl), dl') \<and>
    dlist_rep (rl.pull_nodes tbl (dl_head dl) (dl_tail dl), dl') xs"
proof -
  have l: "rl.linked tbl (dl_head dl) (dl_tail dl) (x # xs)" and len: "length tbl = 504"
    using assms by (simp_all add: dlist_rep_def)
  note q = rl.linked_pull [OF l]
  have x: "(of_nat x :: u16) \<noteq> 0xffff" "unat (of_nat x :: u16) = x" "x < 504"
    using rl.of_nat_nil [of x] q len by simp_all
  have p: "\<exists>y < 504. y \<noteq> x \<and> rb_prev (tbl ! x) = of_nat y" if "dl_head dl \<noteq> dl_tail dl"
    using q(4,5) that len rl.linked_distinct [OF l] by (metis distinct.simps(2) hd_in_set)
  have "pull_from_rblk_dlist tbl dl = Some (of_nat x, rl.pull_nodes tbl (dl_head dl) (dl_tail dl),
      dl\<lparr>dl_head := (if dl_head dl = dl_tail dl then 0xffff else rb_prev (tbl ! x)),
        dl_tail := (if dl_head dl = dl_tail dl then 0xffff else dl_tail dl), dl_size := dl_size dl - 1\<rparr>)"
  proof (cases "dl_head dl = dl_tail dl")
    case True
    with q(1) x len show ?thesis
      by (simp add: pull_from_rblk_dlist_def rl.pull_nodes_def)
  next
    case False
    with p obtain y where y: "y < 504" "y \<noteq> x" "rb_prev (tbl ! x) = of_nat y" by blast
    moreover have "(of_nat y :: u16) \<noteq> 0xffff" "unat (of_nat y :: u16) = y"
      using y(1) rl.of_nat_nil [of y] by simp_all
    ultimately show ?thesis
      using False q(1) x len by (simp add: pull_from_rblk_dlist_def rl.pull_nodes_def get_prev_bmi_def Let_def)
  qed
  then show ?thesis
    using q(6) len assms by (simp add: dlist_rep_def)
qed

lemma dlist_pull_nil: "dlist_rep (tbl, dl) [] \<Longrightarrow> pull_from_rblk_dlist tbl dl = Some (0xffff, tbl, dl)"
  by (simp add: dlist_rep_def pull_from_rblk_dlist_def)

definition dlist_push_op :: "bmi_t list \<times> dlist \<Rightarrow> nat \<Rightarrow> (bmi_t list \<times> dlist) option" where
  "dlist_push_op = (\<lambda>(tbl, dl) x. push_to_rblk_dlist tbl dl (of_nat x))"

definition dlist_pull_op :: "bmi_t list \<times> dlist \<Rightarrow> (nat option \<times> bmi_t list \<times> dlist) option" where
  "dlist_pull_op = (\<lambda>(tbl, dl). do {
     (b, tbl', dl') \<leftarrow> pull_from_rblk_dlist tbl dl;
     Some (if b = 0xffff then None else Some (unat b), tbl', dl')
   })"

interpretation dq: fifo_queue dlist_rep "\<lambda>_ x. x < RBLK_NUM" dlist_push_op dlist_pull_op
proof (unfold_locales, goal_cases)
  case (1 s xs x)
  then show ?case
    using dlist_push [of "fst s" "snd s" xs x] by (cases s) (auto simp: dlist_push_op_def)
next
  case (2 s)
  then show ?case
    using dlist_pull_nil [of "fst s" "snd s"] by (cases s) (simp add: dlist_pull_op_def)
next
  case (3 s x xs)
  moreover have "x < 0xffff"
    using 3 rl.linked_bound [of "fst s" _ _ "x # xs" x] by (cases s) (auto simp: dlist_rep_def)
  ultimately show ?case
    using dlist_pull [of "fst s" "snd s" x xs] rl.of_nat_nil [of x] by (cases s) (auto simp: dlist_pull_op_def)
qed

text \<open>The loop from the head visits the list in the order its blocks are pulled.\<close>

lemma for_each_head_from:
  assumes "rl.linked tbl h t xs" "i \<le> length xs"
  shows "dlist_for_each_head tbl (rl.link_of xs i) = Some (map of_nat (drop i xs))"
  using assms(2)
proof (induction "length xs - i" arbitrary: i)
  case 0
  then show ?case
    by (simp add: rl.link_of_def dlist_for_each_head.simps [of tbl "0xffff"])
next
  case (Suc n)
  then have i: "i < length xs" "n = length xs - Suc i" by simp_all
  have b: "xs ! i < length tbl" "xs ! i < 0xffff"
    using rl.linked_bound [OF assms(1), of "xs ! i"] i(1) by simp_all
  have "rb_prev (tbl ! (xs ! i)) = rl.link_of xs (Suc i)"
    using assms(1) i(1) by (simp add: rl.linked_def)
  moreover have "rl.link_of xs i = of_nat (xs ! i)"
    using i(1) by (simp add: rl.link_of_def)
  ultimately show ?case
    using Suc(1) [OF i(2)] i(1) b rl.of_nat_nil [of "xs ! i"] Cons_nth_drop_Suc [OF i(1), symmetric]
    by (simp add: dlist_for_each_head.simps [of tbl "of_nat (xs ! i)"])
qed

lemma for_each_head_list:
  assumes "dlist_rep (tbl, dl) xs"
  shows "dlist_for_each_head tbl (dl_head dl) = Some (map of_nat xs)"
proof -
  have l: "rl.linked tbl (dl_head dl) (dl_tail dl) xs"
    using assms by (simp add: dlist_rep_def)
  moreover from l have "dl_head dl = rl.link_of xs 0"
    by (simp add: rl.linked_def)
  ultimately show ?thesis
    using for_each_head_from [of tbl "dl_head dl" "dl_tail dl" xs 0] by simp
qed

section \<open>The free list\<close>

lemma dlist_rep_payload:
  assumes "dlist_rep (tbl, dl) xs" "x < RBLK_NUM" "rb_next item = rb_next (tbl ! x)" "rb_prev item = rb_prev (tbl ! x)"
  shows "dlist_rep (tbl[x := item], dl) xs"
proof -
  have l: "rl.linked tbl (dl_head dl) (dl_tail dl) xs" and len: "length tbl = 504"
    using assms(1) by (simp_all add: dlist_rep_def)
  have "rl.linked (tbl[x := item]) (dl_head dl) (dl_tail dl) xs"
    by (rule rl.linked_frame [OF l]) (use assms len in \<open>auto simp: nth_list_update\<close>)
  with assms(1) show ?thesis
    by (simp add: dlist_rep_def)
qed

lemma add_blk_ok:
  assumes "dlist_rep (bmi_tbl s, free_list s) xs" "x < RBLK_NUM" "x \<notin> set xs"
  shows "\<exists>s'. add_blk_to_free_list (of_nat x) s = Some s' \<and> dlist_rep (bmi_tbl s', free_list s') (xs @ [x]) \<and>
    rb_state (bmi_tbl s' ! x) = RBLK_FREE"
proof -
  obtain dl' where p: "push_to_rblk_dlist (bmi_tbl s) (free_list s) (of_nat x) =
        Some (rl.push_nodes (bmi_tbl s) (dl_tail (free_list s)) x, dl')"
      "dlist_rep (rl.push_nodes (bmi_tbl s) (dl_tail (free_list s)) x, dl') (xs @ [x])"
    using dlist_push [OF assms] by blast
  let ?t = "rl.push_nodes (bmi_tbl s) (dl_tail (free_list s)) x"
  have len: "length ?t = 504" "x < 504"
    using p(2) assms(2) by (simp_all add: dlist_rep_def)
  have "dlist_rep (?t[x := (?t ! x)\<lparr>rb_state := RBLK_FREE, rb_timestamp := 0, rb_sequence := 0\<rparr>], dl') (xs @ [x])"
    using dlist_rep_payload [OF p(2) assms(2)] by simp
  then show ?thesis
    using p(1) len by (simp add: add_blk_to_free_list_def)
qed

lemma get_free_ok:
  assumes "dlist_rep (bmi_tbl s, free_list s) (x # xs)"
  shows "\<exists>s'. rblk_get_free now s = Some (of_nat x, s') \<and> dlist_rep (bmi_tbl s', free_list s') xs \<and>
    rb_state (bmi_tbl s' ! x) = RBLK_OPEN \<and> rb_sequence (bmi_tbl s' ! x) = seq_id s \<and> seq_id s' = seq_id s + 1"
proof -
  obtain dl' where p: "pull_from_rblk_dlist (bmi_tbl s) (free_list s) =
        Some (of_nat x, rl.pull_nodes (bmi_tbl s) (dl_head (free_list s)) (dl_tail (free_list s)), dl')"
      "dlist_rep (rl.pull_nodes (bmi_tbl s) (dl_head (free_list s)) (dl_tail (free_list s)), dl') xs"
    using dlist_pull [OF assms] by blast
  let ?t = "rl.pull_nodes (bmi_tbl s) (dl_head (free_list s)) (dl_tail (free_list s))"
  have "x < length (bmi_tbl s)"
    using assms rl.linked_bound [of "bmi_tbl s" _ _ "x # xs" x] by (auto simp: dlist_rep_def)
  then have len: "length ?t = 504" "x < 504"
    using p(2) assms by (simp_all add: dlist_rep_def)
  have "dlist_rep (?t[x := (?t ! x)\<lparr>rb_state := RBLK_OPEN, rb_timestamp := now, rb_sequence := seq_id s\<rparr>], dl') xs"
    using dlist_rep_payload [OF p(2)] len(2) by simp
  then show ?thesis
    using p(1) len by (simp add: rblk_get_free_def)
qed

text \<open>An empty list yields the block \<open>0xffff\<close>, whose information is then written: behind the table.\<close>

lemma get_free_empty: "dlist_rep (bmi_tbl s, free_list s) [] \<Longrightarrow> rblk_get_free now s = None"
  by (simp add: rblk_get_free_def dlist_pull_nil) (simp add: dlist_rep_def)

end
