(* ===== verification/Fw_Badblock.thy ===== *)
theory Fw_Badblock
  imports FTL_Prelude
begin

text \<open>
  Bad dies and page types of the firmware: the geometry of \<open>config/cfg.h\<close>, the bad-block table and the
  search for the last good dies of \<open>ftl/badblock_mgmt.c\<close>, and the table of page types of
  \<open>ftl/sys_tbl.c\<close>. The bad-block page and the block information are arguments.
\<close>

section \<open>Geometry and addresses\<close>

definition fw_CFG_NAND_CH_NUM :: nat where [simp]: "fw_CFG_NAND_CH_NUM = 12"
definition fw_CFG_NAND_CP_NUM :: nat where [simp]: "fw_CFG_NAND_CP_NUM = 4"
definition fw_CFG_NAND_PL_NUM :: nat where [simp]: "fw_CFG_NAND_PL_NUM = 4"
definition fw_CFG_NAND_LUN_NUM :: nat where [simp]: "fw_CFG_NAND_LUN_NUM = 16"
definition fw_CFG_NAND_BLK_NUM :: nat where [simp]: "fw_CFG_NAND_BLK_NUM = 504"

definition PPA_PER_DIE :: nat where "PPA_PER_DIE = fw_CFG_NAND_CP_NUM * fw_CFG_NAND_PL_NUM"
definition PPA_PER_RPAGE :: nat where
  "PPA_PER_RPAGE = fw_CFG_NAND_CP_NUM * fw_CFG_NAND_PL_NUM * fw_CFG_NAND_LUN_NUM * fw_CFG_NAND_CH_NUM"

definition LUNCH_TO_DIE :: "nat \<Rightarrow> nat \<Rightarrow> u8" where
  "LUNCH_TO_DIE lun ch = of_nat (ch + lun * fw_CFG_NAND_CH_NUM)"

definition DIE_TO_CH :: "u8 \<Rightarrow> u8" where
  "DIE_TO_CH x = x mod of_nat fw_CFG_NAND_CH_NUM"

definition DIE_TO_LUN :: "u8 \<Rightarrow> u8" where
  "DIE_TO_LUN x = x div of_nat fw_CFG_NAND_CH_NUM"

text \<open>Addresses are words of bit fields, the copy within a page lowest.\<close>

type_synonym ppa_t = u32

definition fw_cp :: "ppa_t \<Rightarrow> u32" where "fw_cp p = bf_get 0 2 p"
definition fw_pl :: "ppa_t \<Rightarrow> u32" where "fw_pl p = bf_get 2 2 p"
definition fw_ch :: "ppa_t \<Rightarrow> u32" where "fw_ch p = bf_get 4 4 p"
definition fw_lun :: "ppa_t \<Rightarrow> u32" where "fw_lun p = bf_get 8 2 p"
definition fw_pg :: "ppa_t \<Rightarrow> u32" where "fw_pg p = bf_get 10 8 p"
definition fw_blk :: "ppa_t \<Rightarrow> u32" where "fw_blk p = bf_get 18 10 p"

definition CPL_MASK :: u32 where "CPL_MASK = push_bit 4 1 - 1"

text \<open>The log entry of a page is a 4-byte address and an 8-byte time stamp, 12 bytes as the header counts it.\<close>

definition sizeof_cp_log :: nat where "sizeof_cp_log = 12"

definition LOG_PAGE_SIZE :: nat where
  "LOG_PAGE_SIZE = (PPA_PER_RPAGE * sizeof_cp_log + (4096 - 1)) div 4096 * 4096"

definition PPA_PER_LOG_PAGE :: nat where
  "PPA_PER_LOG_PAGE = (LOG_PAGE_SIZE + 4096 - 1) div 4096"

definition LOG_PAGE_START_CPL :: nat where
  "LOG_PAGE_START_CPL = PPA_PER_DIE - PPA_PER_LOG_PAGE"

section \<open>The bad-block table\<close>

definition get_blk_bbt_base :: "u16 list list \<Rightarrow> u16 \<Rightarrow> u16 list option" where
  "get_blk_bbt_base bbt blk = do {
     guard (unat blk < fw_CFG_NAND_BLK_NUM);
     aget bbt (unat blk)
   }"

definition get_bbt :: "u16 list list \<Rightarrow> u16 \<Rightarrow> u8 \<Rightarrow> u8 \<Rightarrow> bool option" where
  "get_bbt bbt blk lun ch = do {
     luns \<leftarrow> aget bbt (unat blk);
     b \<leftarrow> aget luns (unat lun);
     Some (drop_bit (unat ch) b AND 1 \<noteq> 0)
   }"

definition is_bad_block :: "u16 list list \<Rightarrow> u16 \<Rightarrow> u8 \<Rightarrow> u8 \<Rightarrow> bool option" where
  "is_bad_block bbt blk lun ch = get_bbt bbt blk lun ch"

definition set_bbt :: "u16 list list \<Rightarrow> u16 \<Rightarrow> u8 \<Rightarrow> u8 \<Rightarrow> u16 list list option" where
  "set_bbt bbt blk lun ch = do {
     luns \<leftarrow> aget bbt (unat blk);
     luns \<leftarrow> amod luns (unat lun) (\<lambda>b. b OR push_bit (unat ch) 1);
     aset bbt (unat blk) luns
   }"

definition clear_bbt :: "u16 list list \<Rightarrow> u16 \<Rightarrow> u8 \<Rightarrow> u8 \<Rightarrow> u16 list list option" where
  "clear_bbt bbt blk lun ch = do {
     luns \<leftarrow> aget bbt (unat blk);
     luns \<leftarrow> amod luns (unat lun) (\<lambda>b. b AND NOT (push_bit (unat ch) 1));
     aset bbt (unat blk) luns
   }"

text \<open>
  The search: the channels of one LUN from the highest, then the next lower LUN. The \<open>break\<close> leaves the
  loop over the channels only. The array \<open>dies\<close> is the caller's; a store behind its end stops the machine.
\<close>

fun scan_channels :: "u16 \<Rightarrow> nat \<Rightarrow> nat \<Rightarrow> nat list \<Rightarrow> nat \<times> u8 list \<Rightarrow> (nat \<times> u8 list) option" where
  "scan_channels bitmap n lun [] st = Some st"
| "scan_channels bitmap n lun (ch # chs) (counter, dies) =
     (if bit bitmap ch then scan_channels bitmap n lun chs (counter, dies)
      else do {
        dies \<leftarrow> aset dies counter (LUNCH_TO_DIE lun ch);
        if counter + 1 = n then Some (counter + 1, dies)
        else scan_channels bitmap n lun chs (counter + 1, dies)
      })"

fun scan_luns :: "u16 list \<Rightarrow> nat \<Rightarrow> nat list \<Rightarrow> nat list \<Rightarrow> nat \<times> u8 list \<Rightarrow> (nat \<times> u8 list) option" where
  "scan_luns b n chs [] st = Some st"
| "scan_luns b n chs (lun # luns) st = do {
     bitmap \<leftarrow> aget b lun;
     st \<leftarrow> scan_channels bitmap n lun chs st;
     scan_luns b n chs luns st
   }"

definition get_lastn_good_die_within_range ::
    "u16 list list \<Rightarrow> u16 \<Rightarrow> u8 \<Rightarrow> u8 \<Rightarrow> u8 \<Rightarrow> u8 \<Rightarrow> u16 \<Rightarrow> u8 list \<Rightarrow> (bool \<times> u8 list) option" where
  "get_lastn_good_die_within_range bbt blk start_lun start_ch end_lun end_ch n dies = do {
     b \<leftarrow> get_blk_bbt_base bbt blk;
     (counter, dies) \<leftarrow> scan_luns b (unat n) (rev [unat start_ch ..< Suc (unat end_ch)])
       (rev [unat start_lun ..< Suc (unat end_lun)]) (0, dies);
     Some (counter = unat n, dies)
   }"

section \<open>Page types\<close>

datatype pg_type = NORMAL_PAGE | BADBLK_PAGE | FIRST_PAGE | FTL_LOG_PAGE | RAIF1_PAGE | RAIF2_PAGE | INVALID_PAGE

type_synonym pgtypes = "pg_type list list list"

definition set_page_type :: "pgtypes \<Rightarrow> u16 \<Rightarrow> u8 \<Rightarrow> u8 \<Rightarrow> pg_type \<Rightarrow> pgtypes option" where
  "set_page_type tbl blk lun ch t = do {
     luns \<leftarrow> aget tbl (unat blk);
     chs \<leftarrow> aget luns (unat lun);
     chs \<leftarrow> aset chs (unat ch) t;
     luns \<leftarrow> aset luns (unat lun) chs;
     aset tbl (unat blk) luns
   }"

definition get_page_type :: "pgtypes \<Rightarrow> u16 \<Rightarrow> u8 \<Rightarrow> u8 \<Rightarrow> pg_type option" where
  "get_page_type tbl blk lun ch = do {
     luns \<leftarrow> aget tbl (unat blk);
     chs \<leftarrow> aget luns (unat lun);
     aget chs (unat ch)
   }"

definition is_first_ppa :: "ppa_t \<Rightarrow> bool" where
  "is_first_ppa p \<longleftrightarrow> fw_pg p = 0 \<and> fw_lun p = 0 \<and> fw_pl p = 0 \<and> fw_cp p = 0"

definition lookup_page_type_fast :: "pgtypes \<Rightarrow> ppa_t \<Rightarrow> pg_type option" where
  "lookup_page_type_fast tbl p = do {
     t \<leftarrow> get_page_type tbl (ucast (fw_blk p)) (ucast (fw_lun p)) (ucast (fw_ch p));
     let t = (if t = NORMAL_PAGE \<and> is_first_ppa p then FIRST_PAGE else t);
     let cpl = (ucast (p AND CPL_MASK) :: u8);
     Some (if t = FTL_LOG_PAGE \<and> LOG_PAGE_START_CPL \<le> unat cpl then NORMAL_PAGE else t)
   }"

section \<open>What the tables keep\<close>

definition bbt_wf :: "u16 list list \<Rightarrow> bool" where
  "bbt_wf bbt \<longleftrightarrow> length bbt = fw_CFG_NAND_BLK_NUM \<and> (\<forall>luns \<in> set bbt. length luns = fw_CFG_NAND_LUN_NUM)"

lemma bbt_wf_nth: "bbt_wf bbt \<Longrightarrow> i < 504 \<Longrightarrow> length (bbt ! i) = 16"
  by (simp add: bbt_wf_def)

lemma get_bbt_in:
  assumes "bbt_wf bbt" "unat blk < 504" "unat lun < 16"
  shows "get_bbt bbt blk lun ch = Some (bit (bbt ! unat blk ! unat lun) (unat ch))"
  using assms bbt_wf_nth [OF assms(1,2)]
  by (auto simp: get_bbt_def bbt_wf_def bit_iff_odd_drop_bit and_one_eq odd_iff_mod_2_eq_one)

lemma set_bbt_ok:
  assumes "bbt_wf bbt" "unat blk < 504" "unat lun < 16" "unat ch < 16"
  shows "\<exists>bbt'. set_bbt bbt blk lun ch = Some bbt' \<and> bbt_wf bbt' \<and>
    (\<forall>blk' lun' ch'. unat blk' < 504 \<and> unat lun' < 16 \<longrightarrow>
      get_bbt bbt' blk' lun' ch' = (if (blk', lun', ch') = (blk, lun, ch) then Some True else get_bbt bbt blk' lun' ch'))"
proof -
  define bbt' where "bbt' = bbt[unat blk := (bbt ! unat blk)[unat lun := bbt ! unat blk ! unat lun OR push_bit (unat ch) 1]]"
  have wf: "bbt_wf bbt'"
    using assms(1,2) bbt_wf_nth [OF assms(1,2)] by (auto simp: bbt_wf_def bbt'_def dest!: set_update_subset_insert [THEN subsetD])
  moreover have "set_bbt bbt blk lun ch = Some bbt'"
    using assms bbt_wf_nth [OF assms(1,2)] by (simp add: set_bbt_def bbt'_def bbt_wf_def)
  moreover have "get_bbt bbt' blk' lun' ch' = (if (blk', lun', ch') = (blk, lun, ch) then Some True else get_bbt bbt blk' lun' ch')"
    if in_range: "unat blk' < 504" "unat lun' < 16" for blk' lun' ch'
  proof -
    have "bit (bbt' ! unat blk' ! unat lun') (unat ch') \<longleftrightarrow>
        (blk', lun', ch') = (blk, lun, ch) \<or> bit (bbt ! unat blk' ! unat lun') (unat ch')"
      using assms bbt_wf_nth [OF assms(1,2)]
      by (auto simp: bbt'_def bbt_wf_def nth_list_update bit_or_iff bit_exp_iff word_unat_eq_iff)
    then show ?thesis
      using get_bbt_in [OF wf in_range] get_bbt_in [OF assms(1) in_range] by auto
  qed
  ultimately show ?thesis by blast
qed

lemma page_type_set_get:
  assumes "set_page_type tbl blk lun ch t = Some tbl'"
  shows "get_page_type tbl' blk' lun' ch' = (if (blk', lun', ch') = (blk, lun, ch) then Some t else get_page_type tbl blk' lun' ch')"
  using assms by (auto simp: set_page_type_def get_page_type_def bind_eq_Some_conv res_simps aget_def nth_list_update word_unat_eq_iff split: if_splits)

text \<open>The field of the LUN has two bits for 16 LUNs: addresses of a LUN above 3 name another one.\<close>

lemma lun_field_small: "unat (fw_lun p) < 4"
  using bf_get_less [of 2 8 p] by (simp add: fw_lun_def word_less_nat_alt)

text \<open>Pages of the last copies of a log die are taken for normal ones, which the comment says of the first.\<close>

lemma log_page_reversed:
  assumes "get_page_type tbl (ucast (fw_blk p)) (ucast (fw_lun p)) (ucast (fw_ch p)) = Some FTL_LOG_PAGE"
  shows "lookup_page_type_fast tbl p = Some (if 7 \<le> unat (ucast (p AND CPL_MASK) :: u8) then NORMAL_PAGE else FTL_LOG_PAGE)"
  using assms by (simp add: lookup_page_type_fast_def LOG_PAGE_START_CPL_def PPA_PER_LOG_PAGE_def LOG_PAGE_SIZE_def
      PPA_PER_RPAGE_def PPA_PER_DIE_def sizeof_cp_log_def Let_def)

section \<open>The search for the last good dies\<close>

text \<open>The good dies of a LUN in the order of the scan.\<close>

definition goods :: "u16 \<Rightarrow> nat list \<Rightarrow> nat \<Rightarrow> u8 list" where
  "goods bitmap chs lun = map (LUNCH_TO_DIE lun) (filter (\<lambda>ch. \<not> bit bitmap ch) chs)"

text \<open>The scan finds what it wants in one LUN, and a lower LUN still has good dies.\<close>

fun overruns :: "nat \<Rightarrow> 'a list list \<Rightarrow> bool" where
  "overruns n [] \<longleftrightarrow> False"
| "overruns n (l # ls) \<longleftrightarrow> (if n \<le> length l then concat ls \<noteq> [] else overruns (n - length l) ls)"

definition stored :: "nat \<Rightarrow> u8 list \<Rightarrow> u8 list \<Rightarrow> u8 list" where
  "stored c gs dies = take c dies @ gs @ drop (c + length gs) dies"

lemma stored_Nil [simp]: "stored c [] dies = dies"
  by (simp add: stored_def)

lemma stored_Cons: "c < length dies \<Longrightarrow> stored (Suc c) gs (dies[c := g]) = stored c (g # gs) dies"
  by (simp add: stored_def take_Suc_conv_app_nth)

lemma length_stored [simp]: "c + length gs \<le> length dies \<Longrightarrow> length (stored c gs dies) = length dies"
  by (simp add: stored_def)

lemma stored_stored:
  "c + length gs + length hs \<le> length dies \<Longrightarrow> stored (c + length gs) hs (stored c gs dies) = stored c (gs @ hs) dies"
  by (simp add: stored_def ac_simps)

lemma scan_channels_ok:
  assumes "c < n" "length dies = n"
  shows "scan_channels bitmap n lun chs (c, dies) =
    Some (min n (c + length (goods bitmap chs lun)), stored c (take (n - c) (goods bitmap chs lun)) dies)"
  using assms
proof (induction chs arbitrary: c dies)
  case Nil
  then show ?case by (simp add: goods_def)
next
  case (Cons ch chs)
  show ?case
  proof (cases "bit bitmap ch")
    case True
    with Cons show ?thesis by (simp add: goods_def)
  next
    case False
    show ?thesis
    proof (cases "Suc c = n")
      case True
      then have "n - c = Suc 0" by simp
      with True False Cons(3) stored_Cons [of c dies "[]"] show ?thesis
        by (auto simp: goods_def)
    next
      case n: False
      with Cons(2) obtain m where "n - c = Suc m" "n - Suc c = m" by (cases "n - c") auto
      with False n Cons(1) [of "Suc c" "dies[c := LUNCH_TO_DIE lun ch]"] Cons(2,3) show ?thesis
        by (simp add: goods_def stored_Cons)
    qed
  qed
qed

lemma scan_channels_full:
  assumes "length dies = n"
  shows "scan_channels bitmap n lun chs (n, dies) = (if goods bitmap chs lun = [] then Some (n, dies) else None)"
  using assms by (induction chs) (auto simp: goods_def)

lemma scan_luns_full:
  assumes "length dies = n" "\<forall>lun \<in> set luns. lun < length b"
  shows "scan_luns b n chs luns (n, dies) =
    (if concat (map (\<lambda>lun. goods (b ! lun) chs lun) luns) = [] then Some (n, dies) else None)"
  using assms by (induction luns) (auto simp: scan_channels_full)

lemma scan_luns_ok:
  fixes chs :: "nat list"
  assumes "c < n" "length dies = n" "\<forall>lun \<in> set luns. lun < length b"
  defines "D \<equiv> map (\<lambda>lun. goods (b ! lun) chs lun) luns"
  shows "scan_luns b n chs luns (c, dies) =
    (if overruns (n - c) D then None else Some (min n (c + length (concat D)), stored c (take (n - c) (concat D)) dies))"
  using assms(1-3) unfolding D_def
proof (induction luns arbitrary: c dies)
  case Nil
  then show ?case by simp
next
  case (Cons lun luns)
  define g ds where "g = goods (b ! lun) chs lun" and "ds = map (\<lambda>lun. goods (b ! lun) chs lun) luns"
  have scan: "scan_channels (b ! lun) n lun chs (c, dies) = Some (min n (c + length g), stored c (take (n - c) g) dies)"
    using scan_channels_ok [OF Cons(2,3)] by (simp add: g_def)
  have "scan_luns b n chs (lun # luns) (c, dies) = (if overruns (n - c) (g # ds) then None
      else Some (min n (c + length (concat (g # ds))), stored c (take (n - c) (concat (g # ds))) dies))"
  proof (cases "n - c \<le> length g")
    case True
    then have "min n (c + length g) = n" "length (stored c (take (n - c) g) dies) = n"
      using Cons(2,3) by simp_all
    with True Cons(2-4) scan scan_luns_full [of "stored c (take (n - c) g) dies" n luns b chs] show ?thesis
      by (simp add: ds_def)
  next
    case False
    then have l: "c + length g < n" "min n (c + length g) = c + length g" "take (n - c) g = g"
        "take (n - c) (concat (g # ds)) = g @ take (n - (c + length g)) (concat ds)" "length (stored c g dies) = n"
      using Cons(3) by simp_all
    have st: "stored (c + length g) (take (n - (c + length g)) (concat ds)) (stored c g dies) =
        stored c (take (n - c) (concat (g # ds))) dies"
      unfolding l(4) using l(1) Cons(3) by (intro stored_stored) simp
    have "scan_luns b n chs (lun # luns) (c, dies) = scan_luns b n chs luns (c + length g, stored c g dies)"
      using scan l Cons(4) by simp
    also have "\<dots> = (if overruns (n - (c + length g)) ds then None
        else Some (min n (c + length g + length (concat ds)), stored c (take (n - c) (concat (g # ds))) dies))"
      using Cons(1) [OF l(1,5)] Cons(4) by (simp add: ds_def [symmetric] st)
    finally show ?thesis
      using False by (simp add: add.assoc)
  qed
  then show ?case
    by (simp add: g_def ds_def)
qed

text \<open>C28: What the search for the last good dies does. Given an array of the \<open>n\<close> dies it is to find, it
  returns the last \<open>n\<close> good dies of the range from the highest, or reports that there are fewer; but when
  it has found them and a lower LUN of the range still has a good die, it goes on and stores behind the
  end of the array.\<close>

theorem last_good_dies:
  fixes start_lun start_ch end_ch :: u8
  assumes "bbt_wf bbt" and "unat blk < fw_CFG_NAND_BLK_NUM" and "unat end_lun < fw_CFG_NAND_LUN_NUM"
    and "0 < n" and "length dies = unat n"
  defines "D \<equiv> map (\<lambda>lun. goods (bbt ! unat blk ! lun) (rev [unat start_ch ..< Suc (unat end_ch)]) lun)
    (rev [unat start_lun ..< Suc (unat end_lun)])"
  shows "get_lastn_good_die_within_range bbt blk start_lun start_ch end_lun end_ch n dies =
    (if overruns (unat n) D then None
     else Some (unat n \<le> length (concat D), take (unat n) (concat D) @ drop (length (concat D)) dies))"
proof -
  have n: "0 < unat n" using assms(4) by (simp add: word_less_nat_alt)
  have b: "get_blk_bbt_base bbt blk = Some (bbt ! unat blk)"
    using assms(1,2) by (simp add: get_blk_bbt_base_def bbt_wf_def)
  have l: "\<forall>lun \<in> set (rev [unat start_lun ..< Suc (unat end_lun)]). lun < length (bbt ! unat blk)"
    using assms(3) bbt_wf_nth [OF assms(1), of "unat blk"] assms(2) by auto
  show ?thesis
    unfolding get_lastn_good_die_within_range_def b
    using scan_luns_ok [OF n assms(5) l, of "rev [unat start_ch ..< Suc (unat end_ch)]"] assms(5)
    by (simp add: D_def stored_def min_def del: upt_Suc)
qed

text \<open>On a block without bad dies the unit of four LUNs overruns an array of one.\<close>

theorem last_good_dies_witness:
  "get_lastn_good_die_within_range (replicate 504 (replicate 16 0)) 7 0 0 3 11 1 [0] = None \<and>
   get_lastn_good_die_within_range (replicate 504 (replicate 16 0)) 7 3 11 3 11 1 [0] = Some (True, [47])"
proof -
  let ?bbt = "replicate 504 (replicate 16 0) :: u16 list list"
  have wf: "bbt_wf ?bbt" by (simp add: bbt_wf_def)
  have r: "rev [0 ..< 12] = [11, 10, 9, 8, 7, 6, 5, 4, 3, 2, 1, 0 :: nat]" "rev [0 ..< 4] = [3, 2, 1, 0 :: nat]"
    by code_simp+
  have "get_lastn_good_die_within_range ?bbt 7 0 0 3 11 1 [0] = None"
    using last_good_dies [OF wf, where blk = 7 and start_lun = 0 and start_ch = 0 and end_lun = 3 and end_ch = 11 and n = 1
        and dies = "[0]"]
    by (simp add: goods_def r)
  moreover have "get_lastn_good_die_within_range ?bbt 7 3 11 3 11 1 [0] = Some (True, [47])"
    using last_good_dies [OF wf, where blk = 7 and start_lun = 3 and start_ch = 11 and end_lun = 3 and end_ch = 11 and n = 1
        and dies = "[0]"]
    by (simp add: goods_def LUNCH_TO_DIE_def)
  ultimately show ?thesis by blast
qed

end
