(* ===== verification/Spec2Isabelle.thy ===== *)
theory Spec2Isabelle
  imports Fscftl_Init Write_Threads Pblk_Safety Fw_Queue Fw_Rbtree Fw_Rblock Fw_Badblock
begin

text \<open>
  A verification library for the repository's SSD software: the host-based flash translation layer
  \<open>fscftl\<close> (\<open>src/Host-Base/drivers/fscftl\<close>), the write buffer of the kernel's \<open>pblk\<close> target that comes with
  it (\<open>src/Host-Base/drivers/lightnvm\<close>), and the library and block management of the device firmware
  (\<open>src/FW-Base\<close>). The three share no code; the theories of each form a branch of their own over
  \<open>FTL_Prelude\<close>.

  \<^bold>\<open>Conventions.\<close> A C integer is a word of its width, with wrap-around where the code has it; a struct is a
  record, an enum a datatype, a bit field is read and written by \<open>bf_get\<close> and \<open>bf_set\<close>. An array is a list with
  checked access (\<open>aget\<close>, \<open>aset\<close>, \<open>amod\<close>). Code that can stop the machine (a failed \<open>BUG_ON\<close>, a null
  pointer, an access outside an array, an undefined shift, a loop that never ends) is in the option
  monad and \<^term>\<open>None\<close> is the stop; return codes are values. What the kernel answers (memory,
  copies from user space, outcomes of device commands) and what files outside \<open>src\<close> provide are arguments. Loops
  are structural where they can be; those that may run for ever are \<open>partial_function (option)\<close>, and
  that they return is proved. Locks do not appear: what the code does under a lock is one step.

  \<^bold>\<open>fscftl, data.\<close> \<open>Flash_Cfg\<close> holds the geometry of the selected configuration and the addresses
  (\<open>hwcfg/cfg\<close>, \<open>utils.h\<close>); \<open>Linked_Fifo\<close> the queues linked by index, as the locale \<open>link_store\<close> with
  the contract \<open>fifo_queue\<close>, interpreted on the block pools, the entity FIFOs and the firmware's block lists; \<open>Sys_Meta\<close> the
  system tables (\<open>systbl/sys-meta.c\<close>); \<open>Wcb_Mngr\<close> the write cache of 16 entities with 128 slots
  (\<open>writecache/wcb-mngr.c\<close>).

  \<^bold>\<open>fscftl, write path.\<close> \<open>Bio_Write\<close> translates \<open>datapath/bio-wr.c\<close> and \<open>fscftl_make_rq\<close> of \<open>namespace.c\<close>: a
  request takes slots, copies its pages, updates the mapping and fills entities; the back end programs
  the eight lines of a full entity and recycles it when all have completed; requests that do not fit
  wait in a queue. \<open>Write_Alloc\<close>, \<open>Write_Path\<close> and \<open>Write_Refine\<close> prove what one request does,
  \<open>Wcb_Init\<close> the start-up, and \<open>Write_Props\<close> draws the conclusions: a write refines an abstract cache that
  only counts slots, its pages are found through the mapping, the valid-page counts stay right. \<open>Write_System\<close> puts
  requests, submissions, completions and retries into a step relation with a ghost copy of the flash and of the
  acknowledged data; \<open>Write_Durable\<close> and \<open>Write_Reach\<close> prove its invariant: no operation stops the
  machine, no entity is lost, no acknowledged page is lost, the cache can always be drained and a waiting request
  be finished. A free raid block is assumed for a step that may open one, since the code has
  no reclamation. \<open>Write_Threads\<close> adds the two kernel threads and shows that the one for waiting requests can miss
  its signal for good.

  \<^bold>\<open>fscftl, commands and life cycle.\<close> \<open>Ppa_Cmd\<close> models the submission layer (\<open>core.c\<close>, \<open>datapath/ppa-ops.c\<close>) over
  an explicit DMA pool; \<open>Backend_Cdev\<close> the ioctls of user space (\<open>backend/be-cdev.c\<close>); \<open>Bootblk\<close> the mirrored boot pages
  (\<open>bootblk/bootblk-mngr.c\<close>; a flush takes its copy of the page when it is submitted); \<open>Mcp\<close> the manufacturing
  initialisation (\<open>build_recovery/mcp.c\<close>) with the interleaved bad-block discovery as a step relation;
  \<open>Power_Cycle\<close> power down and power up (\<open>build_recovery/power-cycle.c\<close>); \<open>Fscftl_Init\<close> loading and
  unloading of the module (\<open>fscftl-init.c\<close>). Shown are round trips of the boot pages, exactness of the discovery when
  its reads are awaited and its failures when they are not, release of every resource on every error
  path, and the state a loaded or unloaded module leaves.

  \<^bold>\<open>pblk.\<close> \<open>Pblk_Defs\<close> holds the data of \<open>pblk.h\<close>, \<open>Pblk_Rl\<close> the rate limiter (\<open>pblk-rl.c\<close>, the switch in
  \<open>pblk-gc.c\<close>), \<open>Pblk_Core\<close> the logical map and the lines (\<open>pblk-core.c\<close>), \<open>Pblk_Rb\<close> the ring buffer
  (\<open>pblk-rb.c\<close>), \<open>Pblk_Cache\<close> its users (\<open>pblk-cache.c\<close>, \<open>pblk-write.c\<close>, \<open>pblk-map.c\<close>, \<open>pblk-read.c\<close>). \<open>Pblk_Ring\<close> relates the wrapping
  indices to positions that only grow, \<open>Pblk_Inv\<close> states the invariant over them, \<open>Pblk_Ops\<close>, \<open>Pblk_Insert\<close>,
  \<open>Pblk_Drain\<close>, \<open>Pblk_Map\<close> and \<open>Pblk_Complete\<close> prove that each operation keeps it. \<open>Pblk_System\<close> interleaves
  requests (reserving, copying and publishing sector by sector), the write thread, completions in any
  order, the synchronisation of the map and discards; \<open>Pblk_Safety\<close> proves, through the locale
  \<open>step_system\<close>, that the buffer stays well formed, that no enabled operation stops the machine and that a
  read finds the last write. Assumed are: a buffer as \<open>pblk_rwb_init\<close> makes it, lines that
  hold their own reference, an allocator that hands out unused sectors of such lines (\<open>alloc_ok\<close>), a minimal
  write size that divides the maximal one, and for the reads that a request updates the map as soon as it has
  copied a sector (the flag \<open>prompt\<close>), which the code does not enforce. The scan for completed
  requests has the length of the list as fuel; each of its rounds takes one request off it.

  \<^bold>\<open>Firmware.\<close> \<open>Fw_Queue\<close> models \<open>lib/queue.h\<close>, \<open>Fw_Rbtree\<close> \<open>lib/rb-tree.c\<close>, \<open>Fw_Rblock\<close> the block lists
  (\<open>ftl/rblock_mgmt.c\<close>, \<open>include/list.h\<close>), \<open>Fw_Badblock\<close> bad dies and page types (\<open>ftl/badblock_mgmt.c\<close>,
  \<open>ftl/sys_tbl.c\<close>), with what their operations do and where they go wrong.

  \<^bold>\<open>Not modelled.\<close> The read path of \<open>fscftl\<close> is an empty file and its garbage collection a note. Of \<open>pblk\<close>:
  allocation of lines and their metadata on the device, erase of the next line, LUN semaphores, garbage collection
  worker, recovery scan and sysfs, which work on state of the kernel and of the device; writes of the
  collector are translated but take no part in the step relation. The LightNVM core, \<open>rrpc\<close> and the NVMe
  transports are kernel drivers that the modelled code calls through the few functions modelled in \<open>Ppa_Cmd\<close>, or not
  at all. The rest of the firmware is a draft that does not compile. Timing, debug output and memory
  ordering are left out.
\<close>

end
